(* ===== verification/Bits.thy ===== *)
theory Bits
  imports Prelude
begin

text \<open>
  Bit vectors of \<^verbatim>\<open>src/types/bits.hh\<close>. A \<open>bits<>\<close> object is a
  \<open>boost::dynamic_bitset<uint8_t>\<close>; it is a list of booleans here, position 0 being the
  least significant bit, so its length is the bitset's \<open>size()\<close>.
\<close>

section \<open>The dynamic bitset\<close>

type_synonym bits = "bool list"

type_synonym byte = "8 word"

text \<open>\<open>bits(size_t num_bits)\<close>: all bits zero; \<open>.set()\<close>: all bits one.\<close>

definition bits_zero :: "nat \<Rightarrow> bits" where
  "bits_zero n = replicate n False"

definition bits_set :: "bits \<Rightarrow> bits" where
  "bits_set b = replicate (length b) True"

definition bits_and :: "bits \<Rightarrow> bits \<Rightarrow> bits" where
  "bits_and a b = map2 (\<and>) a b"

definition bits_or :: "bits \<Rightarrow> bits \<Rightarrow> bits" where
  "bits_or a b = map2 (\<or>) a b"

definition bits_xor :: "bits \<Rightarrow> bits \<Rightarrow> bits" where
  "bits_xor a b = map2 (\<noteq>) a b"

definition bits_not :: "bits \<Rightarrow> bits" where
  "bits_not a = map Not a"

definition bits_all :: "bits \<Rightarrow> bool" where
  "bits_all a = list_all (\<lambda>x. x) a"

definition bits_none :: "bits \<Rightarrow> bool" where
  "bits_none a = list_all Not a"

text \<open>The number a bitset stands for, and the bitset of \<open>n\<close> bits of a number.\<close>

fun bits_val :: "bits \<Rightarrow> nat" where
  "bits_val [] = 0"
| "bits_val (b # bs) = (if b then 1 else 0) + 2 * bits_val bs"

fun bits_of :: "nat \<Rightarrow> nat \<Rightarrow> bits" where
  "bits_of 0 v = []"
| "bits_of (Suc n) v = odd v # bits_of n (v div 2)"

text \<open>
  \<open>operator<\<close> of the dynamic bitset compares from the most significant bit down; for
  bitsets of one size that is the order of the numbers. The code compares only values of one
  field type, which have one size.
\<close>

definition bits_less :: "bits \<Rightarrow> bits \<Rightarrow> bool" where
  "bits_less a b = (bits_val a < bits_val b)"

text \<open>
  Serialization, big-endian. \<open>bits(num_bits, buffer)\<close> builds the bitset from the bytes
  \<open>buffer[n-1], ..., buffer[0], buffer[-1]\<close> (its end iterator is one too far) and then cuts it
  to \<open>num_bits\<close> bits; the byte before the buffer is the argument \<open>prev\<close>.
\<close>

definition num_blocks :: "nat \<Rightarrow> nat" where
  "num_blocks n = n div 8 + (if n mod 8 \<noteq> 0 then 1 else 0)"

definition byte_bits :: "byte \<Rightarrow> bits" where
  "byte_bits w = bits_of 8 (unat w)"

definition bits_byte :: "bits \<Rightarrow> byte" where
  "bits_byte b = of_nat (bits_val b)"

definition from_buffer :: "nat \<Rightarrow> byte \<Rightarrow> byte list \<Rightarrow> bits" where
  "from_buffer n prev buf =
     take n (concat (map byte_bits (rev (take (num_blocks n) buf) @ [prev])))"

text \<open>The blocks of the bitset, the lowest first, the last one padded with zeros.\<close>

fun blocks :: "bits \<Rightarrow> byte list" where
  "blocks [] = []"
| "blocks (b # bs) = bits_byte (take 8 (b # bs)) # blocks (drop 7 bs)"

definition to_buffer :: "bits \<Rightarrow> byte list" where
  "to_buffer b = rev (blocks b)"

text \<open>\<open>bit_cast\<close> between integers and bitsets, and the checked cast to a static bitset.\<close>

definition bits_of_word :: "'a::len word \<Rightarrow> bits" where
  "bits_of_word w = bits_of LENGTH('a) (unat w)"

definition word_of_bits :: "bits \<Rightarrow> 'a::len word" where
  "word_of_bits b = of_nat (bits_val b)"

definition bits_cast :: "nat \<Rightarrow> bits \<Rightarrow> bits res" where
  "bits_cast n b = (if length b \<noteq> n then Inl Bad_cast else Inr b)"

section \<open>Lengths and positions\<close>

lemma bits_length [simp]:
  "length (bits_zero n) = n"
  "length (bits_set a) = length a"
  "length (bits_and a b) = min (length a) (length b)"
  "length (bits_or a b) = min (length a) (length b)"
  "length (bits_xor a b) = min (length a) (length b)"
  "length (bits_not a) = length a"
  by (simp_all add: bits_zero_def bits_set_def bits_and_def bits_or_def bits_xor_def bits_not_def)

lemma bits_of_length [simp]: "length (bits_of n v) = n"
  by (induction n arbitrary: v) auto

lemma bits_nth [bits_simps]:
  "i < n \<Longrightarrow> bits_zero n ! i = False"
  "i < length a \<Longrightarrow> bits_set a ! i = True"
  "i < length a \<Longrightarrow> i < length b \<Longrightarrow> bits_and a b ! i = (a ! i \<and> b ! i)"
  "i < length a \<Longrightarrow> i < length b \<Longrightarrow> bits_or a b ! i = (a ! i \<or> b ! i)"
  "i < length a \<Longrightarrow> i < length b \<Longrightarrow> bits_xor a b ! i = (a ! i \<noteq> b ! i)"
  "i < length a \<Longrightarrow> bits_not a ! i = (\<not> a ! i)"
  by (simp_all add: bits_zero_def bits_set_def bits_and_def bits_or_def bits_xor_def bits_not_def)

lemma bits_all_iff: "bits_all a \<longleftrightarrow> (\<forall>i < length a. a ! i)"
  by (auto simp: bits_all_def list_all_length)

lemma bits_none_iff: "bits_none a \<longleftrightarrow> (\<forall>i < length a. \<not> a ! i)"
  by (auto simp: bits_none_def list_all_length)

lemma bits_all_set [simp]: "bits_all (bits_set a)"
  by (simp add: bits_all_iff bits_simps)

lemma bits_none_zero [simp]: "bits_none (bits_zero n)"
  by (simp add: bits_none_iff bits_simps)

lemma bits_all_eq_set: "bits_all a \<Longrightarrow> a = bits_set a"
  by (rule list_eqI2) (auto simp: bits_all_iff bits_simps)

lemma bits_none_eq_zero: "bits_none a \<Longrightarrow> a = bits_zero (length a)"
  by (rule list_eqI2) (auto simp: bits_none_iff bits_simps)

section \<open>Numbers and bits\<close>

lemma bits_val_less: "bits_val a < 2 ^ length a"
  by (induction a) auto

lemma bits_val_of [simp]: "bits_val (bits_of n v) = v mod 2 ^ n"
proof (induction n arbitrary: v)
  case 0
  then show ?case by (simp add: mod_less_eq_dividend)
next
  case (Suc n)
  have "v mod 2 ^ Suc n = v mod 2 + 2 * (v div 2 mod 2 ^ n)"
    by (simp add: mod_mult2_eq mult.commute)
  with Suc show ?case by (simp add: odd_iff_mod_2_eq_one)
qed

lemma bits_of_val [simp]: "bits_of (length a) (bits_val a) = a"
  by (induction a) auto

lemma bits_val_inj: "length a = length b \<Longrightarrow> bits_val a = bits_val b \<Longrightarrow> a = b"
  by (metis bits_of_val)

text \<open>Bitsets of one size are totally ordered by \<open>operator<\<close>.\<close>

lemma bits_less_total: "length a = length b \<Longrightarrow> a \<noteq> b \<Longrightarrow> bits_less a b \<or> bits_less b a"
  unfolding bits_less_def using bits_val_inj [of a b] by linarith

lemma bits_less_irrefl [simp]: "\<not> bits_less a a"
  by (simp add: bits_less_def)

lemma bits_less_asym: "bits_less a b \<Longrightarrow> \<not> bits_less b a"
  by (simp add: bits_less_def)

section \<open>Serialization\<close>

lemma bits_of_pad: "length b \<le> n \<Longrightarrow> bits_of n (bits_val b) = b @ replicate (n - length b) False"
proof (induction b arbitrary: n)
  case Nil
  have "bits_of n 0 = replicate n False" by (induction n) auto
  then show ?case by simp
next
  case (Cons x b)
  then obtain m where "n = Suc m" by (cases n) auto
  with Cons show ?case by auto
qed

lemma byte_bits_length [simp]: "length (byte_bits w) = 8"
  by (simp add: byte_bits_def)

lemma byte_bits_of: "length b \<le> 8 \<Longrightarrow> byte_bits (bits_byte b) = b @ replicate (8 - length b) False"
proof -
  assume l: "length b \<le> 8"
  have "bits_val b < 256" using bits_val_less [of b] power_increasing [OF l, of "2::nat"] by simp
  then show ?thesis using bits_of_pad [OF l] by (simp add: byte_bits_def bits_byte_def unat_of_nat)
qed

lemma bits_byte_of [simp]: "bits_byte (byte_bits w) = w"
proof -
  have "unat w < 256" using unsigned_less [of w, where ?'a = nat] by simp
  then show ?thesis by (simp add: byte_bits_def bits_byte_def)
qed

lemma num_blocks_step: "0 < n \<Longrightarrow> num_blocks n = Suc (num_blocks (n - 8))"
proof (cases "n < 8")
  case False
  then obtain m where "n = 8 + m" using le_Suc_ex not_less by blast
  then show ?thesis by (simp add: num_blocks_def)
qed (simp add: num_blocks_def)

lemma blocks_length: "length (blocks b) = num_blocks (length b)"
proof (induction b rule: blocks.induct)
  case (2 b bs)
  then show ?case using num_blocks_step [of "length (b # bs)"] by simp
qed (simp add: num_blocks_def)

lemma concat_blocks: "\<exists>pad. concat (map byte_bits (blocks b)) = b @ pad"
proof (induction b rule: blocks.induct)
  case (2 x bs)
  let ?c = "take 8 (x # bs)"
  show ?case
  proof (cases "length (x # bs) \<le> 8")
    case True
    then have "blocks (drop 7 bs) = []" by simp
    with True byte_bits_of [of ?c] show ?thesis by simp
  next
    case False
    then have "byte_bits (bits_byte ?c) = ?c" using byte_bits_of [of ?c] by simp
    moreover obtain pad where "concat (map byte_bits (blocks (drop 7 bs))) = drop 7 bs @ pad"
      using 2 by blast
    moreover have "x # bs = ?c @ drop 7 bs" by simp
    ultimately have "concat (map byte_bits (blocks (x # bs))) = (x # bs) @ pad"
      by (metis append.assoc blocks.simps(2) concat.simps(2) list.simps(9))
    then show ?thesis by blast
  qed
qed simp

text \<open>Reading back what was written gives the bitset, whatever lies before the buffer.\<close>

lemma from_to_buffer: "from_buffer (length b) prev (to_buffer b @ rest) = b"
proof -
  obtain pad where "concat (map byte_bits (blocks b)) = b @ pad" using concat_blocks by blast
  then show ?thesis by (simp add: from_buffer_def to_buffer_def blocks_length)
qed

lemma blocks_concat: "blocks (concat (map byte_bits ws)) = ws"
proof (induction ws)
  case (Cons w ws)
  obtain x xs where "byte_bits w = x # xs" "length xs = 7"
    using byte_bits_length [of w] by (cases "byte_bits w") auto
  moreover have "bits_byte (x # xs) = w" using calculation by (metis bits_byte_of)
  ultimately show ?case using Cons by simp
qed simp

lemma to_from_buffer:
  assumes "length buf = n"
  shows "to_buffer (from_buffer (8 * n) prev buf) = buf"
proof -
  have len: "length (concat (map byte_bits ws)) = 8 * length ws" for ws
    by (induction ws) auto
  have "take (8 * n) (concat (map byte_bits (rev buf)) @ byte_bits prev) = concat (map byte_bits (rev buf))"
    using assms len [of "rev buf"] by simp
  with assms show ?thesis
    by (simp add: from_buffer_def to_buffer_def num_blocks_def blocks_concat)
qed

lemma from_buffer_length: "n \<le> 8 * length buf \<Longrightarrow> length (from_buffer n prev buf) = n"
proof -
  assume n: "n \<le> 8 * length buf"
  have len: "length (concat (map byte_bits ws)) = 8 * length ws" for ws
    by (induction ws) auto
  have "n mod 8 < 8" "n = 8 * (n div 8) + n mod 8" by simp_all
  moreover have "n div 8 \<le> num_blocks n" "n mod 8 \<noteq> 0 \<Longrightarrow> n div 8 + 1 = num_blocks n"
    by (simp_all add: num_blocks_def)
  ultimately have "n \<le> 8 * num_blocks n" by (cases "n mod 8 = 0") linarith+
  with n show ?thesis by (simp add: from_buffer_def len)
qed

lemma word_bits_roundtrip: "word_of_bits (bits_of_word w) = (w :: 'a::len word)"
  by (simp add: word_of_bits_def bits_of_word_def unsigned_less)

lemma bits_word_roundtrip:
  "length b = LENGTH('a) \<Longrightarrow> bits_of_word (word_of_bits b :: 'a::len word) = b"
proof -
  assume "length b = LENGTH('a)"
  moreover from this have "bits_val b mod 2 ^ LENGTH('a) = bits_val b" using bits_val_less [of b] by simp
  ultimately show ?thesis
    using bits_of_val [of b] by (simp add: bits_of_word_def word_of_bits_def unat_of_nat)
qed

section \<open>Properties\<close>

text \<open>
  the big-endian serialization of bitsets round-trips: a bitset written with
  \<open>to_buffer\<close> is read back by the buffer constructor, whatever bytes lie before and after the
  buffer, and a buffer of whole bytes is written back unchanged.
\<close>

lemma buffer_roundtrip:
  "from_buffer (length b) prev (to_buffer b @ rest) = b \<and>
   to_buffer (from_buffer (8 * length buf) prev buf) = buf"
  using from_to_buffer to_from_buffer by blast

end
