(* ===== verification/Oxm_Type.thy ===== *)
theory Oxm_Type
  imports Bits
begin

text \<open>
  The type descriptors of OpenFlow extensible match fields: \<open>oxm::type\<close> of
  \<^verbatim>\<open>src/oxm/type.hh\<close>, the field registry of \<^verbatim>\<open>src/openflow/common.hh\<close> and
  the concrete types of \<^verbatim>\<open>src/oxm/openflow_basic.hh\<close>.
\<close>

section \<open>Type descriptors\<close>

text \<open>
  The bit-field widths of the class are kept: a 16-bit namespace, a 7-bit field id and a
  16-bit size. The printing hook and the C++ type info take no part in comparisons and are
  left out.
\<close>

record oxm_type =
  ty_ns :: "16 word"
  ty_id :: "7 word"
  ty_maskable :: bool
  ty_nbits :: "16 word"

definition nbits :: "oxm_type \<Rightarrow> nat" where
  "nbits t = unat (ty_nbits t)"

definition nbytes :: "oxm_type \<Rightarrow> nat" where
  "nbytes t = nbits t div 8 + (if nbits t mod 8 \<noteq> 0 then 1 else 0)"

text \<open>\<open>operator==\<close> looks at the namespace and the id only.\<close>

definition type_eq :: "oxm_type \<Rightarrow> oxm_type \<Rightarrow> bool" where
  "type_eq a b = (ty_ns a = ty_ns b \<and> ty_id a = ty_id b)"

text \<open>\<open>std::hash<oxm::type>\<close>: the key of the unordered containers, before hashing.\<close>

definition type_hash_key :: "oxm_type \<Rightarrow> 64 word" where
  "type_hash_key t = or (push_bit 8 (ucast (ty_ns t))) (ucast (ty_id t))"

lemma type_eq_refl [simp]: "type_eq t t"
  by (simp add: type_eq_def)

lemma type_eq_sym: "type_eq a b = type_eq b a"
  by (auto simp: type_eq_def)

lemma type_eq_trans: "type_eq a b \<Longrightarrow> type_eq b c \<Longrightarrow> type_eq a c"
  by (simp add: type_eq_def)

lemma type_eq_left: "type_eq a b \<Longrightarrow> type_eq a c = type_eq b c"
  by (auto simp: type_eq_def)

lemma type_eq_right: "type_eq a b \<Longrightarrow> type_eq c a = type_eq c b"
  by (auto simp: type_eq_def)

lemma nbytes_bounds: "nbits t \<le> 8 * nbytes t" "8 * nbytes t < nbits t + 8"
  by (auto simp: nbytes_def) presburger+

section \<open>The registry of field ids\<close>

datatype oxm_ns = NXM_0 | NXM_1 | NON_OPENFLOW | OPENFLOW_BASIC | EXPERIMENTER

fun ns_code :: "oxm_ns \<Rightarrow> 16 word" where
  "ns_code NXM_0 = 0x0000"
| "ns_code NXM_1 = 0x0001"
| "ns_code NON_OPENFLOW = 0x7406"
| "ns_code OPENFLOW_BASIC = 0x8000"
| "ns_code EXPERIMENTER = 0xFFFF"

datatype basic_match_fields =
    IN_PORT | IN_PHY_PORT | METADATA | ETH_DST | ETH_SRC | ETH_TYPE | VLAN_VID | VLAN_PCP
  | IP_DSCP | IP_ECN | IP_PROTO | IPV4_SRC | IPV4_DST | TCP_SRC | TCP_DST | UDP_SRC | UDP_DST
  | SCTP_SRC | SCTP_DST | ICMPV4_TYPE | ICMPV4_CODE | ARP_OP | ARP_SPA | ARP_TPA | ARP_SHA
  | ARP_THA | IPV6_SRC | IPV6_DST | IPV6_FLABEL | ICMPV6_TYPE | ICMPV6_CODE | IPV6_ND_TARGET
  | IPV6_ND_SLL | IPV6_ND_TLL | MPLS_LABEL | MPLS_TC | MPLS_BOS | PBB_ISID | TUNNEL_ID
  | IPV6_EXTHDR

fun ofb_code :: "basic_match_fields \<Rightarrow> 7 word" where
  "ofb_code IN_PORT = 0"        | "ofb_code IN_PHY_PORT = 1"  | "ofb_code METADATA = 2"
| "ofb_code ETH_DST = 3"        | "ofb_code ETH_SRC = 4"      | "ofb_code ETH_TYPE = 5"
| "ofb_code VLAN_VID = 6"       | "ofb_code VLAN_PCP = 7"     | "ofb_code IP_DSCP = 8"
| "ofb_code IP_ECN = 9"         | "ofb_code IP_PROTO = 10"    | "ofb_code IPV4_SRC = 11"
| "ofb_code IPV4_DST = 12"      | "ofb_code TCP_SRC = 13"     | "ofb_code TCP_DST = 14"
| "ofb_code UDP_SRC = 15"       | "ofb_code UDP_DST = 16"     | "ofb_code SCTP_SRC = 17"
| "ofb_code SCTP_DST = 18"      | "ofb_code ICMPV4_TYPE = 19" | "ofb_code ICMPV4_CODE = 20"
| "ofb_code ARP_OP = 21"        | "ofb_code ARP_SPA = 22"     | "ofb_code ARP_TPA = 23"
| "ofb_code ARP_SHA = 24"       | "ofb_code ARP_THA = 25"     | "ofb_code IPV6_SRC = 26"
| "ofb_code IPV6_DST = 27"      | "ofb_code IPV6_FLABEL = 28" | "ofb_code ICMPV6_TYPE = 29"
| "ofb_code ICMPV6_CODE = 30"   | "ofb_code IPV6_ND_TARGET = 31" | "ofb_code IPV6_ND_SLL = 32"
| "ofb_code IPV6_ND_TLL = 33"   | "ofb_code MPLS_LABEL = 34"  | "ofb_code MPLS_TC = 35"
| "ofb_code MPLS_BOS = 36"      | "ofb_code PBB_ISID = 37"    | "ofb_code TUNNEL_ID = 38"
| "ofb_code IPV6_EXTHDR = 39"

datatype non_openflow_fields = SWITCH_ID | OUT_PORT

fun nonof_code :: "non_openflow_fields \<Rightarrow> 7 word" where
  "nonof_code SWITCH_ID = 1"
| "nonof_code OUT_PORT = 2"

section \<open>The concrete types\<close>

definition define_type :: "16 word \<Rightarrow> 7 word \<Rightarrow> 16 word \<Rightarrow> bool \<Rightarrow> oxm_type" where
  "define_type ns i n hasmask = \<lparr>ty_ns = ns, ty_id = i, ty_maskable = hasmask, ty_nbits = n\<rparr>"

definition define_ofb_type :: "basic_match_fields \<Rightarrow> 16 word \<Rightarrow> bool \<Rightarrow> oxm_type" where
  "define_ofb_type i n hasmask = define_type (ns_code OPENFLOW_BASIC) (ofb_code i) n hasmask"

definition ofb_switch_id :: oxm_type where
  "ofb_switch_id = define_type (ns_code NON_OPENFLOW) (nonof_code SWITCH_ID) 64 False"

definition ofb_out_port :: oxm_type where
  "ofb_out_port = define_type (ns_code NON_OPENFLOW) (nonof_code OUT_PORT) 32 False"

definition ofb_in_port :: oxm_type where "ofb_in_port = define_ofb_type IN_PORT 32 False"
definition ofb_eth_type :: oxm_type where "ofb_eth_type = define_ofb_type ETH_TYPE 16 False"
definition ofb_eth_src :: oxm_type where "ofb_eth_src = define_ofb_type ETH_SRC 48 True"
definition ofb_eth_dst :: oxm_type where "ofb_eth_dst = define_ofb_type ETH_DST 48 True"
definition ofb_ip_proto :: oxm_type where "ofb_ip_proto = define_ofb_type IP_PROTO 8 False"
definition ofb_ipv4_src :: oxm_type where "ofb_ipv4_src = define_ofb_type IPV4_SRC 32 True"
definition ofb_ipv4_dst :: oxm_type where "ofb_ipv4_dst = define_ofb_type IPV4_DST 32 True"
definition ofb_tcp_src :: oxm_type where "ofb_tcp_src = define_ofb_type TCP_SRC 16 False"
definition ofb_tcp_dst :: oxm_type where "ofb_tcp_dst = define_ofb_type TCP_DST 16 False"
definition ofb_udp_src :: oxm_type where "ofb_udp_src = define_ofb_type UDP_SRC 16 False"
definition ofb_udp_dst :: oxm_type where "ofb_udp_dst = define_ofb_type UDP_DST 16 False"
definition ofb_arp_spa :: oxm_type where "ofb_arp_spa = define_ofb_type ARP_SPA 32 True"
definition ofb_arp_tpa :: oxm_type where "ofb_arp_tpa = define_ofb_type ARP_TPA 32 True"
definition ofb_arp_sha :: oxm_type where "ofb_arp_sha = define_ofb_type ARP_SHA 48 True"
definition ofb_arp_tha :: oxm_type where "ofb_arp_tha = define_ofb_type ARP_THA 48 True"
definition ofb_arp_op :: oxm_type where "ofb_arp_op = define_ofb_type ARP_OP 16 False"
definition ofb_vlan_vid :: oxm_type where "ofb_vlan_vid = define_ofb_type VLAN_VID 12 False"
definition ofb_ipv6_src :: oxm_type where "ofb_ipv6_src = define_ofb_type IPV6_SRC 128 True"
definition ofb_ipv6_dst :: oxm_type where "ofb_ipv6_dst = define_ofb_type IPV6_DST 128 True"
definition ofb_icmp_type :: oxm_type where "ofb_icmp_type = define_ofb_type ICMPV4_TYPE 8 False"
definition ofb_icmp_code :: oxm_type where "ofb_icmp_code = define_ofb_type ICMPV4_CODE 8 False"

text \<open>Every type the source defines.\<close>

definition known_types :: "oxm_type list" where
  "known_types =
     [ofb_switch_id, ofb_out_port, ofb_in_port, ofb_eth_type, ofb_eth_src, ofb_eth_dst,
      ofb_ip_proto, ofb_ipv4_src, ofb_ipv4_dst, ofb_tcp_src, ofb_tcp_dst, ofb_udp_src,
      ofb_udp_dst, ofb_arp_spa, ofb_arp_tpa, ofb_arp_sha, ofb_arp_tha, ofb_arp_op,
      ofb_vlan_vid, ofb_ipv6_src, ofb_ipv6_dst, ofb_icmp_type, ofb_icmp_code]"

lemmas ofb_type_defs =
  define_type_def define_ofb_type_def ofb_switch_id_def ofb_out_port_def ofb_in_port_def
  ofb_eth_type_def ofb_eth_src_def ofb_eth_dst_def ofb_ip_proto_def ofb_ipv4_src_def
  ofb_ipv4_dst_def ofb_tcp_src_def ofb_tcp_dst_def ofb_udp_src_def ofb_udp_dst_def
  ofb_arp_spa_def ofb_arp_tpa_def ofb_arp_sha_def ofb_arp_tha_def ofb_arp_op_def
  ofb_vlan_vid_def ofb_ipv6_src_def ofb_ipv6_dst_def ofb_icmp_type_def ofb_icmp_code_def

section \<open>Coherent sets of types\<close>

text \<open>
  Two descriptors that compare equal may still differ in their size. The field algebra is
  meaningful over sets of types in which they do not.
\<close>

definition coherent :: "oxm_type set \<Rightarrow> bool" where
  "coherent T = (\<forall>a \<in> T. \<forall>b \<in> T. type_eq a b \<longrightarrow> a = b)"

lemma coherentD: "coherent T \<Longrightarrow> a \<in> T \<Longrightarrow> b \<in> T \<Longrightarrow> type_eq a b \<Longrightarrow> a = b"
  by (auto simp: coherent_def)

lemma coherent_known: "coherent (set known_types)"
  by (simp add: coherent_def known_types_def ofb_type_defs type_eq_def)

lemma nbits_known [simp]:
  "nbits ofb_switch_id = 64" "nbits ofb_out_port = 32" "nbits ofb_in_port = 32"
  "nbits ofb_eth_type = 16" "nbits ofb_eth_src = 48" "nbits ofb_eth_dst = 48"
  "nbits ofb_ip_proto = 8" "nbits ofb_ipv4_src = 32" "nbits ofb_ipv4_dst = 32"
  "nbits ofb_tcp_src = 16" "nbits ofb_tcp_dst = 16" "nbits ofb_udp_src = 16"
  "nbits ofb_udp_dst = 16" "nbits ofb_vlan_vid = 12" "nbits ofb_arp_op = 16"
  by (simp_all add: nbits_def ofb_type_defs)

end
