(* ===== verification/Oxm_Field.thy ===== *)
theory Oxm_Field
  imports Oxm_Type
begin

text \<open>
  Values, masks and masked fields of \<^verbatim>\<open>src/oxm/field.hh\<close> in their dynamically typed
  form (\<open>value<>\<close>, \<open>mask<>\<close>, \<open>field<>\<close>): the checking constructors, the operators
  with their type checks, and the algebra they satisfy on well-formed operands.
\<close>

section \<open>Objects and constructors\<close>

record oxm_value =
  v_type :: oxm_type
  v_value :: bits

record oxm_mask =
  m_type :: oxm_type
  m_mask :: bits

record oxm_field =
  f_type :: oxm_type
  f_value :: bits
  f_mask :: bits

text \<open>\<open>value_holder\<close> and \<open>mask_holder\<close> check the sizes, \<open>mask_holder\<close> also that a type
  without masks is matched exactly or not at all.\<close>

definition check_value :: "oxm_type \<Rightarrow> bits \<Rightarrow> unit res" where
  "check_value t v = (if length v \<noteq> nbits t then Inl Bad_bit_length else Inr ())"

definition check_mask :: "oxm_type \<Rightarrow> bits \<Rightarrow> unit res" where
  "check_mask t m =
     (if length m \<noteq> nbits t then Inl Bad_bit_length
      else if \<not> ty_maskable t \<and> \<not> (bits_all m \<or> bits_none m) then Inl Bad_mask
      else Inr ())"

definition value_ctor :: "oxm_type \<Rightarrow> bits \<Rightarrow> oxm_value res" where
  "value_ctor t v = rbind (check_value t v) (\<lambda>_. Inr \<lparr>v_type = t, v_value = v\<rparr>)"

definition mask_ctor :: "oxm_type \<Rightarrow> bits \<Rightarrow> oxm_mask res" where
  "mask_ctor t m = rbind (check_mask t m) (\<lambda>_. Inr \<lparr>m_type = t, m_mask = m\<rparr>)"

definition field_ctor :: "oxm_type \<Rightarrow> bits \<Rightarrow> bits \<Rightarrow> oxm_field res" where
  "field_ctor t v m =
     rbind (check_value t v) (\<lambda>_. rbind (check_mask t m) (\<lambda>_.
       Inr \<lparr>f_type = t, f_value = bits_and v m, f_mask = m\<rparr>))"

text \<open>The exact mask of a type, the wildcard field of a type, the exact field of a value.\<close>

definition exact_mask :: "oxm_type \<Rightarrow> oxm_mask" where
  "exact_mask t = \<lparr>m_type = t, m_mask = bits_set (bits_zero (nbits t))\<rparr>"

definition wildcard_field :: "oxm_type \<Rightarrow> oxm_field" where
  "wildcard_field t =
     \<lparr>f_type = t, f_value = bits_zero (nbits t), f_mask = bits_zero (nbits t)\<rparr>"

definition exact_field :: "oxm_type \<Rightarrow> bits \<Rightarrow> oxm_field res" where
  "exact_field t v = field_ctor t v (bits_set (bits_zero (nbits t)))"

definition field_of_value :: "oxm_value \<Rightarrow> oxm_field res" where
  "field_of_value v = exact_field (v_type v) (v_value v)"

definition mask_of :: "oxm_field \<Rightarrow> oxm_mask" where
  "mask_of f = \<lparr>m_type = f_type f, m_mask = f_mask f\<rparr>"

definition value_of :: "oxm_field \<Rightarrow> oxm_value" where
  "value_of f = \<lparr>v_type = f_type f, v_value = f_value f\<rparr>"

text \<open>Downcasts to a statically typed field check the type.\<close>

definition field_cast :: "oxm_type \<Rightarrow> oxm_field \<Rightarrow> oxm_field res" where
  "field_cast t f = (if \<not> type_eq (f_type f) t then Inl Bad_cast else
     field_ctor t (f_value f) (f_mask f))"

definition exact :: "oxm_field \<Rightarrow> bool" where "exact f = bits_all (f_mask f)"
definition wildcard :: "oxm_field \<Rightarrow> bool" where "wildcard f = bits_none (f_mask f)"
definition fuzzy :: "oxm_field \<Rightarrow> bool" where "fuzzy f = (\<not> (exact f \<or> wildcard f))"

section \<open>Operators\<close>

definition mask_eq :: "oxm_mask \<Rightarrow> oxm_mask \<Rightarrow> bool" where
  "mask_eq a b = (type_eq (m_type a) (m_type b) \<and> m_mask a = m_mask b)"

definition value_eq :: "oxm_value \<Rightarrow> oxm_value \<Rightarrow> bool" where
  "value_eq a b = (type_eq (v_type a) (v_type b) \<and> v_value a = v_value b)"

definition field_eq :: "oxm_field \<Rightarrow> oxm_field \<Rightarrow> bool" where
  "field_eq a b =
     (type_eq (f_type a) (f_type b) \<and> f_value a = f_value b \<and> f_mask a = f_mask b)"

definition binop_type :: "oxm_type \<Rightarrow> oxm_type \<Rightarrow> oxm_type res" where
  "binop_type a b = (if type_eq a b then Inr a else Inl Bad_operands)"

text \<open>Bit operations on masks.\<close>

definition mask_not :: "oxm_mask \<Rightarrow> oxm_mask res" where
  "mask_not m = mask_ctor (m_type m) (bits_not (m_mask m))"

definition mask_or :: "oxm_mask \<Rightarrow> oxm_mask \<Rightarrow> oxm_mask res" where
  "mask_or a b = rbind (binop_type (m_type a) (m_type b))
     (\<lambda>t. mask_ctor t (bits_or (m_mask a) (m_mask b)))"

definition mask_xor :: "oxm_mask \<Rightarrow> oxm_mask \<Rightarrow> oxm_mask res" where
  "mask_xor a b = rbind (binop_type (m_type a) (m_type b))
     (\<lambda>t. mask_ctor t (bits_xor (m_mask a) (m_mask b)))"

definition mask_and :: "oxm_mask \<Rightarrow> oxm_mask \<Rightarrow> oxm_mask res" where
  "mask_and a b = rbind (binop_type (m_type a) (m_type b))
     (\<lambda>t. mask_ctor t (bits_and (m_mask a) (m_mask b)))"

text \<open>Widening a field by a mask, constructing a field from a value and a mask.\<close>

definition field_and_mask :: "oxm_field \<Rightarrow> oxm_mask \<Rightarrow> oxm_field res" where
  "field_and_mask f m = rbind (binop_type (f_type f) (m_type m))
     (\<lambda>t. field_ctor t (f_value f) (bits_and (f_mask f) (m_mask m)))"

definition value_and_mask :: "oxm_value \<Rightarrow> oxm_mask \<Rightarrow> oxm_field res" where
  "value_and_mask v m = rbind (binop_type (v_type v) (m_type m))
     (\<lambda>t. field_ctor t (v_value v) (m_mask m))"

text \<open>Matching.\<close>

definition value_match :: "oxm_value \<Rightarrow> oxm_value \<Rightarrow> bool res" where
  "value_match a b = rbind (binop_type (v_type a) (v_type b)) (\<lambda>_. Inr (value_eq a b))"

definition field_match_value :: "oxm_field \<Rightarrow> oxm_value \<Rightarrow> bool res" where
  "field_match_value f v = rbind (binop_type (f_type f) (v_type v))
     (\<lambda>_. rbind (value_and_mask v (mask_of f)) (\<lambda>g. Inr (field_eq f g)))"

definition field_match :: "oxm_field \<Rightarrow> oxm_field \<Rightarrow> bool res" where
  "field_match a b = rbind (mask_and (mask_of a) (mask_of b))
     (\<lambda>m. rbind (value_and_mask (value_of a) m)
       (\<lambda>x. rbind (value_and_mask (value_of b) m) (\<lambda>y. Inr (field_eq x y))))"

text \<open>Rewriting: the right operand's bits replace the left operand's.\<close>

definition value_rewrite :: "oxm_value \<Rightarrow> oxm_field \<Rightarrow> oxm_value res" where
  "value_rewrite v f = rbind (binop_type (v_type v) (f_type f))
     (\<lambda>t. value_ctor t (bits_or (bits_and (v_value v) (bits_not (f_mask f))) (f_value f)))"

definition field_rewrite :: "oxm_field \<Rightarrow> oxm_field \<Rightarrow> oxm_field res" where
  "field_rewrite a b = rbind (value_rewrite (value_of a) b)
     (\<lambda>v. rbind (mask_or (mask_of a) (mask_of b)) (\<lambda>m. value_and_mask v m))"

section \<open>Well-formed objects\<close>

text \<open>What the constructors guarantee: the class invariant.\<close>

definition wf_mask :: "oxm_mask \<Rightarrow> bool" where
  "wf_mask m = (length (m_mask m) = nbits (m_type m) \<and>
     (ty_maskable (m_type m) \<or> bits_all (m_mask m) \<or> bits_none (m_mask m)))"

definition wf_value :: "oxm_value \<Rightarrow> bool" where
  "wf_value v = (length (v_value v) = nbits (v_type v))"

definition wf_field :: "oxm_field \<Rightarrow> bool" where
  "wf_field f = (wf_mask (mask_of f) \<and> wf_value (value_of f) \<and>
     bits_and (f_value f) (f_mask f) = f_value f)"

text \<open>An exact field, as the filters and rewrites of forwarding policies use.\<close>

definition wf_exact :: "oxm_field \<Rightarrow> bool" where
  "wf_exact f = (wf_field f \<and> exact f)"

lemma mask_of_simps [simp]: "m_type (mask_of f) = f_type f" "m_mask (mask_of f) = f_mask f"
  by (simp_all add: mask_of_def)

lemma value_of_simps [simp]: "v_type (value_of f) = f_type f" "v_value (value_of f) = f_value f"
  by (simp_all add: value_of_def)

lemma field_eq_refl [simp]: "field_eq f f"
  by (simp add: field_eq_def)

lemma field_eq_sym: "field_eq a b = field_eq b a"
  by (auto simp: field_eq_def type_eq_sym)

lemma field_eq_iff: "f_type a = f_type b \<Longrightarrow> field_eq a b \<longleftrightarrow> a = b"
  by (auto simp: field_eq_def)

lemma value_ctor_wf: "value_ctor t v = Inr x \<Longrightarrow> wf_value x"
  by (auto simp: value_ctor_def check_value_def wf_value_def split: if_splits)

lemma mask_ctor_wf: "mask_ctor t m = Inr x \<Longrightarrow> wf_mask x"
  by (auto simp: mask_ctor_def check_mask_def wf_mask_def split: if_splits)

lemma field_ctor_wf: "field_ctor t v m = Inr x \<Longrightarrow> wf_field x"
  by (auto simp: field_ctor_def check_value_def check_mask_def wf_field_def wf_mask_def
      wf_value_def bits_simps rbind_eq_Inr intro!: list_eqI2 split: if_splits)


lemma wf_field_length:
  assumes "wf_field f"
  shows "length (f_value f) = nbits (f_type f)" "length (f_mask f) = nbits (f_type f)"
  using assms by (simp_all add: wf_field_def wf_mask_def wf_value_def)

lemma wf_field_value_mask: "wf_field f \<Longrightarrow> i < nbits (f_type f) \<Longrightarrow> f_value f ! i \<Longrightarrow> f_mask f ! i"
  by (metis bits_nth(3) wf_field_def wf_field_length)

lemma wf_fieldI:
  assumes "length (f_value f) = nbits (f_type f)" "length (f_mask f) = nbits (f_type f)"
    and "ty_maskable (f_type f) \<or> bits_all (f_mask f) \<or> bits_none (f_mask f)"
    and "\<And>i. i < nbits (f_type f) \<Longrightarrow> f_value f ! i \<Longrightarrow> f_mask f ! i"
  shows "wf_field f"
  using assms by (auto simp: wf_field_def wf_mask_def wf_value_def bits_simps intro!: list_eqI2)

lemma wf_mask_of [wf_intros]: "wf_field f \<Longrightarrow> wf_mask (mask_of f)"
  by (simp add: wf_field_def)

lemma wf_wildcard_field [wf_intros]: "wf_field (wildcard_field t)"
  by (rule wf_fieldI) (simp_all add: wildcard_field_def bits_simps)

lemma wf_exact_mask [wf_intros]: "wf_mask (exact_mask t)"
  by (simp add: wf_mask_def exact_mask_def)

lemma wildcard_wildcard_field [simp]: "wildcard (wildcard_field t)"
  by (simp add: wildcard_def wildcard_field_def)

lemma wildcard_field_type [simp]: "f_type (wildcard_field t) = t"
  by (simp add: wildcard_field_def)

section \<open>The operators on operands of one type\<close>

text \<open>
  On well-formed operands of one type no check fires. The closed forms below are what the
  operators then return; the containers use them where the operands have one type by
  construction.
\<close>

definition and_mask :: "oxm_field \<Rightarrow> oxm_mask \<Rightarrow> oxm_field" where
  "and_mask f m = \<lparr>f_type = f_type f,
     f_value = bits_and (f_value f) (bits_and (f_mask f) (m_mask m)),
     f_mask = bits_and (f_mask f) (m_mask m)\<rparr>"

definition and_not_mask :: "oxm_field \<Rightarrow> oxm_mask \<Rightarrow> oxm_field" where
  "and_not_mask f m = and_mask f (m\<lparr>m_mask := bits_not (m_mask m)\<rparr>)"

definition matches :: "oxm_field \<Rightarrow> oxm_field \<Rightarrow> bool" where
  "matches a b = (let m = bits_and (f_mask a) (f_mask b) in
     bits_and (f_value a) m = bits_and (f_value b) m)"

definition rewrite :: "oxm_field \<Rightarrow> oxm_field \<Rightarrow> oxm_field" where
  "rewrite a b = (let m = bits_or (f_mask a) (f_mask b) in
     \<lparr>f_type = f_type a,
      f_value = bits_and (bits_or (bits_and (f_value a) (bits_not (f_mask b))) (f_value b)) m,
      f_mask = m\<rparr>)"

lemma closed_form_types [simp]:
  "f_type (and_mask f m) = f_type f"
  "f_type (and_not_mask f m) = f_type f"
  "f_type (rewrite a b) = f_type a"
  by (simp_all add: and_mask_def and_not_mask_def rewrite_def Let_def)

lemma closed_form_length [simp]:
  "length (f_mask (and_mask f m)) = min (length (f_mask f)) (length (m_mask m))"
  "length (f_mask (rewrite a b)) = min (length (f_mask a)) (length (f_mask b))"
  by (simp_all add: and_mask_def rewrite_def Let_def)

lemma and_mask_nth [bits_simps]:
  assumes "wf_field f" "wf_mask m" "f_type f = m_type m" "i < nbits (f_type f)"
  shows "f_mask (and_mask f m) ! i = (f_mask f ! i \<and> m_mask m ! i)"
    and "f_value (and_mask f m) ! i = (f_value f ! i \<and> m_mask m ! i)"
  using assms wf_field_value_mask [of f i]
  by (auto simp: and_mask_def bits_simps wf_field_length wf_mask_def)

lemma rewrite_nth [bits_simps]:
  assumes "wf_field a" "wf_field b" "f_type a = f_type b" "i < nbits (f_type a)"
  shows "f_mask (rewrite a b) ! i = (f_mask a ! i \<or> f_mask b ! i)"
    and "f_value (rewrite a b) ! i = (if f_mask b ! i then f_value b ! i else f_value a ! i)"
  using assms wf_field_value_mask [of a i] wf_field_value_mask [of b i]
  by (auto simp: rewrite_def Let_def bits_simps wf_field_length)

lemma all_none_closed:
  assumes "bits_all a \<or> bits_none a" "bits_all b \<or> bits_none b" "length a = length b"
  shows "bits_all (bits_and a b) \<or> bits_none (bits_and a b)"
    and "bits_all (bits_or a b) \<or> bits_none (bits_or a b)"
    and "bits_all (bits_not a) \<or> bits_none (bits_not a)"
  using assms by (auto simp: bits_all_iff bits_none_iff bits_simps)

lemma wf_and_mask [wf_intros]:
  assumes "wf_field f" "wf_mask m" "f_type f = m_type m"
  shows "wf_field (and_mask f m)"
proof (rule wf_fieldI)
  show "ty_maskable (f_type (and_mask f m)) \<or> bits_all (f_mask (and_mask f m)) \<or>
      bits_none (f_mask (and_mask f m))"
    using assms all_none_closed(1) [of "f_mask f" "m_mask m"]
    by (auto simp: wf_field_def wf_mask_def and_mask_def)
  show "\<And>i. i < nbits (f_type (and_mask f m)) \<Longrightarrow> f_value (and_mask f m) ! i \<Longrightarrow>
      f_mask (and_mask f m) ! i"
    using assms by (auto simp: bits_simps wf_field_value_mask)
qed (use assms in \<open>simp_all add: and_mask_def wf_field_length wf_mask_def\<close>)

lemma wf_mask_neg [wf_intros]: "wf_mask m \<Longrightarrow> wf_mask (m\<lparr>m_mask := bits_not (m_mask m)\<rparr>)"
  using all_none_closed(3) [of "m_mask m" "m_mask m"] by (auto simp: wf_mask_def)

lemma wf_and_not_mask [wf_intros]:
  "wf_field f \<Longrightarrow> wf_mask m \<Longrightarrow> f_type f = m_type m \<Longrightarrow> wf_field (and_not_mask f m)"
  by (simp add: and_not_mask_def wf_and_mask wf_mask_neg)

lemma wf_rewrite [wf_intros]:
  assumes "wf_field a" "wf_field b" "f_type a = f_type b"
  shows "wf_field (rewrite a b)"
proof (rule wf_fieldI)
  show "ty_maskable (f_type (rewrite a b)) \<or> bits_all (f_mask (rewrite a b)) \<or>
      bits_none (f_mask (rewrite a b))"
    using assms all_none_closed(2) [of "f_mask a" "f_mask b"]
    by (auto simp: wf_field_def wf_mask_def rewrite_def Let_def)
  show "\<And>i. i < nbits (f_type (rewrite a b)) \<Longrightarrow> f_value (rewrite a b) ! i \<Longrightarrow>
      f_mask (rewrite a b) ! i"
    using assms by (auto simp: bits_simps wf_field_value_mask split: if_splits)
qed (use assms in \<open>simp_all add: rewrite_def Let_def wf_field_length\<close>)

lemma check_of_wf:
  assumes "wf_field f"
  shows "check_value (f_type f) (f_value f) = Inr ()" "check_mask (f_type f) (f_mask f) = Inr ()"
  using assms by (auto simp: check_value_def check_mask_def wf_field_def wf_mask_def wf_value_def)

lemma field_ctor_masked:
  assumes "length v = nbits t" "length m = nbits t" "ty_maskable t \<or> bits_all m \<or> bits_none m"
  shows "field_ctor t v m = Inr \<lparr>f_type = t, f_value = bits_and v m, f_mask = m\<rparr>"
  using assms by (auto simp: field_ctor_def check_value_def check_mask_def)

lemma field_and_mask_eq:
  assumes "wf_field f" "wf_mask m" "f_type f = m_type m"
  shows "field_and_mask f m = Inr (and_mask f m)"
  using assms all_none_closed(1) [of "f_mask f" "m_mask m"]
  by (auto simp: field_and_mask_def binop_type_def field_ctor_masked wf_field_def wf_mask_def
      wf_value_def and_mask_def)

lemma mask_not_eq: "wf_mask m \<Longrightarrow> mask_not m = Inr (m\<lparr>m_mask := bits_not (m_mask m)\<rparr>)"
  using all_none_closed(3) [of "m_mask m" "m_mask m"]
  by (auto simp: mask_not_def mask_ctor_def check_mask_def wf_mask_def)

lemma field_match_eq:
  assumes "wf_field a" "wf_field b" "f_type a = f_type b"
  shows "field_match a b = Inr (matches a b)"
  using assms all_none_closed(1) [of "f_mask a" "f_mask b"]
  by (auto simp: field_match_def mask_and_def binop_type_def mask_ctor_def check_mask_def
      value_and_mask_def field_ctor_masked wf_field_def wf_mask_def wf_value_def field_eq_def
      matches_def Let_def)

lemma field_rewrite_eq:
  assumes "wf_field a" "wf_field b" "f_type a = f_type b"
  shows "field_rewrite a b = Inr (rewrite a b)"
  using assms all_none_closed(2) [of "f_mask a" "f_mask b"]
  by (auto simp: field_rewrite_def value_rewrite_def mask_or_def binop_type_def mask_ctor_def
      check_mask_def value_ctor_def check_value_def value_and_mask_def field_ctor_masked
      wf_field_def wf_mask_def wf_value_def rewrite_def Let_def)

text \<open>Matching compares the bits both operands fix.\<close>

lemma matches_iff:
  assumes "wf_field a" "wf_field b" "f_type a = f_type b"
  shows "matches a b \<longleftrightarrow>
    (\<forall>i < nbits (f_type a). f_mask a ! i \<and> f_mask b ! i \<longrightarrow> f_value a ! i = f_value b ! i)"
  using assms by (auto simp: matches_def Let_def list_eq_iff_nth_eq bits_simps wf_field_length)

lemma field_eqI_nth:
  assumes "wf_field a" "wf_field b" "f_type a = f_type b"
    and "\<And>i. i < nbits (f_type a) \<Longrightarrow> f_value a ! i = f_value b ! i"
    and "\<And>i. i < nbits (f_type a) \<Longrightarrow> f_mask a ! i = f_mask b ! i"
  shows "a = b"
proof -
  have "f_value a = f_value b" "f_mask a = f_mask b"
    using assms by (auto intro!: list_eqI2 simp: wf_field_length)
  with assms(3) show ?thesis by simp
qed

section \<open>Exact fields\<close>

lemma exact_mask_eq: "wf_field f \<Longrightarrow> exact f \<Longrightarrow> f_mask f = bits_set (bits_zero (nbits (f_type f)))"
  by (metis bits_all_eq_set bits_length(1) bits_set_def exact_def wf_field_length(2))

lemma wf_exact_eqI: "wf_exact a \<Longrightarrow> wf_exact b \<Longrightarrow> f_type a = f_type b \<Longrightarrow> f_value a = f_value b \<Longrightarrow> a = b"
  by (simp add: wf_exact_def exact_mask_eq)

lemma wf_exact_wf [wf_intros]: "wf_exact f \<Longrightarrow> wf_field f"
  by (simp add: wf_exact_def)

lemma wf_exact_nth: "wf_exact f \<Longrightarrow> i < nbits (f_type f) \<Longrightarrow> f_mask f ! i"
  by (simp add: wf_exact_def exact_def bits_all_iff wf_field_length)

lemma matches_exact:
  assumes "wf_exact a" "wf_exact b" "f_type a = f_type b"
  shows "matches a b \<longleftrightarrow> a = b"
  using assms by (auto simp: matches_iff wf_exact_nth wf_intros intro!: field_eqI_nth)

lemma rewrite_exact:
  assumes "wf_field a" "wf_exact b" "f_type a = f_type b"
  shows "rewrite a b = b"
  using assms by (auto intro!: field_eqI_nth simp: bits_simps wf_intros wf_exact_nth)

lemma rewrite_assoc:
  assumes "wf_field a" "wf_field b" "wf_field c" "f_type a = f_type b" "f_type b = f_type c"
  shows "rewrite (rewrite a b) c = rewrite a (rewrite b c)"
  using assms by (auto intro!: field_eqI_nth simp: bits_simps wf_intros)

lemma rewrite_idem: "wf_field a \<Longrightarrow> rewrite a a = a"
  by (auto intro!: field_eqI_nth simp: bits_simps wf_intros)

lemma rewrite_wildcard:
  assumes "wf_field a" "wf_field b" "f_type a = f_type b" "wildcard b"
  shows "rewrite a b = a"
  using assms by (auto intro!: field_eqI_nth
      simp: bits_simps wf_intros wildcard_def bits_none_iff wf_field_length)

section \<open>Properties\<close>

text \<open>
  Matching two fields of one type throws nothing and compares exactly the bits that both
  fields fix.
\<close>

lemma match_compares_common_bits:
  assumes "wf_field a" "wf_field b" "f_type a = f_type b"
  shows "field_match a b = Inr (\<forall>i < nbits (f_type a).
    f_mask a ! i \<longrightarrow> f_mask b ! i \<longrightarrow> f_value a ! i = f_value b ! i)"
  using assms by (auto simp: field_match_eq matches_iff)

theorem match_compares_common_bits_witness:
  "field_match (wildcard_field ofb_in_port) (wildcard_field ofb_in_port) = Inr True"
  using match_compares_common_bits [OF wf_wildcard_field wf_wildcard_field refl, of ofb_in_port]
  by (simp add: wildcard_field_def bits_zero_def)

text \<open>
  Rewriting a field by another field of its type throws nothing and returns a
  well-formed field that fixes the bits either operand fixes, with the values of the right
  operand where it fixes them and of the left operand elsewhere.
\<close>

lemma rewrite_overrides_bits:
  assumes "wf_field a" "wf_field b" "f_type a = f_type b"
  shows "\<exists>c. field_rewrite a b = Inr c \<and> wf_field c \<and> f_type c = f_type a \<and>
    (\<forall>i < nbits (f_type a). (f_mask c ! i \<longleftrightarrow> f_mask a ! i \<or> f_mask b ! i) \<and>
      f_value c ! i = (if f_mask b ! i then f_value b ! i else f_value a ! i))"
  using assms by (auto simp: field_rewrite_eq wf_rewrite rewrite_nth)

theorem rewrite_overrides_bits_witness:
  "\<exists>c. field_rewrite (wildcard_field ofb_eth_src) (wildcard_field ofb_eth_src) = Inr c \<and> wf_field c"
  using rewrite_overrides_bits [OF wf_wildcard_field wf_wildcard_field refl, of ofb_eth_src] by blast

end
