(* ===== verification/Field_Set.thy ===== *)
theory Field_Set
  imports Oxm_Field
begin

text \<open>
  \<open>oxm::field_set\<close> of \<^verbatim>\<open>src/oxm/field_set.hh\<close>: an unordered set of fields with at most
  one field per type. It is a list here, in the container's iteration order, which the
  properties below do not depend on; \<open>wf_fs\<close> is the class invariant.
\<close>

section \<open>The container\<close>

type_synonym field_set = "oxm_field list"

definition fs_find :: "field_set \<Rightarrow> oxm_type \<Rightarrow> oxm_field option" where
  "fs_find fs t = find (\<lambda>f. type_eq (f_type f) t) fs"

definition fs_load :: "field_set \<Rightarrow> oxm_mask \<Rightarrow> oxm_field" where
  "fs_load fs m = (case fs_find fs (m_type m) of
     None \<Rightarrow> and_mask (wildcard_field (m_type m)) m
   | Some f \<Rightarrow> and_mask f m)"

definition fs_replace :: "field_set \<Rightarrow> oxm_type \<Rightarrow> (oxm_field \<Rightarrow> oxm_field) \<Rightarrow> field_set" where
  "fs_replace fs t g = map (\<lambda>f. if type_eq (f_type f) t then g f else f) fs"

definition fs_modify :: "field_set \<Rightarrow> oxm_field \<Rightarrow> field_set" where
  "fs_modify fs patch =
     (let fs' = (case fs_find fs (f_type patch) of None \<Rightarrow> fs @ [patch] | Some _ \<Rightarrow> fs)
      in fs_replace fs' (f_type patch) (\<lambda>f. rewrite f patch))"

definition fs_erase :: "field_set \<Rightarrow> oxm_mask \<Rightarrow> field_set" where
  "fs_erase fs m = (case fs_find fs (m_type m) of
     None \<Rightarrow> fs
   | Some f \<Rightarrow>
       (if wildcard (and_not_mask f m) then filter (\<lambda>g. \<not> type_eq (f_type g) (m_type m)) fs
        else fs_replace fs (m_type m) (\<lambda>g. and_not_mask g m)))"

definition fs_clear :: "field_set \<Rightarrow> field_set" where
  "fs_clear fs = []"

definition fs_empty :: "field_set \<Rightarrow> bool" where
  "fs_empty fs = (fs = [])"

definition fs_modify_all :: "field_set \<Rightarrow> oxm_field list \<Rightarrow> field_set" where
  "fs_modify_all fs patches = foldl fs_modify fs patches"

definition fs_clone :: "field_set \<Rightarrow> field_set" where
  "fs_clone fs = fs_modify_all [] fs"

text \<open>Construction from an initializer list: a second field of a type is not inserted.\<close>

fun fs_of_list :: "oxm_field list \<Rightarrow> field_set" where
  "fs_of_list fs = foldl (\<lambda>acc f. case fs_find acc (f_type f) of None \<Rightarrow> acc @ [f] | Some _ \<Rightarrow> acc) [] fs"

text \<open>\<open>operator==\<close> of the unordered set: same size and every element found equal.\<close>

definition fs_eq :: "field_set \<Rightarrow> field_set \<Rightarrow> bool" where
  "fs_eq a b = (length a = length b \<and>
     list_all (\<lambda>f. case fs_find b (f_type f) of None \<Rightarrow> False | Some g \<Rightarrow> field_eq f g) a)"

text \<open>\<open>field_set & Packet\<close>: every field of the set tests true on the packet.\<close>

definition fs_match :: "field_set \<Rightarrow> (oxm_field \<Rightarrow> bool) \<Rightarrow> bool" where
  "fs_match fs tst = list_all tst fs"

text \<open>\<open>Packet::test\<close> inherited by the field set.\<close>

definition fs_test :: "field_set \<Rightarrow> oxm_field \<Rightarrow> bool" where
  "fs_test fs need = matches (fs_load fs (mask_of need)) need"

section \<open>The class invariant\<close>

definition distinct_types :: "field_set \<Rightarrow> bool" where
  "distinct_types fs =
     (\<forall>i < length fs. \<forall>j < length fs. type_eq (f_type (fs ! i)) (f_type (fs ! j)) \<longrightarrow> i = j)"

definition wf_fs :: "oxm_type set \<Rightarrow> field_set \<Rightarrow> bool" where
  "wf_fs T fs = (distinct_types fs \<and> (\<forall>f \<in> set fs. wf_field f \<and> f_type f \<in> T))"

lemma distinct_types_Nil [simp]: "distinct_types []"
  by (simp add: distinct_types_def)

lemma distinct_types_Cons:
  "distinct_types (f # fs) \<longleftrightarrow>
     distinct_types fs \<and> (\<forall>g \<in> set fs. \<not> type_eq (f_type f) (f_type g))"
  (is "?l \<longleftrightarrow> ?r")
proof
  assume l: ?l
  show ?r
  proof (intro conjI ballI)
    show "distinct_types fs"
      unfolding distinct_types_def
    proof (intro allI impI)
      fix i j assume "i < length fs" "j < length fs" "type_eq (f_type (fs ! i)) (f_type (fs ! j))"
      then show "i = j"
        using l [unfolded distinct_types_def, rule_format, of "Suc i" "Suc j"] by simp
    qed
    fix g assume "g \<in> set fs"
    then obtain j where "j < length fs" "g = fs ! j" by (auto simp: in_set_conv_nth)
    then show "\<not> type_eq (f_type f) (f_type g)"
      using l [unfolded distinct_types_def, rule_format, of 0 "Suc j"] by auto
  qed
next
  assume ?r
  then show ?l
    unfolding distinct_types_def
    by (auto simp: nth_Cons type_eq_sym split: nat.splits)
qed

lemma distinct_types_append:
  "distinct_types (fs @ gs) \<longleftrightarrow> distinct_types fs \<and> distinct_types gs \<and>
     (\<forall>f \<in> set fs. \<forall>g \<in> set gs. \<not> type_eq (f_type f) (f_type g))"
  by (induction fs) (auto simp: distinct_types_Cons)

lemma distinct_types_filter: "distinct_types fs \<Longrightarrow> distinct_types (filter P fs)"
  by (induction fs) (auto simp: distinct_types_Cons)

lemma distinct_types_map:
  "(\<And>f. f_type (g f) = f_type f) \<Longrightarrow> distinct_types (map g fs) = distinct_types fs"
  by (induction fs) (auto simp: distinct_types_Cons)

lemma wf_fs_Nil [simp, wf_intros]: "wf_fs T []"
  by (simp add: wf_fs_def)

lemma wf_fs_Cons: "wf_fs T (f # fs) \<longleftrightarrow> wf_fs T fs \<and> wf_field f \<and> f_type f \<in> T \<and>
    (\<forall>g \<in> set fs. \<not> type_eq (f_type f) (f_type g))"
  by (auto simp: wf_fs_def distinct_types_Cons)

lemma fs_find_Nil [simp]: "fs_find [] t = None"
  by (simp add: fs_find_def)

lemma fs_find_Cons [simp]:
  "fs_find (f # fs) t = (if type_eq (f_type f) t then Some f else fs_find fs t)"
  by (simp add: fs_find_def)

lemma fs_find_append:
  "fs_find (fs @ gs) t = (case fs_find fs t of Some f \<Rightarrow> Some f | None \<Rightarrow> fs_find gs t)"
  by (induction fs) auto

lemma fs_find_cong: "type_eq t u \<Longrightarrow> fs_find fs t = fs_find fs u"
  by (induction fs) (auto simp: type_eq_def)

lemma fs_find_SomeD: "fs_find fs t = Some f \<Longrightarrow> f \<in> set fs \<and> type_eq (f_type f) t"
  by (auto simp: fs_find_def dest: find_SomeD)

lemma fs_find_NoneD: "fs_find fs t = None \<Longrightarrow> f \<in> set fs \<Longrightarrow> \<not> type_eq (f_type f) t"
  by (auto simp: fs_find_def dest: find_NoneD)

lemma fs_find_in: "distinct_types fs \<Longrightarrow> f \<in> set fs \<Longrightarrow> fs_find fs (f_type f) = Some f"
  by (induction fs) (auto simp: distinct_types_Cons)

lemma fs_find_wf:
  assumes "wf_fs T fs" "fs_find fs t = Some f" "coherent T" "t \<in> T"
  shows "wf_field f" "f_type f = t"
  using assms fs_find_SomeD [OF assms(2)] by (auto simp: wf_fs_def dest: coherentD)

lemma fs_find_replace:
  assumes "\<And>f. f_type (g f) = f_type f"
  shows "fs_find (fs_replace fs t g) u =
    (if type_eq t u then map_option g (fs_find fs u) else fs_find fs u)"
proof (induction fs)
  case Nil
  then show ?case by (simp add: fs_replace_def)
next
  case (Cons f fs)
  then show ?case
    using type_eq_left [of "f_type f" u t] type_eq_sym
    by (auto simp: fs_replace_def assms type_eq_def)
qed

section \<open>What the operations do to the entries\<close>

text \<open>Lookup after \<open>modify\<close> and \<open>erase\<close>, entry by entry.\<close>

lemma fs_find_modify:
  "fs_find (fs_modify fs p) t =
     (if type_eq (f_type p) t
      then Some (rewrite (case fs_find fs t of None \<Rightarrow> p | Some f \<Rightarrow> f) p)
      else fs_find fs t)"
proof (cases "type_eq (f_type p) t")
  case True
  then have "fs_find fs (f_type p) = fs_find fs t" by (rule fs_find_cong)
  with True show ?thesis
    by (cases "fs_find fs t") (simp_all add: fs_modify_def fs_find_replace fs_find_append)
next
  case False
  then show ?thesis
    by (cases "fs_find fs (f_type p)"; cases "fs_find fs t")
      (simp_all add: fs_modify_def fs_find_replace fs_find_append)
qed

lemma fs_find_filter_type:
  "fs_find (filter (\<lambda>g. \<not> type_eq (f_type g) u) fs) t =
     (if type_eq u t then None else fs_find fs t)"
  by (induction fs) (auto simp: type_eq_def)

lemma fs_find_erase:
  "fs_find (fs_erase fs m) t =
     (if type_eq (m_type m) t
      then (case fs_find fs t of None \<Rightarrow> None
            | Some f \<Rightarrow> if wildcard (and_not_mask f m) then None else Some (and_not_mask f m))
      else fs_find fs t)"
  using fs_find_cong [of "m_type m" t fs]
  by (auto simp: fs_erase_def fs_find_replace fs_find_filter_type split: option.splits)

lemma fs_modify_types: "f \<in> set (fs_modify fs p) \<Longrightarrow> f_type f \<in> f_type ` set fs \<union> {f_type p}"
  by (auto simp: fs_modify_def Let_def fs_replace_def split: option.splits if_splits)

lemma wf_fs_modify [wf_intros]:
  assumes fs: "wf_fs T fs" and p: "wf_field p" "f_type p \<in> T" and T: "coherent T"
  shows "wf_fs T (fs_modify fs p)"
proof -
  define fs' where "fs' = (case fs_find fs (f_type p) of None \<Rightarrow> fs @ [p] | Some _ \<Rightarrow> fs)"
  have "wf_fs T fs'"
    using fs p fs_find_NoneD [of fs "f_type p"]
    by (auto simp: fs'_def wf_fs_def distinct_types_append distinct_types_Cons
        split: option.splits)
  then have "wf_fs T (fs_replace fs' (f_type p) (\<lambda>f. rewrite f p))"
    using p T by (auto simp: wf_fs_def fs_replace_def distinct_types_map
        intro!: wf_rewrite dest: coherentD)
  then show ?thesis by (simp add: fs_modify_def fs'_def)
qed

lemma wf_fs_erase [wf_intros]:
  assumes "wf_fs T fs" "wf_mask m" "m_type m \<in> T" "coherent T"
  shows "wf_fs T (fs_erase fs m)"
  using assms
  by (auto simp: fs_erase_def wf_fs_def fs_replace_def distinct_types_map distinct_types_filter
      intro!: wf_and_not_mask dest: coherentD split: option.splits)

lemma fs_modify_all_Nil [simp]: "fs_modify_all fs [] = fs"
  by (simp add: fs_modify_all_def)

lemma fs_modify_all_Cons [simp]: "fs_modify_all fs (p # ps) = fs_modify_all (fs_modify fs p) ps"
  by (simp add: fs_modify_all_def)

lemma wf_fs_modify_all [wf_intros]:
  "wf_fs T fs \<Longrightarrow> \<forall>p \<in> set ps. wf_field p \<and> f_type p \<in> T \<Longrightarrow> coherent T \<Longrightarrow>
    wf_fs T (fs_modify_all fs ps)"
  by (induction ps arbitrary: fs) (auto intro: wf_fs_modify)

lemma wf_fs_load [wf_intros]:
  "wf_fs T fs \<Longrightarrow> wf_mask m \<Longrightarrow> m_type m \<in> T \<Longrightarrow> coherent T \<Longrightarrow> wf_field (fs_load fs m)"
  by (auto simp: fs_load_def intro!: wf_and_mask wf_wildcard_field dest: fs_find_wf
      split: option.splits)

text \<open>Inserting a field of a type the set lacks appends it; erasing it takes it away again.\<close>

lemma fs_modify_fresh:
  assumes "fs_find fs (f_type p) = None" "wf_field p"
  shows "fs_modify fs p = fs @ [p]"
proof -
  have "map (\<lambda>f. if type_eq (f_type f) (f_type p) then rewrite f p else f) fs = fs"
    using fs_find_NoneD [OF assms(1)] by (auto intro: map_idI)
  with assms show ?thesis
    by (simp add: fs_modify_def Let_def fs_replace_def rewrite_idem)
qed

lemma and_not_mask_self: "wf_field p \<Longrightarrow> wildcard (and_not_mask p (mask_of p))"
  by (auto simp: wildcard_def bits_none_iff and_not_mask_def and_mask_def bits_simps)

lemma fs_erase_modify_fresh:
  assumes "fs_find fs (f_type p) = None" "wf_field p"
  shows "fs_erase (fs_modify fs p) (mask_of p) = fs"
proof -
  have "filter (\<lambda>g. \<not> type_eq (f_type g) (f_type p)) fs = fs"
    using fs_find_NoneD [OF assms(1)] by (auto intro: filter_True)
  with assms show ?thesis
    by (simp add: fs_modify_fresh fs_erase_def fs_find_append and_not_mask_self)
qed

lemma fs_modify_exact_find:
  assumes "wf_fs T fs" "coherent T" "wf_exact p" "f_type p \<in> T"
  shows "fs_find (fs_modify fs p) t = (if type_eq (f_type p) t then Some p else fs_find fs t)"
proof (cases "type_eq (f_type p) t")
  case True
  then have find: "fs_find fs t = fs_find fs (f_type p)" by (rule fs_find_cong [symmetric])
  show ?thesis
  proof (cases "fs_find fs (f_type p)")
    case None
    with True find assms show ?thesis by (simp add: fs_find_modify rewrite_idem wf_exact_wf)
  next
    case (Some f)
    then have "wf_field f" "f_type f = f_type p" using assms fs_find_wf by blast+
    with True find Some assms show ?thesis by (simp add: fs_find_modify rewrite_exact)
  qed
qed (simp add: fs_find_modify)

lemma fs_clone_eq:
  assumes "wf_fs T fs" "coherent T"
  shows "fs_clone fs = fs"
proof -
  have "fs_modify_all acc fs = acc @ fs"
    if "wf_fs T (acc @ fs)" for acc
    using that
  proof (induction fs arbitrary: acc)
    case (Cons f fs)
    have "fs_find acc (f_type f) = None"
      using Cons.prems fs_find_SomeD [of acc "f_type f"]
      by (cases "fs_find acc (f_type f)") (auto simp: wf_fs_def distinct_types_append)
    then have "fs_modify acc f = acc @ [f]"
      using Cons.prems by (simp add: fs_modify_fresh wf_fs_def)
    moreover have "fs_modify_all (acc @ [f]) fs = (acc @ [f]) @ fs"
      using Cons.prems by (intro Cons.IH) simp
    ultimately show ?case by simp
  qed simp
  from this [of "[]"] assms show ?thesis by (simp add: fs_clone_def)
qed

section \<open>Reading back what was written\<close>

lemma matches_rewritten:
  assumes "wf_field f" "wf_field p" "f_type f = f_type p"
  shows "matches (and_mask (rewrite f p) (mask_of p)) p"
proof -
  have wf: "wf_field (rewrite f p)" "wf_mask (mask_of p)"
    using assms by (auto intro: wf_rewrite wf_mask_of)
  then have "wf_field (and_mask (rewrite f p) (mask_of p))"
    using assms by (auto intro: wf_and_mask)
  with assms wf show ?thesis
    by (auto simp: matches_iff and_mask_nth rewrite_nth)
qed

lemma load_modify_same:
  assumes "wf_fs T fs" "coherent T" "wf_field p" "f_type p \<in> T"
  shows "fs_test (fs_modify fs p) p"
proof (cases "fs_find fs (f_type p)")
  case None
  with assms show ?thesis
    by (simp add: fs_test_def fs_load_def fs_find_modify matches_rewritten)
next
  case (Some f)
  then have "wf_field f" "f_type f = f_type p" using assms fs_find_wf by blast+
  with Some assms show ?thesis
    by (simp add: fs_test_def fs_load_def fs_find_modify matches_rewritten)
qed

section \<open>Properties\<close>

text \<open>
  \<open>field_set::modify\<close> keeps the class invariant (one well-formed field per type), a
  following \<open>test\<close> of the written field succeeds, and the entries of all other types are
  untouched.
\<close>

lemma modify_reads_back:
  assumes "coherent T" "wf_fs T fs" "wf_field p" "f_type p \<in> T"
  shows "wf_fs T (fs_modify fs p) \<and> fs_test (fs_modify fs p) p \<and>
    (\<forall>t. \<not> type_eq (f_type p) t \<longrightarrow> fs_find (fs_modify fs p) t = fs_find fs t)"
  using assms by (simp add: wf_fs_modify load_modify_same fs_find_modify)

theorem modify_reads_back_witness:
  "fs_test (fs_modify [] (wildcard_field ofb_in_port)) (wildcard_field ofb_in_port)"
  using modify_reads_back [OF coherent_known wf_fs_Nil wf_wildcard_field, of ofb_in_port]
  by (simp add: known_types_def)

text \<open>
  Erasing a mask removes exactly its bits from the entry of the type, drops the entry when
  nothing is left of it, leaves the other types alone and keeps the class invariant.
\<close>

lemma erase_removes_bits:
  assumes "coherent T" "wf_fs T fs" "wf_mask m" "m_type m \<in> T"
  shows "wf_fs T (fs_erase fs m) \<and>
    (\<forall>t. fs_find (fs_erase fs m) t =
      (if type_eq (m_type m) t
       then (case fs_find fs t of None \<Rightarrow> None
             | Some f \<Rightarrow> if wildcard (and_not_mask f m) then None else Some (and_not_mask f m))
       else fs_find fs t))"
  using assms by (simp add: wf_fs_erase fs_find_erase)

theorem erase_removes_bits_witness:
  "fs_find (fs_erase [wildcard_field ofb_in_port] (exact_mask ofb_in_port)) ofb_in_port = None"
proof -
  have "wf_fs (set known_types) [wildcard_field ofb_in_port]" "m_type (exact_mask ofb_in_port) \<in> set known_types"
    by (simp_all add: wf_fs_Cons wf_wildcard_field known_types_def exact_mask_def)
  from erase_removes_bits [OF coherent_known this(1) wf_exact_mask this(2)]
  have "fs_find (fs_erase [wildcard_field ofb_in_port] (exact_mask ofb_in_port)) ofb_in_port =
      (if wildcard (and_not_mask (wildcard_field ofb_in_port) (exact_mask ofb_in_port)) then None
       else Some (and_not_mask (wildcard_field ofb_in_port) (exact_mask ofb_in_port)))"
    by (simp add: exact_mask_def)
  moreover have "wildcard (and_not_mask (wildcard_field ofb_in_port) (exact_mask ofb_in_port))"
    by code_simp
  ultimately show ?thesis by simp
qed

end
