(* ===== verification/Multi_Field_Set.thy ===== *)
theory Multi_Field_Set
  imports Field_Set
begin

text \<open>
  \<open>multi_field_set\<close> and \<open>full_field_set\<close> of \<^verbatim>\<open>src/oxm/field_set.hh\<close>: sets that may
  hold several fields of one type. The source asks for a correctness proof of these
  containers; the lemmas show that \<open>add\<close> keeps an antichain of fields that covers exactly
  what was added, and that \<open>fields\<close> expands the container into the field sets whose union
  is the conjunction over the types of the disjunction over the fields of the type.
\<close>

section \<open>The containers\<close>

text \<open>The left field is included in the right one.\<close>

definition field_lt :: "oxm_field \<Rightarrow> oxm_field \<Rightarrow> bool" where
  "field_lt a b = (bits_and (f_mask a) (f_mask b) = f_mask b \<and> matches a b)"

record multi_field_set =
  elements :: "oxm_field list"
  used_types :: "oxm_type list"

definition mfs_empty :: multi_field_set where
  "mfs_empty = \<lparr>elements = [], used_types = []\<rparr>"

text \<open>
  The loop of \<open>add\<close> over \<open>equal_range(t)\<close>: it returns early when an element covers the new
  field, and erases the elements the new field covers on the way.
\<close>

fun add_scan :: "oxm_field \<Rightarrow> oxm_field list \<Rightarrow> bool \<times> oxm_field list" where
  "add_scan f [] = (False, [])"
| "add_scan f (e # es) =
     (if \<not> type_eq (f_type e) (f_type f) then map_prod id ((#) e) (add_scan f es)
      else if field_lt f e then (True, e # es)
      else if field_lt e f then add_scan f es
      else map_prod id ((#) e) (add_scan f es))"

definition type_insert :: "oxm_type \<Rightarrow> oxm_type list \<Rightarrow> oxm_type list" where
  "type_insert t ts = (if list_ex (type_eq t) ts then ts else ts @ [t])"

definition mfs_add :: "multi_field_set \<Rightarrow> oxm_field \<Rightarrow> multi_field_set" where
  "mfs_add ms f = (case add_scan f (elements ms) of
     (True, es) \<Rightarrow> ms\<lparr>elements := es\<rparr>
   | (False, es) \<Rightarrow> \<lparr>elements = es @ [f], used_types = type_insert (f_type f) (used_types ms)\<rparr>)"

definition mfs_of_list :: "oxm_field list \<Rightarrow> multi_field_set" where
  "mfs_of_list fs = foldl mfs_add mfs_empty fs"

fun erase_scan :: "oxm_mask \<Rightarrow> oxm_field list \<Rightarrow> oxm_field list" where
  "erase_scan m [] = []"
| "erase_scan m (e # es) =
     (if \<not> type_eq (f_type e) (m_type m) then e # erase_scan m es
      else let e' = and_not_mask e m in
        if wildcard e' then erase_scan m es else e' # erase_scan m es)"

definition mfs_erase :: "multi_field_set \<Rightarrow> oxm_mask \<Rightarrow> multi_field_set" where
  "mfs_erase ms m = ms\<lparr>elements := erase_scan m (elements ms)\<rparr>"

definition equal_range :: "oxm_field list \<Rightarrow> oxm_type \<Rightarrow> oxm_field list" where
  "equal_range es t = filter (\<lambda>e. type_eq (f_type e) t) es"

text \<open>
  The recursion of \<open>fields\<close>. Every level owns a copy \<open>fs\<close> of the field set, patches it
  before the recursive call and erases the patch after it.
\<close>

function expand :: "oxm_field list \<Rightarrow> oxm_type list \<Rightarrow> field_set \<Rightarrow> field_set list"
  and expand_range ::
    "oxm_field list \<Rightarrow> oxm_type list \<Rightarrow> oxm_field list \<Rightarrow> field_set \<Rightarrow> field_set list"
where
  "expand es [] fs = [fs]"
| "expand es (t # ts) fs =
     (if equal_range es t = [] then expand es ts fs
      else expand_range es ts (equal_range es t) fs)"
| "expand_range es ts [] fs = []"
| "expand_range es ts (x # xs) fs =
     (let fs' = fs_modify fs x in
      expand es ts fs' @ expand_range es ts xs (fs_erase fs' (mask_of x)))"
  by pat_completeness auto
termination
  by (relation "measures [case_sum (\<lambda>(es, ts, fs). 2 * length ts) (\<lambda>(es, ts, xs, fs). 2 * length ts + 1),
      case_sum (\<lambda>_. 0) (\<lambda>(es, ts, xs, fs). length xs)]") auto

definition mfs_fields :: "multi_field_set \<Rightarrow> field_set list" where
  "mfs_fields ms = expand (elements ms) (used_types ms) []"

record full_field_set =
  included :: multi_field_set
  excluded :: multi_field_set

definition ffs_make :: "oxm_field list \<Rightarrow> oxm_field list \<Rightarrow> full_field_set" where
  "ffs_make i e = \<lparr>included = mfs_of_list i, excluded = mfs_of_list e\<rparr>"

definition ffs_add :: "full_field_set \<Rightarrow> oxm_field \<Rightarrow> full_field_set" where
  "ffs_add s f = s\<lparr>included := mfs_add (included s) f\<rparr>"

definition ffs_erase :: "full_field_set \<Rightarrow> oxm_mask \<Rightarrow> full_field_set" where
  "ffs_erase s m = s\<lparr>included := mfs_erase (included s) m\<rparr>"

definition ffs_exclude :: "full_field_set \<Rightarrow> oxm_field \<Rightarrow> full_field_set" where
  "ffs_exclude s f = s\<lparr>excluded := mfs_add (excluded s) f\<rparr>"

definition ffs_include :: "full_field_set \<Rightarrow> oxm_mask \<Rightarrow> full_field_set" where
  "ffs_include s m = s\<lparr>excluded := mfs_erase (excluded s) m\<rparr>"

section \<open>Inclusion of fields\<close>

lemma field_lt_matches:
  assumes "wf_field a" "wf_field b" "wf_field v" "f_type a = f_type b" "f_type b = f_type v"
    and "field_lt a b" "matches a v"
  shows "matches b v"
proof -
  have "f_mask a ! i \<and> f_mask b ! i \<longleftrightarrow> f_mask b ! i" if "i < nbits (f_type a)" for i
    using assms that wf_field_length [of a] wf_field_length [of b]
    by (metis bits_nth(3) field_lt_def)
  then show ?thesis
    using assms by (auto simp: field_lt_def matches_iff)
qed

lemma field_lt_refl: "wf_field a \<Longrightarrow> field_lt a a"
  by (auto simp: field_lt_def matches_def bits_simps wf_field_length intro!: list_eqI2)

section \<open>The invariant and what \<open>add\<close> covers\<close>

definition antichain :: "oxm_field list \<Rightarrow> bool" where
  "antichain es = (\<forall>i < length es. \<forall>j < length es. i \<noteq> j \<longrightarrow>
     type_eq (f_type (es ! i)) (f_type (es ! j)) \<longrightarrow> \<not> field_lt (es ! i) (es ! j))"

definition incomparable :: "oxm_field \<Rightarrow> oxm_field \<Rightarrow> bool" where
  "incomparable a b =
     (type_eq (f_type a) (f_type b) \<longrightarrow> \<not> field_lt a b \<and> \<not> field_lt b a)"

lemma antichain_Nil [simp]: "antichain []"
  by (simp add: antichain_def)

lemma antichain_Cons:
  "antichain (e # es) \<longleftrightarrow> antichain es \<and> (\<forall>g \<in> set es. incomparable e g)" (is "?l \<longleftrightarrow> ?r")
proof
  assume l: ?l
  show ?r
  proof (intro conjI ballI)
    show "antichain es"
      unfolding antichain_def
      using l [unfolded antichain_def, rule_format, of "Suc i" "Suc j" for i j] by auto
    fix g assume "g \<in> set es"
    then obtain j where "j < length es" "g = es ! j" by (auto simp: in_set_conv_nth)
    then show "incomparable e g"
      using l [unfolded antichain_def, rule_format, of 0 "Suc j"]
        l [unfolded antichain_def, rule_format, of "Suc j" 0]
      by (auto simp: incomparable_def type_eq_sym)
  qed
next
  assume ?r
  then show ?l
    unfolding antichain_def incomparable_def
    by (auto simp: nth_Cons type_eq_sym split: nat.splits)
qed

lemma antichain_snoc:
  "antichain (es @ [f]) \<longleftrightarrow> antichain es \<and> (\<forall>g \<in> set es. incomparable g f)"
  by (induction es) (auto simp: antichain_Cons)

text \<open>What the scan keeps: a subsequence of the elements, and when it did not return early,
  only elements incomparable with the new field.\<close>

lemma add_scan_subset: "set (snd (add_scan f es)) \<subseteq> set es"
  by (induction es) auto

lemma add_scan_antichain: "antichain es \<Longrightarrow> antichain (snd (add_scan f es))"
  using add_scan_subset by (induction es) (auto simp: antichain_Cons)

lemma add_scan_incomparable:
  "\<not> fst (add_scan f es) \<Longrightarrow> g \<in> set (snd (add_scan f es)) \<Longrightarrow> incomparable g f"
  by (induction es) (auto simp: incomparable_def split: if_splits)

definition covers :: "oxm_field list \<Rightarrow> oxm_field \<Rightarrow> bool" where
  "covers es v = (\<exists>e \<in> set es. type_eq (f_type e) (f_type v) \<and> matches e v)"

lemma covers_simps [simp]:
  "\<not> covers [] v"
  "covers (e # es) v \<longleftrightarrow> type_eq (f_type e) (f_type v) \<and> matches e v \<or> covers es v"
  "covers (es @ es') v \<longleftrightarrow> covers es v \<or> covers es' v"
  by (auto simp: covers_def)

definition wf_mfs :: "oxm_type set \<Rightarrow> multi_field_set \<Rightarrow> bool" where
  "wf_mfs T ms = ((\<forall>e \<in> set (elements ms). wf_field e \<and> f_type e \<in> T \<and> f_type e \<in> set (used_types ms)) \<and>
     set (used_types ms) \<subseteq> T \<and> distinct (used_types ms))"

lemma field_lt_covered:
  assumes "coherent T" "wf_field a" "wf_field b" "f_type a \<in> T" "f_type b \<in> T"
    and "wf_field v" "f_type v \<in> T"
    and "type_eq (f_type a) (f_type b)" "field_lt a b" "covers [a] v"
  shows "covers [b] v"
proof -
  have ab: "f_type a = f_type b" by (rule coherentD [OF assms(1,4,5,8)])
  have "type_eq (f_type a) (f_type v)" "matches a v" using assms(10) by simp_all
  then have av: "f_type a = f_type v" by (intro coherentD [OF assms(1,4,7)])
  have "matches b v"
    by (rule field_lt_matches [of a b v]) (use assms ab av \<open>matches a v\<close> in simp_all)
  then show ?thesis using ab av by simp
qed

lemma add_scan_covers:
  assumes "coherent T" "\<forall>e \<in> set es. wf_field e \<and> f_type e \<in> T"
    and f: "wf_field f" "f_type f \<in> T" and v: "wf_field v" "f_type v \<in> T"
  shows "covers (snd (add_scan f es)) v \<or> covers [f] v \<longleftrightarrow> covers es v \<or> covers [f] v" (is ?cov)
    and "fst (add_scan f es) \<Longrightarrow> covers [f] v \<Longrightarrow> covers (snd (add_scan f es)) v"
proof -
  have "?cov \<and> (fst (add_scan f es) \<longrightarrow> covers [f] v \<longrightarrow> covers (snd (add_scan f es)) v)"
    using assms(2)
  proof (induction es)
    case (Cons e es)
    define E F where "E \<longleftrightarrow> covers [e] v" and "F \<longleftrightarrow> covers [f] v"
    have fe: "F \<Longrightarrow> field_lt f e \<Longrightarrow> type_eq (f_type e) (f_type f) \<Longrightarrow> E"
      using Cons.prems type_eq_sym field_lt_covered [OF assms(1) f(1) _ f(2) _ v, of e]
      unfolding E_def F_def by (metis list.set_intros(1))
    have ef: "E \<Longrightarrow> field_lt e f \<Longrightarrow> type_eq (f_type e) (f_type f) \<Longrightarrow> F"
      unfolding E_def F_def
      by (rule field_lt_covered [OF assms(1) _ f(1) _ f(2) v]) (use Cons.prems in simp_all)
    have eqs: "covers [f] v = F" "\<And>xs. covers (e # xs) v \<longleftrightarrow> E \<or> covers xs v"
      by (simp_all add: E_def F_def)
    have IH: "(covers (snd (add_scan f es)) v \<or> F \<longleftrightarrow> covers es v \<or> F) \<and>
        (fst (add_scan f es) \<longrightarrow> F \<longrightarrow> covers (snd (add_scan f es)) v)"
      using Cons unfolding F_def by simp
    show ?case
      using IH fe ef
      by (cases "type_eq (f_type e) (f_type f)"; cases "field_lt f e"; cases "field_lt e f")
        (simp_all add: eqs del: covers_simps, blast+)
  qed simp
  then show ?cov "fst (add_scan f es) \<Longrightarrow> covers [f] v \<Longrightarrow> covers (snd (add_scan f es)) v"
    by blast+
qed

lemma mfs_add_covers:
  assumes "coherent T" "wf_mfs T ms" "wf_field f" "f_type f \<in> T" "wf_field v" "f_type v \<in> T"
  shows "covers (elements (mfs_add ms f)) v \<longleftrightarrow> covers (elements ms) v \<or> covers [f] v"
proof -
  have es: "\<forall>e \<in> set (elements ms). wf_field e \<and> f_type e \<in> T"
    using assms by (simp add: wf_mfs_def)
  obtain r es' where sc: "add_scan f (elements ms) = (r, es')" by fastforce
  with add_scan_covers [OF assms(1) es assms(3-6)] show ?thesis
    by (cases r) (auto simp: mfs_add_def)
qed

lemma mfs_add_antichain:
  assumes "antichain (elements ms)"
  shows "antichain (elements (mfs_add ms f))"
proof -
  obtain r es' where sc: "add_scan f (elements ms) = (r, es')" by fastforce
  with assms add_scan_antichain [of "elements ms" f] add_scan_incomparable [of f "elements ms"]
  show ?thesis by (cases r) (auto simp: mfs_add_def antichain_snoc)
qed

lemma wf_mfs_add:
  assumes "coherent T" "wf_mfs T ms" "wf_field f" "f_type f \<in> T"
  shows "wf_mfs T (mfs_add ms f)"
proof -
  obtain r es' where sc: "add_scan f (elements ms) = (r, es')" by fastforce
  have sub: "set es' \<subseteq> set (elements ms)" using add_scan_subset [of f "elements ms"] sc by simp
  have "list_ex (type_eq (f_type f)) (used_types ms) \<longleftrightarrow> f_type f \<in> set (used_types ms)"
    using assms coherentD [OF assms(1), of "f_type f"] type_eq_refl
    unfolding list_ex_iff wf_mfs_def by blast
  with assms sc sub show ?thesis
    by (cases r) (auto simp: mfs_add_def wf_mfs_def type_insert_def)
qed

lemma mfs_of_list_inv:
  assumes "coherent T" "\<forall>f \<in> set fs. wf_field f \<and> f_type f \<in> T"
  shows "wf_mfs T (mfs_of_list fs)" "antichain (elements (mfs_of_list fs))"
    "wf_field v \<Longrightarrow> f_type v \<in> T \<Longrightarrow> covers (elements (mfs_of_list fs)) v \<longleftrightarrow> covers fs v"
proof -
  have "wf_mfs T (foldl mfs_add ms fs) \<and> antichain (elements (foldl mfs_add ms fs)) \<and>
      (wf_field v \<and> f_type v \<in> T \<longrightarrow>
        (covers (elements (foldl mfs_add ms fs)) v \<longleftrightarrow> covers (elements ms) v \<or> covers fs v))"
    if "wf_mfs T ms" "antichain (elements ms)" for ms
    using that assms(2)
  proof (induction fs arbitrary: ms)
    case (Cons f fs)
    from Cons.prems assms(1) show ?case
      using Cons.IH [of "mfs_add ms f"] mfs_add_covers [of T ms f v]
      by (auto simp: wf_mfs_add mfs_add_antichain)
  qed simp
  from this [of mfs_empty] show "wf_mfs T (mfs_of_list fs)" "antichain (elements (mfs_of_list fs))"
    "wf_field v \<Longrightarrow> f_type v \<in> T \<Longrightarrow> covers (elements (mfs_of_list fs)) v \<longleftrightarrow> covers fs v"
    by (auto simp: mfs_of_list_def mfs_empty_def wf_mfs_def)
qed

section \<open>The expansion\<close>

definition fresh :: "field_set \<Rightarrow> oxm_type \<Rightarrow> bool" where
  "fresh fs t = (fs_find fs t = None)"

lemma fresh_snoc: "fresh fs t \<Longrightarrow> \<not> type_eq (f_type x) t \<Longrightarrow> fresh (fs @ [x]) t"
  by (simp add: fresh_def fs_find_append)

lemma equal_range_type:
  assumes "coherent T" "\<forall>e \<in> set es. wf_field e \<and> f_type e \<in> T" "t \<in> T" "x \<in> set (equal_range es t)"
  shows "wf_field x" "f_type x = t"
proof -
  have x: "x \<in> set es" "type_eq (f_type x) t" using assms(4) by (auto simp: equal_range_def)
  then show "wf_field x" using assms(2) by blast
  show "f_type x = t" using x assms by (intro coherentD [OF assms(1)]) auto
qed

lemma expand_match:
  assumes T: "coherent T" "\<forall>e \<in> set es. wf_field e \<and> f_type e \<in> T"
  shows "distinct ts \<Longrightarrow> set ts \<subseteq> T \<Longrightarrow> \<forall>t \<in> set ts. fresh fs t \<Longrightarrow>
      (\<exists>s \<in> set (expand es ts fs). fs_match s tst) \<longleftrightarrow>
        fs_match fs tst \<and>
        (\<forall>t \<in> set ts. equal_range es t = [] \<or> (\<exists>e \<in> set (equal_range es t). tst e))"
    and "distinct ts \<Longrightarrow> set ts \<subseteq> T \<Longrightarrow> \<forall>t \<in> set ts. fresh fs t \<Longrightarrow>
      \<forall>x \<in> set xs. wf_field x \<and> fresh fs (f_type x) \<and> f_type x \<in> T - set ts \<Longrightarrow>
      (\<exists>s \<in> set (expand_range es ts xs fs). fs_match s tst) \<longleftrightarrow>
        fs_match fs tst \<and> (\<exists>e \<in> set xs. tst e) \<and>
        (\<forall>t \<in> set ts. equal_range es t = [] \<or> (\<exists>e \<in> set (equal_range es t). tst e))"
  using assms(2)
proof (induction es ts fs and es ts xs fs rule: expand_expand_range.induct)
  case (1 es fs)
  then show ?case by simp
next
  case (2 es t ts fs)
  show ?case
  proof (cases "equal_range es t = []")
    case True
    with 2 show ?thesis by simp
  next
    case False
    have "\<forall>x \<in> set (equal_range es t). wf_field x \<and> fresh fs (f_type x) \<and> f_type x \<in> T - set ts"
      using equal_range_type [OF T(1) 2(6), of t] 2(3-5) by auto
    with False 2 show ?thesis by auto
  qed
next
  case (3 es ts fs)
  then show ?case by simp
next
  case (4 es ts x xs fs)
  have x: "wf_field x" "fs_find fs (f_type x) = None" "f_type x \<in> T" "f_type x \<notin> set ts"
    using 4(6) by (auto simp: fresh_def)
  have mod: "fs_modify fs x = fs @ [x]" "fs_erase (fs @ [x]) (mask_of x) = fs"
    using x fs_modify_fresh fs_erase_modify_fresh by metis+
  have "\<not> type_eq (f_type x) t" if "t \<in> set ts" for t
    using coherentD [OF T(1) x(3), of t] that x(4) 4(4) by auto
  then have fr: "\<forall>t \<in> set ts. fresh (fs @ [x]) t"
    using 4(5) by (simp add: fresh_snoc)
  have one: "(\<exists>s \<in> set (expand es ts (fs @ [x])). fs_match s tst) \<longleftrightarrow>
      fs_match (fs @ [x]) tst \<and>
      (\<forall>t \<in> set ts. equal_range es t = [] \<or> (\<exists>e \<in> set (equal_range es t). tst e))"
    using 4(1) [OF refl] mod(1) 4(3,4,7) fr by simp
  have two: "(\<exists>s \<in> set (expand_range es ts xs fs). fs_match s tst) \<longleftrightarrow>
      fs_match fs tst \<and> (\<exists>e \<in> set xs. tst e) \<and>
      (\<forall>t \<in> set ts. equal_range es t = [] \<or> (\<exists>e \<in> set (equal_range es t). tst e))"
    using 4(2) [OF refl] mod 4(3-7) by simp
  have split: "(\<exists>s \<in> set (expand_range es ts (x # xs) fs). P s) \<longleftrightarrow>
      (\<exists>s \<in> set (expand es ts (fs @ [x])). P s) \<or> (\<exists>s \<in> set (expand_range es ts xs fs). P s)" for P
    by (auto simp: mod Let_def)
  show ?case unfolding split one two by (auto simp: fs_match_def)
qed

lemma mfs_fields_match:
  assumes "coherent T" "wf_mfs T ms"
  shows "(\<exists>s \<in> set (mfs_fields ms). fs_match s tst) \<longleftrightarrow>
    (\<forall>t \<in> set (used_types ms). equal_range (elements ms) t = [] \<or>
       (\<exists>e \<in> set (equal_range (elements ms) t). tst e))"
proof -
  have "\<forall>e \<in> set (elements ms). wf_field e \<and> f_type e \<in> T" using assms by (simp add: wf_mfs_def)
  from expand_match(1) [OF assms(1) this, of "used_types ms" "[]" tst] assms(2) show ?thesis
    by (simp add: mfs_fields_def wf_mfs_def fresh_def fs_match_def)
qed

section \<open>Properties\<close>

text \<open>
  C33: \<open>multi_field_set::add\<close> keeps the elements of each type an antichain under inclusion
  and covers exactly what was covered before together with the new field: redundant fields are
  dropped without losing or inventing a match.
\<close>

theorem add_covers_exactly:
  assumes "coherent T" "wf_mfs T ms" "antichain (elements ms)" "wf_field f" "f_type f \<in> T"
  shows "wf_mfs T (mfs_add ms f) \<and> antichain (elements (mfs_add ms f)) \<and>
    (\<forall>v. wf_field v \<longrightarrow> f_type v \<in> T \<longrightarrow>
      covers (elements (mfs_add ms f)) v = (covers (elements ms) v \<or> covers [f] v))"
  using assms by (simp add: wf_mfs_add mfs_add_antichain mfs_add_covers del: covers_simps)

theorem add_covers_exactly_witness:
  "antichain (elements (mfs_add mfs_empty (wildcard_field ofb_eth_src)))"
  using add_covers_exactly [OF coherent_known, of mfs_empty "wildcard_field ofb_eth_src"]
  by (simp add: mfs_empty_def wf_mfs_def wf_wildcard_field known_types_def)

text \<open>
  C34: \<open>multi_field_set::fields\<close> expands the container into field sets one of which matches a
  packet exactly when, for every type that still has elements, some element of the type matches.
\<close>

theorem fields_is_conjunction_of_alternatives:
  assumes "coherent T" "wf_mfs T ms"
  shows "(\<exists>s \<in> set (mfs_fields ms). fs_match s tst) \<longleftrightarrow>
    (\<forall>t \<in> set (used_types ms). equal_range (elements ms) t = [] \<or>
       (\<exists>e \<in> set (equal_range (elements ms) t). tst e))"
  by (rule mfs_fields_match [OF assms])

theorem fields_is_conjunction_of_alternatives_witness:
  "(\<exists>s \<in> set (mfs_fields (mfs_add mfs_empty (wildcard_field ofb_eth_src))). fs_match s (\<lambda>_. True))"
  using fields_is_conjunction_of_alternatives
    [OF coherent_known, of "mfs_add mfs_empty (wildcard_field ofb_eth_src)" "\<lambda>_. True"]
  by (auto simp: mfs_add_def mfs_empty_def wf_mfs_def wf_wildcard_field known_types_def
      type_insert_def equal_range_def)

end
