(* ===== verification/Packet.thy ===== *)
theory Packet
  imports Field_Set
begin

text \<open>
  The \<open>Packet\<close> interface of \<^verbatim>\<open>src/api/Packet.hh\<close>. Its virtual functions are the
  parameters \<open>load\<close> and \<open>modify\<close>; the inherited \<open>test\<close>, the typed helpers and the
  forwarding \<open>PacketProxy\<close> are definitions over them. The locale \<open>packet_ops\<close> states what
  clients rely on, and field sets that fix every header are an implementation of it.
\<close>

section \<open>The interface\<close>

record 'p packet_vtable =
  load_fn :: "'p \<Rightarrow> oxm_mask \<Rightarrow> oxm_field res"
  test_fn :: "'p \<Rightarrow> oxm_field \<Rightarrow> bool res"
  modify_fn :: "'p \<Rightarrow> oxm_field \<Rightarrow> 'p res"

text \<open>\<open>Packet::test\<close>, which a class inherits unless it overrides it.\<close>

definition packet_test :: "('p \<Rightarrow> oxm_mask \<Rightarrow> oxm_field res) \<Rightarrow> 'p \<Rightarrow> oxm_field \<Rightarrow> bool res" where
  "packet_test ld p need = rbind (ld p (mask_of need)) (\<lambda>f. field_match f need)"

text \<open>The helper \<open>load(Type)\<close>: the field is loaded exactly and converted to a value.\<close>

definition load_exact :: "'p packet_vtable \<Rightarrow> 'p \<Rightarrow> oxm_type \<Rightarrow> oxm_value res" where
  "load_exact v p t = rbind (load_fn v p (exact_mask t)) (\<lambda>f.
     if \<not> exact f then Inl Assertion_failure
     else if \<not> type_eq (f_type f) t then Inl Bad_cast
     else value_ctor t (f_value f))"

text \<open>\<open>PacketProxy\<close> forwards every call to the wrapped packet.\<close>

definition packet_proxy :: "'p packet_vtable \<Rightarrow> 'p packet_vtable" where
  "packet_proxy v = \<lparr>load_fn = \<lambda>p m. load_fn v p m, test_fn = \<lambda>p f. test_fn v p f,
     modify_fn = \<lambda>p f. modify_fn v p f\<rparr>"

text \<open>The field set as a packet.\<close>

definition fs_packet :: "field_set packet_vtable" where
  "fs_packet = \<lparr>load_fn = \<lambda>fs m. Inr (fs_load fs m),
     test_fn = packet_test (\<lambda>fs m. Inr (fs_load fs m)),
     modify_fn = \<lambda>fs f. Inr (fs_modify fs f)\<rparr>"

section \<open>What clients rely on\<close>

definition in_types :: "oxm_type set \<Rightarrow> oxm_field \<Rightarrow> bool" where
  "in_types T f = (wf_exact f \<and> f_type f \<in> T)"

lemma in_typesD: "in_types T f \<Longrightarrow> wf_exact f" "in_types T f \<Longrightarrow> f_type f \<in> T"
  by (simp_all add: in_types_def)

text \<open>Applying a set of rewrites to a packet, in iteration order.\<close>

definition apply_mods :: "('p \<Rightarrow> oxm_field \<Rightarrow> 'p) \<Rightarrow> 'p \<Rightarrow> field_set \<Rightarrow> 'p" where
  "apply_mods md p fs = foldl md p fs"

lemma apply_mods_simps [simp]:
  "apply_mods md p [] = p"
  "apply_mods md p (f # fs) = apply_mods md (md p f) fs"
  "apply_mods md p (fs @ gs) = apply_mods md (apply_mods md p fs) gs"
  by (simp_all add: apply_mods_def)

definition exact_fs :: "oxm_type set \<Rightarrow> field_set \<Rightarrow> bool" where
  "exact_fs T fs = (distinct_types fs \<and> list_all (in_types T) fs)"

lemma exact_fs_wf: "exact_fs T fs \<Longrightarrow> wf_fs T fs"
  by (auto simp: exact_fs_def wf_fs_def in_types_def wf_exact_def list_all_iff)

lemma exact_fs_Nil [simp]: "exact_fs T []"
  by (simp add: exact_fs_def)

lemma exact_fs_single [simp]: "in_types T f \<Longrightarrow> exact_fs T [f]"
  by (simp add: exact_fs_def distinct_types_Cons)

lemma exact_fs_Cons:
  "exact_fs T (f # fs) \<longleftrightarrow> in_types T f \<and> exact_fs T fs \<and> fs_find fs (f_type f) = None"
  by (auto simp: exact_fs_def distinct_types_Cons fs_find_def find_None_iff type_eq_sym)

lemma fs_modify_exact_eq:
  assumes "coherent T" "exact_fs T fs" "in_types T p"
  shows "fs_modify fs p = (case fs_find fs (f_type p) of
      None \<Rightarrow> fs @ [p]
    | Some _ \<Rightarrow> map (\<lambda>f. if f_type f = f_type p then p else f) fs)"
proof (cases "fs_find fs (f_type p)")
  case None
  with assms show ?thesis by (simp add: fs_modify_fresh in_types_def wf_exact_def)
next
  case (Some g)
  have "(if type_eq (f_type f) (f_type p) then rewrite f p else f) = (if f_type f = f_type p then p else f)"
    if "f \<in> set fs" for f
  proof (cases "type_eq (f_type f) (f_type p)")
    case True
    have f: "in_types T f" using assms(2) that by (simp add: exact_fs_def list_all_iff)
    then have "f_type f = f_type p"
      using True assms(3) by (intro coherentD [OF assms(1)]) (auto simp: in_types_def)
    with True f assms(3) show ?thesis by (simp add: rewrite_exact in_types_def wf_exact_wf)
  qed auto
  with Some show ?thesis by (simp add: fs_modify_def fs_replace_def)
qed

lemma exact_fs_modify:
  assumes "coherent T" "exact_fs T fs" "in_types T p"
  shows "exact_fs T (fs_modify fs p)"
proof -
  have "distinct_types (fs_modify fs p)"
    using wf_fs_modify [OF exact_fs_wf [OF assms(2)] _ _ assms(1), of p] assms(3)
    by (simp add: wf_fs_def in_types_def wf_exact_def)
  moreover have "list_all (in_types T) (fs_modify fs p)"
    using assms(2,3) unfolding fs_modify_exact_eq [OF assms]
    by (auto simp: exact_fs_def list_all_iff split: option.splits)
  ultimately show ?thesis by (simp add: exact_fs_def)
qed

lemma exact_fs_modify_all:
  "coherent T \<Longrightarrow> exact_fs T fs \<Longrightarrow> list_all (in_types T) ps \<Longrightarrow> exact_fs T (fs_modify_all fs ps)"
  by (induction ps arbitrary: fs) (auto simp: exact_fs_modify)

locale packet_ops =
  fixes T :: "oxm_type set"
    and valid :: "'p \<Rightarrow> bool"
    and test :: "'p \<Rightarrow> oxm_field \<Rightarrow> bool"
    and modify :: "'p \<Rightarrow> oxm_field \<Rightarrow> 'p"
  assumes types: "coherent T"
    and valid_modify: "valid p \<Longrightarrow> in_types T f \<Longrightarrow> valid (modify p f)"
    and test_unique: "valid p \<Longrightarrow> in_types T f \<Longrightarrow> in_types T g \<Longrightarrow> f_type f = f_type g \<Longrightarrow>
      test p f \<Longrightarrow> test p g \<Longrightarrow> f = g"
    and test_modify_same: "valid p \<Longrightarrow> in_types T f \<Longrightarrow> in_types T g \<Longrightarrow> f_type f = f_type g \<Longrightarrow>
      test (modify p f) g \<longleftrightarrow> g = f"
    and test_modify_other: "valid p \<Longrightarrow> in_types T f \<Longrightarrow> in_types T g \<Longrightarrow> f_type f \<noteq> f_type g \<Longrightarrow>
      test (modify p f) g = test p g"
    and modify_overwrite: "valid p \<Longrightarrow> in_types T f \<Longrightarrow> in_types T g \<Longrightarrow> f_type f = f_type g \<Longrightarrow>
      modify (modify p f) g = modify p g"
    and modify_commute: "valid p \<Longrightarrow> in_types T f \<Longrightarrow> in_types T g \<Longrightarrow> f_type f \<noteq> f_type g \<Longrightarrow>
      modify (modify p f) g = modify (modify p g) f"
begin

lemma in_types_eqI: "in_types T f \<Longrightarrow> in_types T g \<Longrightarrow> type_eq (f_type f) (f_type g) \<Longrightarrow> f_type f = f_type g"
  using types by (auto simp: in_types_def dest: coherentD)

lemma valid_apply_mods: "valid p \<Longrightarrow> list_all (in_types T) fs \<Longrightarrow> valid (apply_mods modify p fs)"
  by (induction fs arbitrary: p) (auto simp: valid_modify)

lemma modify_apply_other:
  "valid p \<Longrightarrow> in_types T g \<Longrightarrow> list_all (in_types T) fs \<Longrightarrow> \<forall>f \<in> set fs. f_type f \<noteq> f_type g \<Longrightarrow>
    modify (apply_mods modify p fs) g = apply_mods modify (modify p g) fs"
  by (induction fs arbitrary: p) (auto simp: valid_modify modify_commute)

text \<open>The rewrites collected in a field set act like the rewrites applied one by one.\<close>

lemma apply_replaced:
  "valid p \<Longrightarrow> exact_fs T fs \<Longrightarrow> in_types T g \<Longrightarrow> \<exists>f \<in> set fs. f_type f = f_type g \<Longrightarrow>
    apply_mods modify p (map (\<lambda>f. if f_type f = f_type g then g else f) fs) =
      modify (apply_mods modify p fs) g"
proof (induction fs arbitrary: p)
  case (Cons f fs)
  have f: "in_types T f" "exact_fs T fs" "fs_find fs (f_type f) = None"
    using Cons.prems(2) by (simp_all add: exact_fs_Cons)
  show ?case
  proof (cases "f_type f = f_type g")
    case True
    have other: "\<forall>h \<in> set fs. f_type h \<noteq> f_type g"
      using f(3) True fs_find_NoneD type_eq_refl by metis
    then have "map (\<lambda>f. if f_type f = f_type g then g else f) fs = fs" by (simp add: map_idI)
    moreover have "modify (apply_mods modify (modify p f) fs) g =
        apply_mods modify (modify (modify p f) g) fs"
      using other Cons.prems f by (intro modify_apply_other) (auto simp: valid_modify exact_fs_def)
    ultimately show ?thesis using True Cons.prems f by (simp add: modify_overwrite)
  next
    case False
    with Cons f show ?thesis by (auto simp: valid_modify)
  qed
qed simp

lemma apply_fs_modify:
  assumes "valid p" "exact_fs T fs" "in_types T g"
  shows "apply_mods modify p (fs_modify fs g) = modify (apply_mods modify p fs) g"
proof (cases "fs_find fs (f_type g)")
  case (Some f)
  then have "f \<in> set fs" "f_type f = f_type g"
    using assms fs_find_SomeD [OF Some] in_types_eqI [of f g]
    by (auto simp: exact_fs_def list_all_iff)
  then show ?thesis
    unfolding fs_modify_exact_eq [OF types assms(2,3)]
    using Some assms apply_replaced [of p fs g] by auto
qed (simp add: fs_modify_exact_eq [OF types assms(2,3)])

lemma apply_fs_modify_all:
  "valid p \<Longrightarrow> exact_fs T fs \<Longrightarrow> list_all (in_types T) gs \<Longrightarrow>
    apply_mods modify p (fs_modify_all fs gs) = apply_mods modify (apply_mods modify p fs) gs"
  by (induction gs arbitrary: fs) (simp_all add: apply_fs_modify exact_fs_modify types)

text \<open>What a test sees after a field set of rewrites.\<close>

lemma test_apply_absent:
  "valid p \<Longrightarrow> exact_fs T fs \<Longrightarrow> in_types T g \<Longrightarrow> fs_find fs (f_type g) = None \<Longrightarrow>
    test (apply_mods modify p fs) g = test p g"
proof (induction fs arbitrary: p)
  case (Cons a fs)
  have "f_type a \<noteq> f_type g" using Cons.prems(4) by auto
  with Cons show ?case by (auto simp: exact_fs_Cons valid_modify test_modify_other split: if_splits)
qed simp

lemma test_apply_present:
  "valid p \<Longrightarrow> exact_fs T fs \<Longrightarrow> in_types T g \<Longrightarrow> fs_find fs (f_type g) = Some f \<Longrightarrow>
    test (apply_mods modify p fs) g \<longleftrightarrow> f = g"
proof (induction fs arbitrary: p)
  case (Cons h fs)
  have h: "in_types T h" "exact_fs T fs" "fs_find fs (f_type h) = None"
    using Cons.prems(2) by (simp_all add: exact_fs_Cons)
  show ?case
  proof (cases "type_eq (f_type h) (f_type g)")
    case True
    then have "f_type h = f_type g" using h Cons.prems in_types_eqI by blast
    with True h Cons.prems show ?thesis
      by (auto simp: test_apply_absent valid_modify test_modify_same)
  next
    case False
    with h Cons show ?thesis by (simp add: valid_modify)
  qed
qed simp

end

section \<open>Field sets that fix every header\<close>

definition full_fs :: "oxm_type set \<Rightarrow> field_set \<Rightarrow> bool" where
  "full_fs T fs = (exact_fs T fs \<and> (\<forall>t \<in> T. fs_find fs t \<noteq> None))"

lemma full_fs_find:
  assumes "coherent T" "full_fs T fs" "t \<in> T"
  obtains f where "fs_find fs t = Some f" "in_types T f" "f_type f = t" "f \<in> set fs"
proof -
  obtain f where f: "fs_find fs t = Some f" using assms by (auto simp: full_fs_def)
  with fs_find_SomeD [OF f] have "f \<in> set fs" "type_eq (f_type f) t" by auto
  moreover from this have "in_types T f" using assms(2) by (simp add: full_fs_def exact_fs_def list_all_iff)
  ultimately show thesis
    using that f coherentD [OF assms(1) _ assms(3), of "f_type f"] by (auto simp: in_types_def)
qed

lemma and_mask_exact: "wf_exact f \<Longrightarrow> wf_exact g \<Longrightarrow> f_type f = f_type g \<Longrightarrow> and_mask f (mask_of g) = f"
  by (rule field_eqI_nth)
    (auto simp: bits_simps wf_exact_nth wf_exact_wf wf_and_mask wf_mask_of)

lemma fs_test_full:
  assumes "coherent T" "full_fs T fs" "in_types T g"
  shows "fs_test fs g \<longleftrightarrow> fs_find fs (f_type g) = Some g"
proof -
  obtain f where f: "fs_find fs (f_type g) = Some f" "in_types T f" "f_type f = f_type g"
    using full_fs_find [OF assms(1,2), of "f_type g"] assms(3) by (auto simp: in_types_def)
  with assms(3) show ?thesis
    by (simp add: fs_test_def fs_load_def and_mask_exact matches_exact in_types_def)
qed

lemma full_fs_modify:
  assumes "coherent T" "full_fs T fs" "in_types T g"
  shows "fs_modify fs g = map (\<lambda>f. if f_type f = f_type g then g else f) fs"
    and "full_fs T (fs_modify fs g)"
proof -
  obtain f where f: "fs_find fs (f_type g) = Some f"
    using full_fs_find [OF assms(1,2), of "f_type g"] assms(3) by (auto simp: in_types_def)
  have ex: "exact_fs T fs" using assms(2) by (simp add: full_fs_def)
  show eq: "fs_modify fs g = map (\<lambda>f. if f_type f = f_type g then g else f) fs"
    using f fs_modify_exact_eq [OF assms(1) ex assms(3)] by simp
  show "full_fs T (fs_modify fs g)"
    using assms(2) exact_fs_modify [OF assms(1) ex assms(3)]
    by (auto simp: full_fs_def fs_find_modify)
qed

lemma full_fs_modify_find:
  assumes "coherent T" "full_fs T fs" "in_types T g"
  shows "fs_find (fs_modify fs g) t = (if type_eq (f_type g) t then Some g else fs_find fs t)"
  using assms by (intro fs_modify_exact_find [of T])
    (auto simp: full_fs_def exact_fs_wf in_types_def)

lemma packet_ops_fs:
  assumes T: "coherent T"
  shows "packet_ops T (full_fs T) fs_test fs_modify"
proof
  fix p f g
  assume p: "full_fs T p" and f: "in_types T f"
  show "full_fs T (fs_modify p f)" by (rule full_fs_modify(2) [OF T p f])
  assume g: "in_types T g"
  note full' = full_fs_modify(2) [OF T p f]
  show "f_type f = f_type g \<Longrightarrow> fs_test p f \<Longrightarrow> fs_test p g \<Longrightarrow> f = g"
    by (simp add: fs_test_full [OF T p f] fs_test_full [OF T p g])
  show "f_type f = f_type g \<Longrightarrow> fs_test (fs_modify p f) g \<longleftrightarrow> g = f"
    by (auto simp: fs_test_full [OF T full' g] full_fs_modify_find [OF T p f])
  have ne: "type_eq (f_type f) (f_type g) \<Longrightarrow> f_type f = f_type g"
    using f g by (auto simp: in_types_def dest: coherentD [OF T])
  then show "f_type f \<noteq> f_type g \<Longrightarrow> fs_test (fs_modify p f) g = fs_test p g"
    by (auto simp: fs_test_full [OF T full' g] fs_test_full [OF T p g]
        full_fs_modify_find [OF T p f])
  have two: "fs_modify (fs_modify p f) g =
      map (\<lambda>h. if f_type h = f_type g then g else h) (map (\<lambda>h. if f_type h = f_type f then f else h) p)"
    unfolding full_fs_modify(1) [OF T full' g] unfolding full_fs_modify(1) [OF T p f] ..
  show "f_type f = f_type g \<Longrightarrow> fs_modify (fs_modify p f) g = fs_modify p g"
    unfolding two full_fs_modify(1) [OF T p g] by simp
  have two': "fs_modify (fs_modify p g) f =
      map (\<lambda>h. if f_type h = f_type f then f else h) (map (\<lambda>h. if f_type h = f_type g then g else h) p)"
    unfolding full_fs_modify(1) [OF T full_fs_modify(2) [OF T p g] f]
    unfolding full_fs_modify(1) [OF T p g] ..
  show "f_type f \<noteq> f_type g \<Longrightarrow> fs_modify (fs_modify p f) g = fs_modify (fs_modify p g) f"
    unfolding two two' by simp
qed (rule T)

interpretation fsp: packet_ops "set known_types" "full_fs (set known_types)" fs_test fs_modify
  by (rule packet_ops_fs [OF coherent_known])

text \<open>The inherited \<open>test\<close> throws nothing on well-formed fields, and the proxy changes nothing.\<close>

lemma packet_test_fs:
  assumes "coherent T" "wf_fs T fs" "wf_field need" "f_type need \<in> T"
  shows "packet_test (\<lambda>fs m. Inr (fs_load fs m)) fs need = Inr (fs_test fs need)"
proof -
  have "f_type (fs_load fs (mask_of need)) = f_type need"
  proof (cases "fs_find fs (f_type need)")
    case (Some f)
    with fs_find_wf(2) [OF assms(2) Some assms(1,4)] show ?thesis by (simp add: fs_load_def)
  qed (simp add: fs_load_def)
  moreover have "wf_field (fs_load fs (mask_of need))"
    using assms by (intro wf_fs_load [of T]) (auto intro: wf_mask_of)
  ultimately show ?thesis
    using assms by (simp add: packet_test_def fs_test_def field_match_eq)
qed

lemma packet_proxy_id: "packet_proxy v = v"
  by (cases v) (simp add: packet_proxy_def)

end
