(* ===== verification/Policies.thy ===== *)
theory Policies
  imports Packet
begin

text \<open>
  The policy language of \<^verbatim>\<open>src/retic/policies.hh\<close> and
  \<^verbatim>\<open>src/retic/policies.cc\<close>: its syntax, the smart constructors and operators, flow
  timeouts, equality, and the meaning a policy gives to a packet, which is the specification
  the compiler and the rule generator are verified against.
\<close>

section \<open>Flow timeouts\<close>

text \<open>\<open>duration\<close> is \<open>std::chrono::duration<uint32_t>\<close>; its \<open>max()\<close> means no timeout.\<close>

type_synonym duration = "32 word"

definition duration_max :: duration where
  "duration_max = - 1"

record flow_settings =
  idle_timeout :: duration
  hard_timeout :: duration

definition default_settings :: flow_settings where
  "default_settings = \<lparr>idle_timeout = duration_max, hard_timeout = duration_max\<rparr>"

definition settings_meet :: "flow_settings \<Rightarrow> flow_settings \<Rightarrow> flow_settings" where
  "settings_meet l r =
     (let i = min (idle_timeout l) (idle_timeout r);
          h = min (hard_timeout l) (hard_timeout r)
      in \<lparr>idle_timeout = min i h, hard_timeout = h\<rparr>)"

section \<open>Syntax\<close>

text \<open>
  A packet handler is a \<open>std::function<policy(Packet&)>\<close>. What the runtime sees of it is the
  sequence of calls it makes on the packet and the policy it returns, so a handler is the tree
  of these calls: the continuation of a \<open>load\<close> or \<open>test\<close> is a function of the answer.
\<close>

datatype policy =
    Stop
  | Ident
  | Filter oxm_field
  | Modify oxm_field
  | Settings flow_settings
  | Negation policy
  | Packet_function "64 word" handler
  | Sequential policy policy
  | Parallel policy policy
and handler =
    Return policy
  | Load oxm_mask "oxm_field \<Rightarrow> handler"
  | Test oxm_field "bool \<Rightarrow> handler"
  | Rewrite oxm_field handler

text \<open>Constructor functions.\<close>

definition fwd :: "32 word \<Rightarrow> policy" where
  "fwd port = Modify \<lparr>f_type = ofb_out_port, f_value = bits_of 32 (unat port),
     f_mask = bits_set (bits_zero 32)\<rparr>"

definition filter_not :: "oxm_field \<Rightarrow> policy" where
  "filter_not f = Negation (Filter f)"

text \<open>\<open>handler\<close> takes the next id from a counter.\<close>

definition handler_policy :: "handler \<Rightarrow> 64 word \<Rightarrow> policy \<times> 64 word" where
  "handler_policy h id_gen = (Packet_function id_gen h, id_gen + 1)"

definition idle_timeout_policy :: "duration \<Rightarrow> policy" where
  "idle_timeout_policy t = Settings \<lparr>idle_timeout = t, hard_timeout = duration_max\<rparr>"

definition hard_timeout_policy :: "duration \<Rightarrow> policy" where
  "hard_timeout_policy t = Settings \<lparr>idle_timeout = t, hard_timeout = t\<rparr>"

text \<open>\<open>operator+\<close> (and \<open>operator|\<close>) drops \<open>stop\<close> operands; \<open>operator>>\<close> is \<open>Sequential\<close>.\<close>

definition policy_plus :: "policy \<Rightarrow> policy \<Rightarrow> policy" where
  "policy_plus l r = (case l of Stop \<Rightarrow> r
     | _ \<Rightarrow> (case r of Stop \<Rightarrow> l | _ \<Rightarrow> Parallel l r))"

definition policy_seq :: "policy \<Rightarrow> policy \<Rightarrow> policy" where
  "policy_seq l r = Sequential l r"

text \<open>\<open>operator==\<close>: handlers are compared by id, parallel operands in both orders.\<close>

definition settings_eq :: "flow_settings \<Rightarrow> flow_settings \<Rightarrow> bool" where
  "settings_eq l r = (idle_timeout l = idle_timeout r \<and> hard_timeout l = hard_timeout r)"

fun policy_eq :: "policy \<Rightarrow> policy \<Rightarrow> bool" where
  "policy_eq Stop q = (case q of Stop \<Rightarrow> True | _ \<Rightarrow> False)"
| "policy_eq Ident q = (case q of Ident \<Rightarrow> True | _ \<Rightarrow> False)"
| "policy_eq (Filter f) q = (case q of Filter g \<Rightarrow> field_eq f g | _ \<Rightarrow> False)"
| "policy_eq (Modify f) q = (case q of Modify g \<Rightarrow> field_eq f g | _ \<Rightarrow> False)"
| "policy_eq (Settings s) q = (case q of Settings r \<Rightarrow> settings_eq s r | _ \<Rightarrow> False)"
| "policy_eq (Negation p) q = (case q of Negation r \<Rightarrow> policy_eq p r | _ \<Rightarrow> False)"
| "policy_eq (Packet_function i g) q = (case q of Packet_function j h \<Rightarrow> i = j | _ \<Rightarrow> False)"
| "policy_eq (Sequential a b) q = (case q of
     Sequential c d \<Rightarrow> policy_eq a c \<and> policy_eq b d | _ \<Rightarrow> False)"
| "policy_eq (Parallel a b) q = (case q of
     Parallel c d \<Rightarrow> policy_eq a c \<and> policy_eq b d \<or> policy_eq a d \<and> policy_eq b c | _ \<Rightarrow> False)"

section \<open>Meaning\<close>

text \<open>
  A policy maps a packet to a bag of outcomes: a rewritten packet, and the handler that still
  has to look at it, if any. The compiled code is compared with this meaning for policies
  whose handlers end the sequences they occur in (\<open>tail_handlers\<close>).
\<close>

type_synonym pfun = "64 word \<times> handler"

type_synonym 'p outcome = "'p \<times> pfun option"

fun sem :: "('p \<Rightarrow> oxm_field \<Rightarrow> bool) \<Rightarrow> ('p \<Rightarrow> oxm_field \<Rightarrow> 'p) \<Rightarrow> policy \<Rightarrow> 'p \<Rightarrow> 'p outcome multiset"
where
  "sem tst md Stop p = {#}"
| "sem tst md Ident p = {#(p, None)#}"
| "sem tst md (Filter f) p = (if tst p f then {#(p, None)#} else {#})"
| "sem tst md (Modify f) p = {#(md p f, None)#}"
| "sem tst md (Settings s) p = {#(p, None)#}"
| "sem tst md (Negation a) p = (if sem tst md a p = {#} then {#(p, None)#} else {#})"
| "sem tst md (Packet_function i h) p = {#(p, Some (i, h))#}"
| "sem tst md (Sequential a b) p = (\<Sum>x \<in># sem tst md a p. sem tst md b (fst x))"
| "sem tst md (Parallel a b) p = sem tst md a p + sem tst md b p"

text \<open>The timeouts a policy gives to the flow of a packet.\<close>

fun sem_settings :: "('p \<Rightarrow> oxm_field \<Rightarrow> bool) \<Rightarrow> ('p \<Rightarrow> oxm_field \<Rightarrow> 'p) \<Rightarrow> policy \<Rightarrow> 'p \<Rightarrow> flow_settings"
where
  "sem_settings tst md (Settings s) p = s"
| "sem_settings tst md (Negation a) p = sem_settings tst md a p"
| "sem_settings tst md (Sequential a b) p =
     (if sem tst md a p = {#} then default_settings
      else fold_mset settings_meet (sem_settings tst md a p)
        (image_mset (\<lambda>x. sem_settings tst md b (fst x)) (sem tst md a p)))"
| "sem_settings tst md (Parallel a b) p =
     settings_meet (sem_settings tst md a p) (sem_settings tst md b p)"
| "sem_settings tst md _ p = default_settings"

fun handler_free :: "policy \<Rightarrow> bool" where
  "handler_free (Negation a) = handler_free a"
| "handler_free (Packet_function i h) = False"
| "handler_free (Sequential a b) = (handler_free a \<and> handler_free b)"
| "handler_free (Parallel a b) = (handler_free a \<and> handler_free b)"
| "handler_free _ = True"

fun tail_handlers :: "policy \<Rightarrow> bool" where
  "tail_handlers (Negation a) = tail_handlers a"
| "tail_handlers (Sequential a b) = (handler_free a \<and> tail_handlers b)"
| "tail_handlers (Parallel a b) = (tail_handlers a \<and> tail_handlers b)"
| "tail_handlers _ = True"

text \<open>All fields of the policy are exact fields of the given types.\<close>

fun policy_fields :: "policy \<Rightarrow> oxm_field list" where
  "policy_fields (Filter f) = [f]"
| "policy_fields (Modify f) = [f]"
| "policy_fields (Negation a) = policy_fields a"
| "policy_fields (Sequential a b) = policy_fields a @ policy_fields b"
| "policy_fields (Parallel a b) = policy_fields a @ policy_fields b"
| "policy_fields _ = []"

fun policy_handlers :: "policy \<Rightarrow> pfun list" where
  "policy_handlers (Packet_function i h) = [(i, h)]"
| "policy_handlers (Negation a) = policy_handlers a"
| "policy_handlers (Sequential a b) = policy_handlers a @ policy_handlers b"
| "policy_handlers (Parallel a b) = policy_handlers a @ policy_handlers b"
| "policy_handlers _ = []"

section \<open>Timeouts form a semilattice\<close>

lemma settings_eq_iff [simp]: "settings_eq l r \<longleftrightarrow> l = r"
  by (cases l; cases r) (auto simp: settings_eq_def)

lemma settings_meet_commute: "settings_meet a b = settings_meet b a"
  by (simp add: settings_meet_def Let_def min.commute)

lemma settings_meet_assoc: "settings_meet (settings_meet a b) c = settings_meet a (settings_meet b c)"
  by (simp add: settings_meet_def Let_def min.assoc min.left_commute min.commute)

lemma settings_meet_left_commute: "settings_meet a (settings_meet b c) = settings_meet b (settings_meet a c)"
  by (metis settings_meet_assoc settings_meet_commute)

lemmas settings_meet_ac = settings_meet_assoc settings_meet_commute settings_meet_left_commute

interpretation settings_fold: comp_fun_commute settings_meet
  by unfold_locales (simp add: fun_eq_iff settings_meet_left_commute)

definition clamped :: "flow_settings \<Rightarrow> bool" where
  "clamped s = (idle_timeout s \<le> hard_timeout s)"

lemma clamped_meet [simp]: "clamped (settings_meet a b)"
  by (simp add: clamped_def settings_meet_def Let_def min.coboundedI2)

lemma duration_le_max [simp]: "(x :: duration) \<le> duration_max"
  by (simp add: duration_max_def)

lemma settings_meet_default [simp]:
  "clamped s \<Longrightarrow> settings_meet s default_settings = s"
  "clamped s \<Longrightarrow> settings_meet default_settings s = s"
  by (simp_all add: settings_meet_def clamped_def default_settings_def Let_def min_absorb1 min_absorb2)

lemma clamped_default [simp]: "clamped default_settings"
  by (simp add: clamped_def default_settings_def)

lemma settings_meet_idem: "clamped s \<Longrightarrow> settings_meet s s = s"
  by (simp add: settings_meet_def clamped_def Let_def min_def)

lemma settings_meet_lower:
  "hard_timeout (settings_meet a b) \<le> hard_timeout a" "idle_timeout (settings_meet a b) \<le> idle_timeout a"
  "hard_timeout (settings_meet a b) \<le> hard_timeout b" "idle_timeout (settings_meet a b) \<le> idle_timeout b"
  by (simp_all add: settings_meet_def Let_def min.coboundedI1 min.coboundedI2)

lemma settings_meet_greatest:
  assumes "clamped s" "idle_timeout s \<le> idle_timeout a" "idle_timeout s \<le> idle_timeout b"
    "hard_timeout s \<le> hard_timeout a" "hard_timeout s \<le> hard_timeout b"
  shows "idle_timeout s \<le> idle_timeout (settings_meet a b) \<and>
    hard_timeout s \<le> hard_timeout (settings_meet a b)"
  using assms by (auto simp: settings_meet_def Let_def clamped_def)

section \<open>Laws of the language\<close>

lemma sem_plus: "sem tst md (policy_plus a b) p = sem tst md a p + sem tst md b p"
  by (cases a; cases b) (simp_all add: policy_plus_def)

lemma sem_seq_assoc:
  "sem tst md (Sequential (Sequential a b) c) p = sem tst md (Sequential a (Sequential b c)) p"
proof -
  have "(\<Sum>x \<in># (\<Sum>y \<in># M. f y). g x) = (\<Sum>y \<in># M. \<Sum>x \<in># f y. g x)"
    for M :: "'a outcome multiset" and f :: "'a outcome \<Rightarrow> 'a outcome multiset" and g :: "'a outcome \<Rightarrow> 'a outcome multiset"
    by (induction M) auto
  then show ?thesis by simp
qed

lemma sem_seq_plus:
  "sem tst md (Sequential (Parallel a b) c) p =
     sem tst md (Sequential a c) p + sem tst md (Sequential b c) p"
  "sem tst md (Sequential a (Parallel b c)) p =
     sem tst md (Sequential a b) p + sem tst md (Sequential a c) p"
  by (simp_all add: sum_mset.distrib)

lemma sem_units [simp]:
  "sem tst md (Sequential Ident a) p = sem tst md a p"
  "sem tst md (Sequential Stop a) p = {#}"
  "sem tst md (Sequential a Stop) p = {#}"
  by simp_all

lemma sem_handler_free: "handler_free a \<Longrightarrow> x \<in># sem tst md a p \<Longrightarrow> snd x = None"
  by (induction a arbitrary: p x) (auto split: if_splits)

lemma handler_free_tail: "handler_free a \<Longrightarrow> tail_handlers a"
  by (induction a) auto

text \<open>Equal policies mean the same when a handler id stands for one handler and the types
  of the fields are coherent.\<close>

lemma field_eq_coherent:
  "coherent T \<Longrightarrow> f_type f \<in> T \<Longrightarrow> f_type g \<in> T \<Longrightarrow> field_eq f g \<Longrightarrow> f = g"
  by (auto simp: field_eq_def dest: coherentD)

definition consistent :: "oxm_type set \<Rightarrow> (64 word \<Rightarrow> handler) \<Rightarrow> policy \<Rightarrow> bool" where
  "consistent T H a = (list_all (\<lambda>f. f_type f \<in> T) (policy_fields a) \<and>
     list_all (\<lambda>x. H (fst x) = snd x) (policy_handlers a))"

lemma consistent_simps [simp]:
  "consistent T H (Negation a) = consistent T H a"
  "consistent T H (Sequential a b) = (consistent T H a \<and> consistent T H b)"
  "consistent T H (Parallel a b) = (consistent T H a \<and> consistent T H b)"
  by (auto simp: consistent_def)

lemma policy_eq_sem:
  assumes "coherent T"
    and "policy_eq a b" "consistent T H a" "consistent T H b"
  shows "sem tst md a p = sem tst md b p"
  using assms(2-4)
proof (induction a arbitrary: b p)
  case (Sequential a1 a2)
  then obtain c d where "b = Sequential c d" by (auto split: policy.splits)
  moreover from this Sequential have "sem tst md a1 p = sem tst md c p"
    "sem tst md a2 q = sem tst md d q" for q by auto
  ultimately show ?case by simp
next
  case (Parallel a1 a2)
  then obtain c d where b: "b = Parallel c d" by (auto split: policy.splits)
  with Parallel show ?case by (auto simp: add.commute)
qed (auto simp: consistent_def dest: field_eq_coherent [OF assms(1)] split: policy.splits)

section \<open>Properties\<close>

text \<open>
  \<open>operator&\<close> of flow settings is commutative, associative and returns the greatest
  pair of timeouts that is below both operands and whose idle timeout does not exceed its hard
  timeout.
\<close>

lemma settings_meet_is_glb:
  "settings_meet a b = settings_meet b a \<and>
   settings_meet (settings_meet a b) c = settings_meet a (settings_meet b c) \<and>
   clamped (settings_meet a b) \<and>
   hard_timeout (settings_meet a b) \<le> hard_timeout a \<and> idle_timeout (settings_meet a b) \<le> idle_timeout a \<and>
   (clamped s \<and> idle_timeout s \<le> idle_timeout a \<and> idle_timeout s \<le> idle_timeout b \<and>
      hard_timeout s \<le> hard_timeout a \<and> hard_timeout s \<le> hard_timeout b \<longrightarrow>
    idle_timeout s \<le> idle_timeout (settings_meet a b) \<and> hard_timeout s \<le> hard_timeout (settings_meet a b))"
  using settings_meet_commute settings_meet_assoc settings_meet_lower settings_meet_greatest by simp

theorem settings_meet_is_glb_witness:
  "clamped default_settings \<and>
   idle_timeout default_settings \<le> idle_timeout (settings_meet default_settings default_settings)"
  using settings_meet_is_glb [of default_settings default_settings default_settings default_settings]
  by simp



end
