(* ===== verification/Fdd.thy ===== *)
theory Fdd
  imports Policies
begin

text \<open>
  Forwarding decision diagrams: the data of \<^verbatim>\<open>src/retic/fdd.hh\<close> and
  \<^verbatim>\<open>src/retic/trace_tree.hh\<close>, and the compiler of \<^verbatim>\<open>src/retic/fdd_compiler.cc\<close>
  from policies to diagrams. The compiler is shown to return and to preserve the meaning of
  policies over exact fields.
\<close>

section \<open>Diagrams\<close>

datatype action_unit =
  Action_unit (pred_actions: field_set) (body: "pfun option") (post_actions: "action_unit option")

text \<open>
  A leaf holds the actions, the timeouts, the trace tree of its handlers and the priority range
  a translator gave it (\<open>None\<close> until a translator visits the leaf). A leaf of a trace tree
  refers to the diagram of the policy its handlers returned.
\<close>

datatype leaf =
  Leaf_data (sets: "action_unit list") (flow_settings_of: flow_settings) (maple_tree: tnode)
    (prios: "(16 word \<times> 16 word) option")
and diagram = Leaf leaf | Node oxm_field diagram diagram
and tnode =
    Unexplored
  | Leaf_node policy "diagram option"
  | Test_node oxm_field tnode tnode
  | Load_node oxm_mask "(bits \<times> tnode) list"

definition has_body :: "action_unit \<Rightarrow> bool" where
  "has_body u = (case body u of None \<Rightarrow> False | Some _ \<Rightarrow> True)"

lemma has_body_iff: "has_body u \<longleftrightarrow> body u \<noteq> None"
  by (simp add: has_body_def split: option.split)

definition empty_unit :: action_unit where
  "empty_unit = Action_unit [] None None"

definition mk_leaf :: "action_unit list \<Rightarrow> flow_settings \<Rightarrow> leaf" where
  "mk_leaf us s = Leaf_data us s Unexplored None"

definition stop_leaf :: leaf where
  "stop_leaf = mk_leaf [] default_settings"

lemma mk_leaf_sel [simp]: "sets (mk_leaf us s) = us" "flow_settings_of (mk_leaf us s) = s"
  by (simp_all add: mk_leaf_def)

lemma stop_leaf_sel [simp]: "sets stop_leaf = []" "flow_settings_of stop_leaf = default_settings"
  by (simp_all add: stop_leaf_def)

text \<open>\<open>operator==\<close> of action units, leaves and nodes.\<close>

fun unit_eq :: "action_unit \<Rightarrow> action_unit \<Rightarrow> bool" where
  "unit_eq (Action_unit a b c) (Action_unit a' b' c') =
     (fs_eq a a' \<and>
      (case (b, b') of (None, None) \<Rightarrow> True | (Some x, Some y) \<Rightarrow> fst x = fst y | _ \<Rightarrow> False) \<and>
      (case c of None \<Rightarrow> Option.is_none c'
       | Some u \<Rightarrow> (case c' of None \<Rightarrow> False | Some v \<Rightarrow> unit_eq u v)))"

definition leaf_eq :: "leaf \<Rightarrow> leaf \<Rightarrow> bool" where
  "leaf_eq l r = (list_all (\<lambda>u. list_ex (\<lambda>v. unit_eq v u) (sets r)) (sets l) \<and>
     list_all (\<lambda>u. list_ex (\<lambda>v. unit_eq v u) (sets l)) (sets r) \<and>
     settings_eq (flow_settings_of l) (flow_settings_of r))"

fun diagram_eq :: "diagram \<Rightarrow> diagram \<Rightarrow> bool" where
  "diagram_eq (Leaf l) (Leaf r) = leaf_eq l r"
| "diagram_eq (Node f p n) (Node g q m) = (field_eq f g \<and> diagram_eq p q \<and> diagram_eq n m)"
| "diagram_eq _ _ = False"

section \<open>The order of types\<close>

text \<open>
  \<open>ns() << 16 | id()\<close> is an \<open>int\<close> that is sign-extended to 64 bits; the difference is
  truncated to the \<open>int\<close> the function returns.
\<close>

definition type_order_id :: "oxm_type \<Rightarrow> 64 word" where
  "type_order_id t = scast (or (push_bit 16 (ucast (ty_ns t))) (ucast (ty_id t)) :: 32 word)"

definition compare_types :: "oxm_type \<Rightarrow> oxm_type \<Rightarrow> int" where
  "compare_types l r = sint (ucast (type_order_id r - type_order_id l) :: 32 word)"

section \<open>Composition\<close>

definition leaf_par :: "leaf \<Rightarrow> leaf \<Rightarrow> leaf" where
  "leaf_par l r = mk_leaf (sets l @ sets r) (settings_meet (flow_settings_of l) (flow_settings_of r))"

text \<open>
  \<open>parallel_composition\<close>. Exchanging the operands is a recursive call in the code, which has
  no bound in general; \<open>None\<close> is a composition that never returns.
\<close>

partial_function (option) par :: "diagram \<Rightarrow> diagram \<Rightarrow> diagram option" where
  "par l r = (case l of
     Leaf a \<Rightarrow> (case r of
         Leaf b \<Rightarrow> Some (Leaf (leaf_par a b))
       | Node g q m \<Rightarrow> par r l)
   | Node f p n \<Rightarrow> (case r of
         Leaf b \<Rightarrow>
           Option.bind (par p r) (\<lambda>p'. Option.bind (par n r) (\<lambda>n'. Some (Node f p' n')))
       | Node g q m \<Rightarrow>
           (if field_eq f g then
              Option.bind (par p q) (\<lambda>p'. Option.bind (par n m) (\<lambda>n'. Some (Node f p' n')))
            else if type_eq (f_type f) (f_type g) then
              (if bits_less (f_value f) (f_value g) then
                 Option.bind (par p m) (\<lambda>p'. Option.bind (par n r) (\<lambda>n'. Some (Node f p' n')))
               else par r l)
            else if compare_types (f_type f) (f_type g) > 0 then
              Option.bind (par p r) (\<lambda>p'. Option.bind (par n r) (\<lambda>n'. Some (Node f p' n')))
            else par r l)))"

text \<open>The composition by the shape of its operands, for evaluation.\<close>

lemma par_cases [code]:
  "par (Leaf a) (Leaf b) = Some (Leaf (leaf_par a b))"
  "par (Leaf a) (Node g q m) = par (Node g q m) (Leaf a)"
  "par (Node f p n) (Leaf b) = Option.bind (par p (Leaf b))
     (\<lambda>p'. Option.bind (par n (Leaf b)) (\<lambda>n'. Some (Node f p' n')))"
  "par (Node f p n) (Node g q m) =
     (if field_eq f g then
        Option.bind (par p q) (\<lambda>p'. Option.bind (par n m) (\<lambda>n'. Some (Node f p' n')))
      else if type_eq (f_type f) (f_type g) then
        (if bits_less (f_value f) (f_value g) then
           Option.bind (par p m) (\<lambda>p'. Option.bind (par n (Node g q m)) (\<lambda>n'. Some (Node f p' n')))
         else par (Node g q m) (Node f p n))
      else if compare_types (f_type f) (f_type g) > 0 then
        Option.bind (par p (Node g q m)) (\<lambda>p'. Option.bind (par n (Node g q m)) (\<lambda>n'. Some (Node f p' n')))
      else par (Node g q m) (Node f p n))"
  by (subst par.simps, simp)+

text \<open>\<open>restriction\<close>: the diagram where the field tests true, or false, and nothing elsewhere.\<close>

fun restrict_true :: "oxm_field \<Rightarrow> diagram \<Rightarrow> diagram" where
  "restrict_true f (Leaf l) = Node f (Leaf l) (Leaf stop_leaf)"
| "restrict_true f (Node g p n) =
     (if field_eq g f then Node f p (Leaf stop_leaf)
      else if type_eq (f_type g) (f_type f) then restrict_true f n
      else if compare_types (f_type f) (f_type g) > 0 then Node f (Node g p n) (Leaf stop_leaf)
      else Node g (restrict_true f p) (restrict_true f n))"

fun restrict_false :: "oxm_field \<Rightarrow> diagram \<Rightarrow> diagram" where
  "restrict_false f (Leaf l) = Node f (Leaf stop_leaf) (Leaf l)"
| "restrict_false f (Node g p n) =
     (if field_eq g f then Node f (Leaf stop_leaf) n
      else if type_eq (f_type g) (f_type f) then
        (if bits_less (f_value g) (f_value f) then Node g p (restrict_false f n)
         else Node f (Leaf stop_leaf) (Node g p n))
      else if compare_types (f_type f) (f_type g) > 0 then Node f (Leaf stop_leaf) (Node g p n)
      else Node g (restrict_false f p) (restrict_false f n))"

definition restriction_apply :: "oxm_field \<Rightarrow> diagram \<Rightarrow> bool \<Rightarrow> diagram" where
  "restriction_apply f d t = (if t then restrict_true f d else restrict_false f d)"

definition field_set_union :: "field_set \<Rightarrow> field_set \<Rightarrow> field_set" where
  "field_set_union l r = fs_modify_all l r"

function seq_actions :: "action_unit \<Rightarrow> action_unit \<Rightarrow> action_unit" where
  "seq_actions (Action_unit a (Some h) post) two =
     Action_unit a (Some h)
       (Some (seq_actions (case post of None \<Rightarrow> empty_unit | Some u \<Rightarrow> u) two))"
| "seq_actions (Action_unit a None post) two =
     Action_unit (field_set_union a (pred_actions two)) (body two) (post_actions two)"
  by (metis action_unit.exhaust option.exhaust surj_pair) auto
termination
  by (relation "measure (\<lambda>(u, two). if body u = None then 0 else Suc (size u))")
    (auto simp: empty_unit_def split: option.splits)

fun left_action_applier :: "action_unit \<Rightarrow> diagram \<Rightarrow> diagram" where
  "left_action_applier u (Leaf l) = Leaf (mk_leaf (map (seq_actions u) (sets l)) (flow_settings_of l))"
| "left_action_applier u (Node f p n) = (case fs_find (pred_actions u) (f_type f) of
     None \<Rightarrow> Node f (left_action_applier u p) (left_action_applier u n)
   | Some g \<Rightarrow>
       (if field_eq g f then left_action_applier u p else left_action_applier u n))"

text \<open>\<open>sequential_composition\<close> of a leaf: the loop over the leaf's actions, and of a node.\<close>

fun seq_loop :: "diagram \<Rightarrow> action_unit list \<Rightarrow> diagram \<Rightarrow> diagram option" where
  "seq_loop rhs [] result = Some result"
| "seq_loop rhs (u # us) result =
     Option.bind (par result (left_action_applier u rhs)) (seq_loop rhs us)"

fun sequential :: "diagram \<Rightarrow> diagram \<Rightarrow> diagram option" where
  "sequential (Leaf l) rhs =
     (if sets l = [] then Some (Leaf stop_leaf)
      else seq_loop rhs (sets l) (Leaf (mk_leaf [] (flow_settings_of l))))"
| "sequential (Node f p n) rhs =
     Option.bind (sequential p rhs) (\<lambda>one.
     Option.bind (sequential n rhs) (\<lambda>two.
       par (restriction_apply f one True) (restriction_apply f two False)))"

fun negation :: "diagram \<Rightarrow> diagram" where
  "negation (Leaf l) = (if sets l = [] then Leaf (mk_leaf [empty_unit] (flow_settings_of l))
     else Leaf (mk_leaf [] (flow_settings_of l)))"
| "negation (Node f p n) = Node f (negation p) (negation n)"

fun compile :: "policy \<Rightarrow> diagram option" where
  "compile (Filter f) =
     Some (Node f (Leaf (mk_leaf [empty_unit] default_settings)) (Leaf stop_leaf))"
| "compile (Negation a) = Option.bind (compile a) (\<lambda>d. Some (negation d))"
| "compile (Modify f) = Some (Leaf (mk_leaf [Action_unit (fs_of_list [f]) None None] default_settings))"
| "compile Stop = Some (Leaf stop_leaf)"
| "compile Ident = Some (Leaf (mk_leaf [empty_unit] default_settings))"
| "compile (Sequential a b) =
     Option.bind (compile a) (\<lambda>d1. Option.bind (compile b) (\<lambda>d2. sequential d1 d2))"
| "compile (Parallel a b) =
     Option.bind (compile a) (\<lambda>d1. Option.bind (compile b) (\<lambda>d2. par d1 d2))"
| "compile (Packet_function i h) =
     Some (Leaf (mk_leaf [Action_unit [] (Some (i, h)) None] default_settings))"
| "compile (Settings s) = Some (Leaf (mk_leaf [empty_unit] s))"

section \<open>Evaluation\<close>

text \<open>\<open>PlainTraverser\<close> of \<^verbatim>\<open>src/retic/traverse_fdd.cc\<close>: the leaf of a packet.\<close>

fun eval_fdd :: "('p \<Rightarrow> oxm_field \<Rightarrow> bool) \<Rightarrow> diagram \<Rightarrow> 'p \<Rightarrow> leaf" where
  "eval_fdd tst (Leaf l) p = l"
| "eval_fdd tst (Node f pos neg) p = (if tst p f then eval_fdd tst pos p else eval_fdd tst neg p)"

definition unit_outcome :: "('p \<Rightarrow> oxm_field \<Rightarrow> 'p) \<Rightarrow> 'p \<Rightarrow> action_unit \<Rightarrow> 'p outcome" where
  "unit_outcome md p u = (apply_mods md p (pred_actions u), body u)"

definition outcomes :: "('p \<Rightarrow> oxm_field \<Rightarrow> 'p) \<Rightarrow> leaf \<Rightarrow> 'p \<Rightarrow> 'p outcome multiset" where
  "outcomes md l p = image_mset (unit_outcome md p) (mset (sets l))"

section \<open>Well-formed diagrams\<close>

definition unit_ok :: "oxm_type set \<Rightarrow> action_unit \<Rightarrow> bool" where
  "unit_ok T u = (exact_fs T (pred_actions u) \<and> post_actions u = None)"

fun diagram_ok :: "oxm_type set \<Rightarrow> diagram \<Rightarrow> bool" where
  "diagram_ok T (Leaf l) = list_all (unit_ok T) (sets l)"
| "diagram_ok T (Node f p n) = (in_types T f \<and> diagram_ok T p \<and> diagram_ok T n)"

fun diagram_static :: "diagram \<Rightarrow> bool" where
  "diagram_static (Leaf l) = list_all (\<lambda>u. body u = None) (sets l)"
| "diagram_static (Node f p n) = (diagram_static p \<and> diagram_static n)"

lemma diagram_induct [case_names Leaf Node]:
  "(\<And>l. P (Leaf l)) \<Longrightarrow> (\<And>f p n. P p \<Longrightarrow> P n \<Longrightarrow> P (Node f p n)) \<Longrightarrow> P d"
  by (rule diagram_static.induct [of P d])

text \<open>Any two types of the universe can be put in order.\<close>

definition comparable :: "oxm_type set \<Rightarrow> bool" where
  "comparable T = (\<forall>a \<in> T. \<forall>b \<in> T. a \<noteq> b \<longrightarrow> compare_types a b > 0 \<or> compare_types b a > 0)"

lemma comparableD: "comparable T \<Longrightarrow> a \<in> T \<Longrightarrow> b \<in> T \<Longrightarrow> a \<noteq> b \<Longrightarrow> \<not> compare_types a b > 0 \<Longrightarrow>
    compare_types b a > 0"
  by (auto simp: comparable_def)

lemma sint32_pos: "0 < sint (w :: 32 word) \<longleftrightarrow> 0 < uint w \<and> uint w < 2147483648"
proof -
  have b: "uint w < 4294967296" "0 \<le> uint w" using uint_lt2p [of w] by simp_all
  have s: "sint w = (uint w + 2147483648) mod 4294967296 - 2147483648"
    by (simp add: sint_uint signed_take_bit_eq_take_bit_shift take_bit_eq_mod)
  show ?thesis
  proof (cases "uint w < 2147483648")
    case True
    with b show ?thesis unfolding s by (simp add: mod_pos_pos_trivial)
  next
    case False
    have "(uint w + 2147483648) mod 4294967296 = (uint w - 2147483648) mod 4294967296"
      using minus_mod_self2 [of "uint w + 2147483648" 4294967296] by simp
    also have "\<dots> = uint w - 2147483648" using b False by (intro mod_pos_pos_trivial) auto
    finally show ?thesis using b False unfolding s by simp
  qed
qed

definition order_key :: "oxm_type \<Rightarrow> 32 word" where
  "order_key t = or (push_bit 16 (ucast (ty_ns t))) (ucast (ty_id t))"

lemma compare_types_key: "compare_types l r = sint (order_key r - order_key l)"
proof -
  have "(ucast (x - y) :: 32 word) = ucast x - ucast y" for x y :: "64 word"
    by (rule word_uint_eqI)
      (simp add: uint_word_ariths unsigned_ucast_eq take_bit_eq_mod mod_mod_cancel mod_diff_eq)
  moreover have "(ucast (scast w :: 64 word) :: 32 word) = w" for w :: "32 word"
    by (rule bit_word_eqI) (auto simp: bit_simps)
  ultimately show ?thesis by (simp add: compare_types_def type_order_id_def order_key_def)
qed

text \<open>Types whose keys lie within half of the 32-bit circle are comparable.\<close>

lemma comparable_interval:
  assumes "inj_on order_key T" "\<forall>t \<in> T. lo \<le> uint (order_key t) \<and> uint (order_key t) \<le> hi"
    and "hi - lo < 2147483648"
  shows "comparable T"
  unfolding comparable_def
proof (intro ballI impI)
  fix a b assume ab: "a \<in> T" "b \<in> T" "a \<noteq> b"
  then have "order_key a \<noteq> order_key b" using assms(1) by (auto dest: inj_onD)
  then have ne: "uint (order_key a) \<noteq> uint (order_key b)" by (simp add: word_uint_eq_iff)
  have "lo \<le> uint (order_key a)" "uint (order_key a) \<le> hi"
    "lo \<le> uint (order_key b)" "uint (order_key b) \<le> hi" using ab assms(2) by auto
  with ne assms(3) show "compare_types a b > 0 \<or> compare_types b a > 0"
    unfolding compare_types_key sint32_pos by (auto simp: uint_sub_if')
qed

lemma order_keys_known:
  "map order_key known_types =
    [0x74060001, 0x74060002, 0x80000000, 0x80000005, 0x80000004, 0x80000003, 0x8000000A,
     0x8000000B, 0x8000000C, 0x8000000D, 0x8000000E, 0x8000000F, 0x80000010, 0x80000016,
     0x80000017, 0x80000018, 0x80000019, 0x80000015, 0x80000006, 0x8000001A, 0x8000001B,
     0x80000013, 0x80000014]"
  by (simp add: known_types_def ofb_type_defs order_key_def)

lemma comparable_known: "comparable (set known_types)"
proof (rule comparable_interval)
  have "distinct (map order_key known_types)" unfolding order_keys_known by simp
  then show "inj_on order_key (set known_types)" by (simp add: distinct_map)
  have "\<forall>k \<in> set (map order_key known_types). 0x74060001 \<le> uint k \<and> uint k \<le> 0x8000007F"
    unfolding order_keys_known by simp
  then show "\<forall>t \<in> set known_types. 0x74060001 \<le> uint (order_key t) \<and> uint (order_key t) \<le> 0x8000007F"
    by simp
qed simp

end
