(* ===== verification/Sample_Packets.thy ===== *)
theory Sample_Packets
  imports Fdd
begin

text \<open>
  Concrete packets and fields on which the properties are exercised: a packet that fixes every
  known header, and exact fields of a known type.
\<close>

text \<open>A packet with every known header zero.\<close>

definition zero_field :: "oxm_type \<Rightarrow> oxm_field" where
  "zero_field t = \<lparr>f_type = t, f_value = bits_zero (nbits t), f_mask = bits_set (bits_zero (nbits t))\<rparr>"

definition zero_packet :: field_set where
  "zero_packet = map zero_field known_types"

definition num_field :: "oxm_type \<Rightarrow> nat \<Rightarrow> oxm_field" where
  "num_field t v = \<lparr>f_type = t, f_value = bits_of (nbits t) v, f_mask = bits_set (bits_zero (nbits t))\<rparr>"

lemma bits_and_set [simp]: "length v = n \<Longrightarrow> bits_and v (bits_set (bits_zero n)) = v"
  by (rule list_eqI2) (auto simp: bits_simps)

lemma in_types_num [simp]: "t \<in> T \<Longrightarrow> in_types T (num_field t v)"
  by (simp add: in_types_def wf_exact_def wf_field_def wf_mask_def wf_value_def num_field_def
      exact_def mask_of_def value_of_def)

lemma in_types_zero [simp]: "t \<in> T \<Longrightarrow> in_types T (zero_field t)"
  by (simp add: in_types_def wf_exact_def wf_field_def wf_mask_def wf_value_def zero_field_def
      exact_def mask_of_def value_of_def)

lemma known_distinct: "distinct known_types"
  using distinct_map [of order_key known_types] unfolding order_keys_known by simp

lemma full_zero_packet: "full_fs (set known_types) zero_packet"
proof -
  have ty: "f_type (zero_field t) = t" for t by (simp add: zero_field_def)
  have "distinct_types zero_packet"
    using known_distinct coherentD [OF coherent_known]
    unfolding distinct_types_def zero_packet_def
    by (simp add: ty) (metis nth_eq_iff_index_eq nth_mem)
  moreover have "fs_find zero_packet t \<noteq> None" if "t \<in> set known_types" for t
    using that unfolding fs_find_def find_None_iff zero_packet_def
    by (metis imageI list.set_map ty type_eq_refl)
  ultimately show ?thesis
    by (auto simp: full_fs_def exact_fs_def list_all_iff zero_packet_def)
qed

lemma full_modified:
  "in_types (set known_types) f \<Longrightarrow> full_fs (set known_types) (fs_modify zero_packet f)"
  by (rule full_fs_modify(2) [OF coherent_known full_zero_packet])

lemma in_known [simp]: "ofb_in_port \<in> set known_types" "ofb_out_port \<in> set known_types"
  "ofb_eth_dst \<in> set known_types"
  by (simp_all add: known_types_def)

definition in_port_is :: "nat \<Rightarrow> oxm_field" where
  "in_port_is v = num_field ofb_in_port v"

lemma in_types_in_port [simp]: "in_types (set known_types) (in_port_is v)"
  by (simp add: in_port_is_def)

lemma in_types_fwd [simp]: "list_all (in_types (set known_types)) (policy_fields (fwd w))"
  by (simp add: fwd_def in_types_def wf_exact_def wf_field_def wf_mask_def wf_value_def
      exact_def mask_of_def value_of_def)

end
