(* ===== verification/Tracer.thy ===== *)
theory Tracer
  imports Sample_Packets
begin

text \<open>
  Recording what a packet handler looks at: the traceable packet of
  \<^verbatim>\<open>src/maple/TraceablePacketImpl.cc\<close>, the tracer of \<^verbatim>\<open>src/retic/tracer.cc\<close>
  and the handler runs of \<^verbatim>\<open>src/retic/leaf_applier.cc\<close>. The main results are that a
  traced packet answers like the packet itself, and that a trace determines the run: a packet
  that agrees with the trace of another packet makes the handler do the same.
\<close>

section \<open>Traceable packets\<close>

datatype obs = Load_obs oxm_field | Test_obs oxm_field bool

record 'p traced =
  tp_pkt :: 'p
  tp_cache :: field_set
  tp_trace :: "obs list"

text \<open>
  The operations read the wrapped packet through the parameters \<open>ld\<close> and \<open>md\<close>, its
  \<open>load\<close> and \<open>modify\<close>.
\<close>

definition tp_load :: "('p \<Rightarrow> oxm_mask \<Rightarrow> oxm_field) \<Rightarrow> 'p traced \<Rightarrow> oxm_mask \<Rightarrow> oxm_field \<times> 'p traced" where
  "tp_load ld s m =
     (let read = ld (tp_pkt s) m;
          explored = fs_load (tp_cache s) m;
          unexplored = and_not_mask read (mask_of explored)
      in if wildcard unexplored then (read, s)
         else (read, s\<lparr>tp_trace := tp_trace s @ [Load_obs unexplored],
                       tp_cache := fs_modify (tp_cache s) unexplored\<rparr>))"

definition tp_test :: "('p \<Rightarrow> oxm_mask \<Rightarrow> oxm_field) \<Rightarrow> 'p traced \<Rightarrow> oxm_field \<Rightarrow> bool \<times> 'p traced" where
  "tp_test ld s need =
     (let read = ld (tp_pkt s) (mask_of need);
          explored = fs_load (tp_cache s) (mask_of need);
          unexplored = and_not_mask read (mask_of explored)
      in if \<not> matches explored need then (False, s)
         else if wildcard unexplored then (True, s)
         else let ret = matches unexplored need;
                  s' = s\<lparr>tp_trace := tp_trace s @ [Test_obs (and_mask need (mask_of unexplored)) ret]\<rparr>
              in (ret, if ret then s'\<lparr>tp_cache := fs_modify (tp_cache s') unexplored\<rparr> else s'))"

definition tp_modify :: "('p \<Rightarrow> oxm_field \<Rightarrow> 'p) \<Rightarrow> 'p traced \<Rightarrow> oxm_field \<Rightarrow> 'p traced" where
  "tp_modify md s patch =
     s\<lparr>tp_pkt := md (tp_pkt s) patch, tp_cache := fs_modify (tp_cache s) patch\<rparr>"

section \<open>Running a handler\<close>

text \<open>\<open>ModTrackingPacket\<close> around the traceable packet collects the rewrites.\<close>

record 'p run_state =
  r_traced :: "'p traced"
  r_mods :: field_set

definition mt_modify :: "('p \<Rightarrow> oxm_field \<Rightarrow> 'p) \<Rightarrow> 'p run_state \<Rightarrow> oxm_field \<Rightarrow> 'p run_state" where
  "mt_modify md r patch =
     \<lparr>r_traced = tp_modify md (r_traced r) patch, r_mods = fs_modify (r_mods r) patch\<rparr>"

primrec run_handler :: "handler \<Rightarrow> ('p \<Rightarrow> oxm_mask \<Rightarrow> oxm_field) \<Rightarrow> ('p \<Rightarrow> oxm_field \<Rightarrow> 'p) \<Rightarrow>
  'p run_state \<Rightarrow> policy \<times> 'p run_state" where
  "run_handler (Return pol) ld md r = (pol, r)"
| "run_handler (Load m k) ld md r =
     (case tp_load ld (r_traced r) m of (f, s) \<Rightarrow> run_handler (k f) ld md (r\<lparr>r_traced := s\<rparr>))"
| "run_handler (Test f k) ld md r =
     (case tp_test ld (r_traced r) f of (b, s) \<Rightarrow> run_handler (k b) ld md (r\<lparr>r_traced := s\<rparr>))"
| "run_handler (Rewrite f h) ld md r = run_handler h ld md (mt_modify md r f)"

text \<open>A trace and the policy it ends with. \<open>Tracer::trace\<close> runs the handler on a fresh
  traceable packet and puts the rewrites it made in front of the policy it returned.\<close>

record trace =
  trace_values :: "obs list"
  trace_result :: policy

definition prefix_mods :: "field_set \<Rightarrow> policy \<Rightarrow> policy" where
  "prefix_mods mods p = foldl (\<lambda>acc f. Sequential (Modify f) acc) p mods"

definition run_init :: "'p \<Rightarrow> 'p run_state" where
  "run_init p = \<lparr>r_traced = \<lparr>tp_pkt = p, tp_cache = [], tp_trace = []\<rparr>, r_mods = []\<rparr>"

definition tracer_trace :: "('p \<Rightarrow> oxm_mask \<Rightarrow> oxm_field) \<Rightarrow> ('p \<Rightarrow> oxm_field \<Rightarrow> 'p) \<Rightarrow> handler \<Rightarrow> 'p \<Rightarrow> trace" where
  "tracer_trace ld md h p = (case run_handler h ld md (run_init p) of
     (pol, r) \<Rightarrow> \<lparr>trace_values = tp_trace (r_traced r), trace_result = prefix_mods (r_mods r) pol\<rparr>)"

text \<open>\<open>getTraces\<close>: every action unit of a leaf is run as a handler that first makes the
  unit's rewrites; a unit without a body returns \<open>id\<close>.\<close>

definition unit_handler :: "action_unit \<Rightarrow> handler" where
  "unit_handler u = foldr Rewrite (pred_actions u)
     (case body u of Some (i, h) \<Rightarrow> h | None \<Rightarrow> Return Ident)"

definition get_traces :: "('p \<Rightarrow> oxm_mask \<Rightarrow> oxm_field) \<Rightarrow> ('p \<Rightarrow> oxm_field \<Rightarrow> 'p) \<Rightarrow> leaf \<Rightarrow> 'p \<Rightarrow> trace list" where
  "get_traces ld md l p = map (\<lambda>u. tracer_trace ld md (unit_handler u) p) (sets l)"

section \<open>Runs without tracing\<close>

text \<open>What the handler does on the packet itself: the policy, the packet left, the rewrites.\<close>

primrec plain_run :: "handler \<Rightarrow> ('p \<Rightarrow> oxm_mask \<Rightarrow> oxm_field) \<Rightarrow> ('p \<Rightarrow> oxm_field \<Rightarrow> bool) \<Rightarrow>
  ('p \<Rightarrow> oxm_field \<Rightarrow> 'p) \<Rightarrow> 'p \<Rightarrow> field_set \<Rightarrow> policy \<times> 'p \<times> field_set" where
  "plain_run (Return pol) ld tst md p mods = (pol, p, mods)"
| "plain_run (Load m k) ld tst md p mods = plain_run (k (ld p m)) ld tst md p mods"
| "plain_run (Test f k) ld tst md p mods = plain_run (k (tst p f)) ld tst md p mods"
| "plain_run (Rewrite f h) ld tst md p mods = plain_run h ld tst md (md p f) (fs_modify mods f)"

text \<open>The fields and masks a handler uses are well formed and of the types of \<open>T\<close>.\<close>

primrec handler_ok :: "oxm_type set \<Rightarrow> handler \<Rightarrow> bool" where
  "handler_ok T (Return pol) = True"
| "handler_ok T (Load m k) = (wf_mask m \<and> m_type m \<in> T \<and> (\<forall>f. handler_ok T (k f)))"
| "handler_ok T (Test f k) = (wf_field f \<and> f_type f \<in> T \<and> (\<forall>b. handler_ok T (k b)))"
| "handler_ok T (Rewrite f h) = (wf_field f \<and> f_type f \<in> T \<and> handler_ok T h)"

lemma handler_induct [case_names Return Load Test Rewrite]:
  assumes "\<And>pol. P (Return pol)" "\<And>m k. (\<And>f. P (k f)) \<Longrightarrow> P (Load m k)"
    and "\<And>f k. (\<And>b. P (k b)) \<Longrightarrow> P (Test f k)" "\<And>f h. P h \<Longrightarrow> P (Rewrite f h)"
  shows "P h"
  by (rule handler.induct [of "\<lambda>_. True" P]) (auto intro: assms)

lemma handler_ok_foldr:
  "handler_ok T (foldr Rewrite fs h) \<longleftrightarrow> list_all (\<lambda>f. wf_field f \<and> f_type f \<in> T) fs \<and> handler_ok T h"
  by (induction fs) auto

section \<open>What tracing relies on\<close>

text \<open>
  A packet is known by the exact field \<open>val p t\<close> it has for every type; \<open>load\<close> masks that
  field and \<open>modify\<close> rewrites it.
\<close>

locale packet_view =
  fixes T :: "oxm_type set"
    and valid :: "'p \<Rightarrow> bool"
    and val :: "'p \<Rightarrow> oxm_type \<Rightarrow> oxm_field"
    and load :: "'p \<Rightarrow> oxm_mask \<Rightarrow> oxm_field"
    and modify :: "'p \<Rightarrow> oxm_field \<Rightarrow> 'p"
  assumes types: "coherent T"
    and val_exact: "valid p \<Longrightarrow> t \<in> T \<Longrightarrow> wf_exact (val p t)"
    and val_type: "valid p \<Longrightarrow> t \<in> T \<Longrightarrow> f_type (val p t) = t"
    and load_val: "valid p \<Longrightarrow> wf_mask m \<Longrightarrow> m_type m \<in> T \<Longrightarrow> load p m = and_mask (val p (m_type m)) m"
    and valid_modify: "valid p \<Longrightarrow> wf_field f \<Longrightarrow> f_type f \<in> T \<Longrightarrow> valid (modify p f)"
    and val_modify: "valid p \<Longrightarrow> wf_field f \<Longrightarrow> f_type f \<in> T \<Longrightarrow> t \<in> T \<Longrightarrow>
      val (modify p f) t = (if t = f_type f then rewrite (val p t) f else val p t)"

definition entry :: "field_set \<Rightarrow> oxm_type \<Rightarrow> oxm_field" where
  "entry fs t = (case fs_find fs t of None \<Rightarrow> wildcard_field t | Some f \<Rightarrow> f)"

lemma entry_Nil [simp]: "entry [] t = wildcard_field t"
  by (simp add: entry_def)

lemma entry_wf:
  assumes "coherent T" "wf_fs T fs" "t \<in> T"
  shows "wf_field (entry fs t)" "f_type (entry fs t) = t"
  using fs_find_wf [OF assms(2) _ assms(1,3)]
  by (auto simp: entry_def wf_wildcard_field split: option.splits)

lemma fs_load_entry: "fs_load fs m = and_mask (entry fs (m_type m)) m"
  by (simp add: fs_load_def entry_def split: option.splits)

lemma field_bits_eqI:
  assumes "wf_field a" "wf_field b" "f_type a = t" "f_type b = t"
    and m: "\<And>i. i < nbits t \<Longrightarrow> f_mask a ! i = f_mask b ! i"
    and v: "\<And>i. i < nbits t \<Longrightarrow> f_mask a ! i \<Longrightarrow> f_value a ! i = f_value b ! i"
  shows "a = b"
proof (rule field_eqI_nth [OF assms(1,2)])
  fix i assume i: "i < nbits (f_type a)"
  then show "f_mask a ! i = f_mask b ! i" using m assms(3) by simp
  show "f_value a ! i = f_value b ! i"
  proof (cases "f_mask a ! i")
    case True
    then show ?thesis using v i assms(3) by simp
  next
    case False
    then have "\<not> f_mask b ! i" using m i assms(3) by simp
    then show ?thesis
      using False i assms wf_field_value_mask [OF assms(1), of i] wf_field_value_mask [OF assms(2), of i] by auto
  qed
qed (use assms in simp)

lemma wildcard_field_nth [bits_simps]:
  "i < nbits t \<Longrightarrow> \<not> f_mask (wildcard_field t) ! i" "i < nbits t \<Longrightarrow> \<not> f_value (wildcard_field t) ! i"
  by (simp_all add: wildcard_field_def bits_simps)

lemma rewrite_from_wildcard: "wf_field f \<Longrightarrow> rewrite (wildcard_field (f_type f)) f = f"
  by (rule field_bits_eqI [where t = "f_type f"])
    (simp_all add: rewrite_nth wf_rewrite wf_wildcard_field wildcard_field_nth)

lemma entry_modify:
  assumes "coherent T" "wf_field f" "f_type f \<in> T" "t \<in> T"
  shows "entry (fs_modify fs f) t = (if t = f_type f then rewrite (entry fs t) f else entry fs t)"
proof (cases "t = f_type f")
  case True
  with assms show ?thesis
    by (cases "fs_find fs t") (simp_all add: entry_def fs_find_modify rewrite_idem rewrite_from_wildcard)
next
  case False
  then have "\<not> type_eq (f_type f) t" using assms by (auto dest: coherentD)
  with False show ?thesis by (simp add: entry_def fs_find_modify)
qed

section \<open>Bits known to the tracer\<close>

text \<open>
  The bits of a field outside what an entry fixes, and the relation between a traced packet,
  its cache and the packet the run started with.
\<close>

definition new_bits :: "oxm_field \<Rightarrow> oxm_field \<Rightarrow> oxm_mask \<Rightarrow> oxm_field" where
  "new_bits a e m = and_not_mask (and_mask a m) (mask_of (and_mask e m))"

lemma new_bits_props:
  assumes "wf_field a" "wf_field e" "wf_mask m" "f_type a = m_type m" "f_type e = m_type m"
  shows "wf_field (new_bits a e m)" "f_type (new_bits a e m) = m_type m"
    "i < nbits (m_type m) \<Longrightarrow> f_mask (new_bits a e m) ! i \<longleftrightarrow> f_mask a ! i \<and> m_mask m ! i \<and> \<not> f_mask e ! i"
    "i < nbits (m_type m) \<Longrightarrow> f_value (new_bits a e m) ! i \<longleftrightarrow> f_value a ! i \<and> m_mask m ! i \<and> \<not> f_mask e ! i"
proof -
  have am: "wf_field (and_mask a m)" and em: "wf_field (and_mask e m)"
    using assms by (auto intro: wf_and_mask)
  let ?n = "(mask_of (and_mask e m))\<lparr>m_mask := bits_not (f_mask (and_mask e m))\<rparr>"
  have n: "wf_mask ?n" using wf_mask_neg [OF wf_mask_of [OF em]] by simp
  have len: "length (f_mask (and_mask e m)) = nbits (m_type m)" using wf_field_length(2) [OF em] assms by simp
  have nb: "new_bits a e m = and_mask (and_mask a m) ?n" by (simp add: new_bits_def and_not_mask_def)
  show "wf_field (new_bits a e m)" "f_type (new_bits a e m) = m_type m"
    using am n assms by (auto simp: nb intro: wf_and_mask)
  show "i < nbits (m_type m) \<Longrightarrow> f_mask (new_bits a e m) ! i \<longleftrightarrow> f_mask a ! i \<and> m_mask m ! i \<and> \<not> f_mask e ! i"
    "i < nbits (m_type m) \<Longrightarrow> f_value (new_bits a e m) ! i \<longleftrightarrow> f_value a ! i \<and> m_mask m ! i \<and> \<not> f_mask e ! i"
    using assms am n len by (auto simp: nb and_mask_nth bits_simps)
qed

text \<open>An observation holds of a packet.\<close>

fun observes :: "('p \<Rightarrow> oxm_type \<Rightarrow> oxm_field) \<Rightarrow> 'p \<Rightarrow> obs \<Rightarrow> bool" where
  "observes val p (Load_obs f) = matches (val p (f_type f)) f"
| "observes val p (Test_obs f r) = (matches (val p (f_type f)) f = r)"

definition agrees :: "('p \<Rightarrow> oxm_type \<Rightarrow> oxm_field) \<Rightarrow> 'p \<Rightarrow> obs list \<Rightarrow> bool" where
  "agrees val p tr = list_all (observes val p) tr"

lemma agrees_simps [simp]:
  "agrees val p []" "agrees val p (x # tr) \<longleftrightarrow> observes val p x \<and> agrees val p tr"
  "agrees val p (tr @ tr') \<longleftrightarrow> agrees val p tr \<and> agrees val p tr'"
  by (simp_all add: agrees_def)

text \<open>The fields a trace records are well formed.\<close>

fun obs_field :: "obs \<Rightarrow> oxm_field" where
  "obs_field (Load_obs f) = f"
| "obs_field (Test_obs f r) = f"

definition obs_ok :: "oxm_type set \<Rightarrow> obs \<Rightarrow> bool" where
  "obs_ok T x = (wf_field (obs_field x) \<and> f_type (obs_field x) \<in> T)"

text \<open>The cache is right about the bits it knows; the others are those of the original packet.\<close>

definition traced_ok :: "oxm_type set \<Rightarrow> ('p \<Rightarrow> bool) \<Rightarrow> ('p \<Rightarrow> oxm_type \<Rightarrow> oxm_field) \<Rightarrow> 'p \<Rightarrow> 'p traced \<Rightarrow> bool"
where
  "traced_ok T valid val p0 s = (valid p0 \<and> valid (tp_pkt s) \<and> wf_fs T (tp_cache s) \<and>
     (\<forall>t \<in> T. \<forall>i < nbits t. f_value (val (tp_pkt s) t) ! i =
        (if f_mask (entry (tp_cache s) t) ! i then f_value (entry (tp_cache s) t) ! i
         else f_value (val p0 t) ! i)))"

context packet_view
begin

lemma val_mask: "valid p \<Longrightarrow> t \<in> T \<Longrightarrow> i < nbits t \<Longrightarrow> f_mask (val p t) ! i"
  using val_exact val_type wf_exact_nth by metis

lemma val_wf: "valid p \<Longrightarrow> t \<in> T \<Longrightarrow> wf_field (val p t)"
  using val_exact wf_exact_wf by blast

lemma matches_val:
  "valid p \<Longrightarrow> wf_field f \<Longrightarrow> f_type f = t \<Longrightarrow> t \<in> T \<Longrightarrow>
    matches (val p t) f \<longleftrightarrow> (\<forall>i < nbits t. f_mask f ! i \<longrightarrow> f_value (val p t) ! i = f_value f ! i)"
  by (subst matches_iff) (auto simp: val_wf val_type val_mask)

lemma and_mask_val_cong:
  assumes "valid p" "valid q" "t \<in> T" "wf_mask m" "m_type m = t"
    and "\<And>i. i < nbits t \<Longrightarrow> m_mask m ! i \<Longrightarrow> f_value (val p t) ! i = f_value (val q t) ! i"
  shows "and_mask (val p t) m = and_mask (val q t) m"
  by (rule field_bits_eqI [where t = t])
    (use assms in \<open>auto simp: and_mask_nth val_wf val_type val_mask wf_and_mask\<close>)

lemma traced_ok_init: "valid p \<Longrightarrow> traced_ok T valid val p \<lparr>tp_pkt = p, tp_cache = [], tp_trace = tr\<rparr>"
  by (auto simp: traced_ok_def wildcard_field_nth)

text \<open>Learning bits of the packet itself keeps the relation.\<close>

lemma traced_ok_learn:
  assumes s: "traced_ok T valid val p0 s" and u: "wf_field u" "f_type u \<in> T"
    and m: "matches (val (tp_pkt s) (f_type u)) u"
  shows "traced_ok T valid val p0 (s\<lparr>tp_cache := fs_modify (tp_cache s) u, tp_trace := tr\<rparr>)"
proof -
  have wf: "valid p0" "valid (tp_pkt s)" "wf_fs T (tp_cache s)" using s by (auto simp: traced_ok_def)
  note e = entry_wf [OF types wf(3)]
  have "f_value (val (tp_pkt s) t) ! i =
      (if f_mask (entry (fs_modify (tp_cache s) u) t) ! i then f_value (entry (fs_modify (tp_cache s) u) t) ! i
       else f_value (val p0 t) ! i)" if t: "t \<in> T" "i < nbits t" for t i
  proof (cases "t = f_type u")
    case True
    have "f_mask u ! i \<Longrightarrow> f_value (val (tp_pkt s) t) ! i = f_value u ! i"
      using m matches_val [OF wf(2) u(1)] True t by simp
    with True t u e [OF t(1)] s show ?thesis
      by (auto simp: entry_modify [OF types u] rewrite_nth traced_ok_def)
  next
    case False
    with t s show ?thesis by (simp add: entry_modify [OF types u] traced_ok_def)
  qed
  then show ?thesis using wf u by (simp add: traced_ok_def wf_fs_modify types)
qed

lemma traced_ok_modify:
  assumes s: "traced_ok T valid val p0 s" and u: "wf_field u" "f_type u \<in> T"
  shows "traced_ok T valid val p0 (tp_modify modify s u)"
proof -
  have wf: "valid p0" "valid (tp_pkt s)" "wf_fs T (tp_cache s)" using s by (auto simp: traced_ok_def)
  have "f_value (val (modify (tp_pkt s) u) t) ! i =
      (if f_mask (entry (fs_modify (tp_cache s) u) t) ! i then f_value (entry (fs_modify (tp_cache s) u) t) ! i
       else f_value (val p0 t) ! i)" if t: "t \<in> T" "i < nbits t" for t i
    using s wf t u entry_wf [OF types wf(3) t(1)] val_wf [OF wf(2) t(1)] val_type [OF wf(2) t(1)]
    by (auto simp: val_modify entry_modify [OF types u] rewrite_nth traced_ok_def)
  then show ?thesis
    using wf u by (simp add: traced_ok_def tp_modify_def wf_fs_modify types valid_modify)
qed

text \<open>The bits a load or a test would add, and what they say about the original packet.\<close>

lemma unexplored:
  assumes s: "traced_ok T valid val p0 s" and m: "wf_mask m" "m_type m \<in> T"
  defines "u \<equiv> new_bits (val (tp_pkt s) (m_type m)) (entry (tp_cache s) (m_type m)) m"
  shows "wf_field u" "f_type u = m_type m"
    "i < nbits (m_type m) \<Longrightarrow> f_mask u ! i \<longleftrightarrow> m_mask m ! i \<and> \<not> f_mask (entry (tp_cache s) (m_type m)) ! i"
    "i < nbits (m_type m) \<Longrightarrow> f_mask u ! i \<Longrightarrow> f_value u ! i = f_value (val (tp_pkt s) (m_type m)) ! i"
    "i < nbits (m_type m) \<Longrightarrow> f_mask u ! i \<Longrightarrow> f_value u ! i = f_value (val p0 (m_type m)) ! i"
    "matches (val (tp_pkt s) (m_type m)) u" "matches (val p0 (m_type m)) u"
proof -
  have wf: "valid p0" "valid (tp_pkt s)" "wf_fs T (tp_cache s)" using s by (auto simp: traced_ok_def)
  note nb = new_bits_props [OF val_wf [OF wf(2) m(2)] entry_wf(1) [OF types wf(3) m(2)] m(1)
      val_type [OF wf(2) m(2)] entry_wf(2) [OF types wf(3) m(2)]]
  show u: "wf_field u" "f_type u = m_type m" using nb unfolding u_def by auto
  show mk: "i < nbits (m_type m) \<Longrightarrow> f_mask u ! i \<longleftrightarrow> m_mask m ! i \<and> \<not> f_mask (entry (tp_cache s) (m_type m)) ! i" for i
    using nb(3) val_mask [OF wf(2) m(2)] unfolding u_def by auto
  show v: "i < nbits (m_type m) \<Longrightarrow> f_mask u ! i \<Longrightarrow> f_value u ! i = f_value (val (tp_pkt s) (m_type m)) ! i" for i
    using nb(3,4) unfolding u_def by auto
  show w: "i < nbits (m_type m) \<Longrightarrow> f_mask u ! i \<Longrightarrow> f_value u ! i = f_value (val p0 (m_type m)) ! i" for i
    using v [of i] mk [of i] s m by (simp add: traced_ok_def)
  show "matches (val (tp_pkt s) (m_type m)) u" "matches (val p0 (m_type m)) u"
    using matches_val [OF _ u m(2)] v w wf by auto
qed

section \<open>One step of a run\<close>

lemma tp_load_eq:
  assumes "traced_ok T valid val p0 s" "wf_mask m" "m_type m \<in> T"
  shows "tp_load load s m =
    (let u = new_bits (val (tp_pkt s) (m_type m)) (entry (tp_cache s) (m_type m)) m
     in (and_mask (val (tp_pkt s) (m_type m)) m,
         if wildcard u then s
         else s\<lparr>tp_cache := fs_modify (tp_cache s) u, tp_trace := tp_trace s @ [Load_obs u]\<rparr>))"
  using assms by (simp add: tp_load_def fs_load_entry load_val traced_ok_def new_bits_def Let_def)

lemma tp_test_eq:
  assumes "traced_ok T valid val p0 s" "wf_field need" "f_type need \<in> T"
  shows "tp_test load s need =
    (let u = new_bits (val (tp_pkt s) (f_type need)) (entry (tp_cache s) (f_type need)) (mask_of need);
         x = Test_obs (and_mask need (mask_of u)) (matches u need)
     in if \<not> matches (and_mask (entry (tp_cache s) (f_type need)) (mask_of need)) need then (False, s)
        else if wildcard u then (True, s)
        else (matches u need,
          if matches u need then s\<lparr>tp_cache := fs_modify (tp_cache s) u, tp_trace := tp_trace s @ [x]\<rparr>
          else s\<lparr>tp_trace := tp_trace s @ [x]\<rparr>))"
  using assms wf_mask_of [OF assms(2)]
  by (simp add: tp_test_def fs_load_entry load_val traced_ok_def new_bits_def Let_def)

lemma traced_ok_trace [simp]: "traced_ok T valid val p0 (s\<lparr>tp_trace := tr\<rparr>) = traced_ok T valid val p0 s"
  by (simp add: traced_ok_def)

lemma tp_load_step:
  assumes s: "traced_ok T valid val p0 s" and m: "wf_mask m" "m_type m \<in> T"
  obtains s' new where "tp_load load s m = (load (tp_pkt s) m, s')" "traced_ok T valid val p0 s'"
    "tp_pkt s' = tp_pkt s" "tp_trace s' = tp_trace s @ new" "agrees val p0 new" "list_all (obs_ok T) new"
proof -
  have v: "valid (tp_pkt s)" using s by (simp add: traced_ok_def)
  show thesis
    using tp_load_eq [OF s m] load_val [OF v m] unexplored [OF s m] traced_ok_learn [OF s, of _ "tp_trace s @ _"] m s
    by (intro that [of "snd (tp_load load s m)" "drop (length (tp_trace s)) (tp_trace (snd (tp_load load s m)))"])
      (auto simp: Let_def obs_ok_def)
qed

text \<open>The answer of a traced test is the packet's own answer.\<close>

lemma test_bits:
  assumes s: "traced_ok T valid val p0 s" and f: "wf_field f" "f_type f \<in> T"
  defines "e \<equiv> entry (tp_cache s) (f_type f)"
  defines "u \<equiv> new_bits (val (tp_pkt s) (f_type f)) e (mask_of f)"
  shows "matches (and_mask e (mask_of f)) f \<longleftrightarrow>
      (\<forall>i < nbits (f_type f). f_mask f ! i \<and> f_mask e ! i \<longrightarrow> f_value (val (tp_pkt s) (f_type f)) ! i = f_value f ! i)"
    "matches u f \<longleftrightarrow>
      (\<forall>i < nbits (f_type f). f_mask f ! i \<and> \<not> f_mask e ! i \<longrightarrow> f_value (val (tp_pkt s) (f_type f)) ! i = f_value f ! i)"
    "wildcard u \<longleftrightarrow> (\<forall>i < nbits (f_type f). f_mask f ! i \<longrightarrow> f_mask e ! i)"
    "wf_field (and_mask f (mask_of u))"
    "i < nbits (f_type f) \<Longrightarrow> f_mask (and_mask f (mask_of u)) ! i \<longleftrightarrow> f_mask f ! i \<and> \<not> f_mask e ! i"
    "i < nbits (f_type f) \<Longrightarrow> f_mask f ! i \<Longrightarrow> \<not> f_mask e ! i \<Longrightarrow> f_value (and_mask f (mask_of u)) ! i = f_value f ! i"
proof -
  have wf: "valid (tp_pkt s)" "wf_fs T (tp_cache s)" using s by (auto simp: traced_ok_def)
  have e: "wf_field e" "f_type e = f_type f" using entry_wf [OF types wf(2) f(2)] by (auto simp: e_def)
  have m: "wf_mask (mask_of f)" "m_type (mask_of f) \<in> T" using f by (auto intro: wf_mask_of)
  note u = unexplored [OF s m, simplified, folded e_def, folded u_def]
  have ev: "f_mask e ! i \<Longrightarrow> i < nbits (f_type f) \<Longrightarrow> f_value (val (tp_pkt s) (f_type f)) ! i = f_value e ! i" for i
    using s f by (simp add: traced_ok_def e_def)
  show "matches (and_mask e (mask_of f)) f \<longleftrightarrow>
      (\<forall>i < nbits (f_type f). f_mask f ! i \<and> f_mask e ! i \<longrightarrow> f_value (val (tp_pkt s) (f_type f)) ! i = f_value f ! i)"
    using e f m ev by (subst matches_iff) (auto simp: and_mask_nth wf_and_mask)
  show "matches u f \<longleftrightarrow>
      (\<forall>i < nbits (f_type f). f_mask f ! i \<and> \<not> f_mask e ! i \<longrightarrow> f_value (val (tp_pkt s) (f_type f)) ! i = f_value f ! i)"
    using f u by (subst matches_iff) auto
  show "wildcard u \<longleftrightarrow> (\<forall>i < nbits (f_type f). f_mask f ! i \<longrightarrow> f_mask e ! i)"
    using u(1-3) by (auto simp: wildcard_def bits_none_iff wf_field_length)
  have mu: "wf_mask (mask_of u)" using u by (auto intro: wf_mask_of)
  then show "wf_field (and_mask f (mask_of u))" using f u by (auto intro: wf_and_mask)
  show "i < nbits (f_type f) \<Longrightarrow> f_mask (and_mask f (mask_of u)) ! i \<longleftrightarrow> f_mask f ! i \<and> \<not> f_mask e ! i"
    "i < nbits (f_type f) \<Longrightarrow> f_mask f ! i \<Longrightarrow> \<not> f_mask e ! i \<Longrightarrow> f_value (and_mask f (mask_of u)) ! i = f_value f ! i"
    using f u mu by (auto simp: and_mask_nth)
qed

lemma test_observation:
  assumes s: "traced_ok T valid val p0 s" and f: "wf_field f" "f_type f \<in> T" and q: "valid q"
  defines "e \<equiv> entry (tp_cache s) (f_type f)"
  defines "u \<equiv> new_bits (val (tp_pkt s) (f_type f)) e (mask_of f)"
  shows "matches (val q (f_type f)) (and_mask f (mask_of u)) \<longleftrightarrow>
    (\<forall>i < nbits (f_type f). f_mask f ! i \<and> \<not> f_mask e ! i \<longrightarrow> f_value (val q (f_type f)) ! i = f_value f ! i)"
  using test_bits(4-6) [OF s f] matches_val [OF q, of "and_mask f (mask_of u)" "f_type f"] f(2)
  unfolding e_def u_def by auto

lemma tp_test_step:
  assumes s: "traced_ok T valid val p0 s" and f: "wf_field f" "f_type f \<in> T"
  obtains s' new where "tp_test load s f = (matches (val (tp_pkt s) (f_type f)) f, s')"
    "traced_ok T valid val p0 s'" "tp_pkt s' = tp_pkt s" "tp_trace s' = tp_trace s @ new" "agrees val p0 new" "list_all (obs_ok T) new"
proof -
  let ?e = "entry (tp_cache s) (f_type f)"
  let ?u = "new_bits (val (tp_pkt s) (f_type f)) ?e (mask_of f)"
  have v: "valid (tp_pkt s)" "valid p0" using s by (auto simp: traced_ok_def)
  have m: "wf_mask (mask_of f)" "m_type (mask_of f) \<in> T" using f by (auto intro: wf_mask_of)
  note u = unexplored [OF s m, simplified] and b = test_bits [OF s f]
  have mt: "matches (val (tp_pkt s) (f_type f)) f \<longleftrightarrow>
      matches (and_mask ?e (mask_of f)) f \<and> matches ?u f"
    using b(1,2) matches_val [OF v(1) f(1) refl f(2)] by auto
  have wc: "wildcard ?u \<Longrightarrow> matches ?u f" using b(2,3) by blast
  have ob: "observes val p0 (Test_obs (and_mask f (mask_of ?u)) (matches ?u f))"
    using test_observation [OF s f v(2)] b(2) s f(2) by (auto simp: traced_ok_def)
  have "traced_ok T valid val p0 (snd (tp_test load s f))"
    using traced_ok_learn [OF s u(1) _ , of "tp_trace s @ _"] u(2,6) f s
    by (auto simp: tp_test_eq [OF s f] Let_def)
  then show thesis
    using mt wc ob b(4) f
    by (intro that [of "snd (tp_test load s f)" "drop (length (tp_trace s)) (tp_trace (snd (tp_test load s f)))"])
      (auto simp: tp_test_eq [OF s f] Let_def obs_ok_def)
qed

section \<open>Two runs with one trace\<close>

definition twins :: "'p \<Rightarrow> 'p \<Rightarrow> 'p traced \<Rightarrow> 'p traced \<Rightarrow> bool" where
  "twins p0 q0 s s2 \<longleftrightarrow> traced_ok T valid val p0 s \<and> traced_ok T valid val q0 s2 \<and>
     tp_cache s2 = tp_cache s \<and> tp_trace s2 = tp_trace s"

lemma twins_new_bits:
  assumes tw: "twins p0 q0 s s2" and m: "wf_mask m" "m_type m \<in> T"
  defines "u \<equiv> new_bits (val (tp_pkt s) (m_type m)) (entry (tp_cache s) (m_type m)) m"
    and "u2 \<equiv> new_bits (val (tp_pkt s2) (m_type m)) (entry (tp_cache s) (m_type m)) m"
  shows "wildcard u2 = wildcard u"
    and "f_mask u2 = f_mask u"
    and "(\<forall>i < nbits (m_type m). f_mask u ! i \<longrightarrow> f_value (val q0 (m_type m)) ! i = f_value u ! i) \<Longrightarrow> u2 = u"
proof -
  have s: "traced_ok T valid val p0 s" "traced_ok T valid val q0 s2" "tp_cache s2 = tp_cache s"
    using tw by (auto simp: twins_def)
  note a = unexplored [OF s(1) m, folded u_def]
  note b = unexplored [OF s(2) m, unfolded s(3), folded u2_def]
  show mk: "f_mask u2 = f_mask u"
    by (rule list_eqI2) (use a(1-3) b(1-3) in \<open>auto simp: wf_field_length\<close>)
  then show "wildcard u2 = wildcard u" by (simp add: wildcard_def)
  show "u2 = u" if "\<forall>i < nbits (m_type m). f_mask u ! i \<longrightarrow> f_value (val q0 (m_type m)) ! i = f_value u ! i"
    by (rule field_bits_eqI [where t = "m_type m"]) (use a b mk that in auto)
qed

lemma twins_learn:
  assumes tw: "twins p0 q0 s s2" and u: "wf_field u" "f_type u \<in> T"
    and m: "matches (val (tp_pkt s) (f_type u)) u" "matches (val (tp_pkt s2) (f_type u)) u"
  shows "twins p0 q0 (s\<lparr>tp_cache := fs_modify (tp_cache s) u, tp_trace := tr\<rparr>)
    (s2\<lparr>tp_cache := fs_modify (tp_cache s2) u, tp_trace := tr\<rparr>)"
proof -
  have s: "traced_ok T valid val p0 s" "traced_ok T valid val q0 s2" "tp_cache s2 = tp_cache s"
    using tw by (auto simp: twins_def)
  show ?thesis
    using traced_ok_learn [OF s(1) u m(1), of tr] traced_ok_learn [OF s(2) u m(2), of tr] s(3)
    by (simp add: twins_def)
qed

lemma twins_load:
  assumes tw: "twins p0 q0 s s2" and m: "wf_mask m" "m_type m \<in> T"
    and r: "tp_load load s m = (r, s')" and ag: "agrees val q0 (tp_trace s')"
  shows "\<exists>s2'. tp_load load s2 m = (r, s2') \<and> twins p0 q0 s' s2'"
proof -
  let ?t = "m_type m"
  have s: "traced_ok T valid val p0 s" "traced_ok T valid val q0 s2" "tp_cache s2 = tp_cache s" "tp_trace s2 = tp_trace s"
    using tw by (auto simp: twins_def)
  have v: "valid (tp_pkt s)" "valid (tp_pkt s2)" "valid q0" using s by (auto simp: traced_ok_def)
  define u where "u = new_bits (val (tp_pkt s) ?t) (entry (tp_cache s) ?t) m"
  define u2 where "u2 = new_bits (val (tp_pkt s2) ?t) (entry (tp_cache s) ?t) m"
  note nb = twins_new_bits [OF tw m, folded u_def u2_def]
  note a = unexplored [OF s(1) m, folded u_def]
  note b = unexplored [OF s(2) m, unfolded s(3), folded u2_def]
  note l1 = tp_load_eq [OF s(1) m, folded u_def] and l2 = tp_load_eq [OF s(2) m, unfolded s(3,4), folded u2_def]
  have ob: "\<not> wildcard u \<Longrightarrow> u2 = u"
    using ag r l1 matches_val [OF v(3) a(1,2) m(2)] a(2)
    by (intro nb(3)) (auto simp: Let_def)
  have known: "f_value (val (tp_pkt s) ?t) ! i = f_value (val (tp_pkt s2) ?t) ! i"
    if i: "i < nbits ?t" "m_mask m ! i" for i
  proof (cases "f_mask (entry (tp_cache s) ?t) ! i")
    case True
    then show ?thesis using s m i unfolding traced_ok_def by auto
  next
    case False
    then have "f_mask u ! i" using a(3) i by simp
    moreover have "\<not> wildcard u"
      using \<open>f_mask u ! i\<close> i a(1,2) by (auto simp: wildcard_def bits_none_iff wf_field_length)
    ultimately show ?thesis using ob a(4) b(4) i by metis
  qed
  then have "and_mask (val (tp_pkt s2) ?t) m = and_mask (val (tp_pkt s) ?t) m"
    using v m by (intro and_mask_val_cong) auto
  then show ?thesis
    using r l1 l2 nb(1) ob tw twins_learn [OF tw a(1), of "tp_trace s @ [Load_obs u]"] a b s(3,4) m
    by (cases "wildcard u") (auto simp: Let_def)
qed

lemma twins_test:
  assumes tw: "twins p0 q0 s s2" and f: "wf_field f" "f_type f \<in> T"
    and r: "tp_test load s f = (r, s')" and ag: "agrees val q0 (tp_trace s')"
  shows "\<exists>s2'. tp_test load s2 f = (r, s2') \<and> twins p0 q0 s' s2'"
proof -
  let ?t = "f_type f" let ?e = "entry (tp_cache s) ?t"
  have s: "traced_ok T valid val p0 s" "traced_ok T valid val q0 s2" "tp_cache s2 = tp_cache s" "tp_trace s2 = tp_trace s"
    using tw by (auto simp: twins_def)
  have m: "wf_mask (mask_of f)" "m_type (mask_of f) \<in> T" using f by (auto intro: wf_mask_of)
  define u where "u = new_bits (val (tp_pkt s) ?t) ?e (mask_of f)"
  define u2 where "u2 = new_bits (val (tp_pkt s2) ?t) ?e (mask_of f)"
  note nb = twins_new_bits [OF tw m, simplified, folded u_def u2_def]
  note a = unexplored [OF s(1) m, simplified, folded u_def]
  note b = unexplored [OF s(2) m, unfolded s(3), simplified, folded u2_def]
  note l1 = tp_test_eq [OF s(1) f, folded u_def] and l2 = tp_test_eq [OF s(2) f, unfolded s(3,4), folded u2_def]
  note t1 = test_bits [OF s(1) f, folded u_def] and t2 = test_bits [OF s(2) f, unfolded s(3), folded u2_def]
  have vq: "valid q0" using s by (simp add: traced_ok_def)
  have um: "and_mask f (mask_of u2) = and_mask f (mask_of u)" by (simp add: and_mask_def nb(2))
  show ?thesis
  proof (cases "matches (and_mask ?e (mask_of f)) f \<and> \<not> wildcard u")
    case False
    then show ?thesis using l1 l2 nb(1) r tw by (auto simp: Let_def)
  next
    case True
    have "observes val q0 (Test_obs (and_mask f (mask_of u)) (matches u f))"
      using True ag r l1 by (auto simp: Let_def split: if_splits)
    then have "matches u f \<longleftrightarrow> matches (val q0 ?t) (and_mask f (mask_of u2))" by (simp add: um)
    also have "\<dots> \<longleftrightarrow> (\<forall>i < nbits ?t. f_mask f ! i \<and> \<not> f_mask ?e ! i \<longrightarrow> f_value (val q0 ?t) ! i = f_value f ! i)"
      using test_observation [OF s(2) f vq] unfolding s(3) u2_def by simp
    also have "\<dots> \<longleftrightarrow> matches u2 f"
      using t2(2) s(2,3) f(2) by (auto simp: traced_ok_def)
    finally have mm: "matches u2 f = matches u f" by simp
    have "u2 = u" if "matches u f"
    proof (rule field_bits_eqI [where t = ?t])
      fix i assume i: "i < nbits ?t" "f_mask u2 ! i"
      then have "f_mask f ! i" "f_mask u ! i" using b(3) nb(2) by auto
      then show "f_value u2 ! i = f_value u ! i"
        using that mm matches_iff [OF a(1) f(1)] matches_iff [OF b(1) f(1)] a(2) b(2) i by simp
    qed (use a b nb in auto)
    then show ?thesis
      using True r l1 l2 nb(1) mm um tw twins_learn [OF tw a(1), of "tp_trace s @ _"] a b s(3,4) f
      by (auto simp: Let_def twins_def split: if_splits)
  qed
qed

lemma twins_modify:
  "twins p0 q0 s s2 \<Longrightarrow> wf_field f \<Longrightarrow> f_type f \<in> T \<Longrightarrow> twins p0 q0 (tp_modify modify s f) (tp_modify modify s2 f)"
  using traced_ok_modify by (auto simp: twins_def) (simp_all add: tp_modify_def)

section \<open>Whole runs\<close>

lemma run_step:
  assumes "handler_ok T h" "traced_ok T valid val p0 (r_traced r)"
  shows "\<exists>r' new. run_handler h load modify r = (fst (plain_run h load (\<lambda>p f. matches (val p (f_type f)) f) modify
      (tp_pkt (r_traced r)) (r_mods r)), r') \<and>
    (tp_pkt (r_traced r'), r_mods r') = snd (plain_run h load (\<lambda>p f. matches (val p (f_type f)) f) modify
      (tp_pkt (r_traced r)) (r_mods r)) \<and>
    traced_ok T valid val p0 (r_traced r') \<and> tp_trace (r_traced r') = tp_trace (r_traced r) @ new \<and>
    agrees val p0 new \<and> list_all (obs_ok T) new"
  using assms
proof (induction h arbitrary: r rule: handler_induct)
  case (Load m k)
  obtain s' new where s: "tp_load load (r_traced r) m = (load (tp_pkt (r_traced r)) m, s')"
    "traced_ok T valid val p0 s'" "tp_pkt s' = tp_pkt (r_traced r)"
    "tp_trace s' = tp_trace (r_traced r) @ new" "agrees val p0 new" "list_all (obs_ok T) new"
    using tp_load_step [OF Load.prems(2), of m] Load.prems(1) by auto
  have ih: "handler_ok T (k (load (tp_pkt (r_traced r)) m))" using Load.prems by simp
  show ?case using Load.IH [OF ih, of "r\<lparr>r_traced := s'\<rparr>"] s by fastforce
next
  case (Test f k)
  let ?b = "matches (val (tp_pkt (r_traced r)) (f_type f)) f"
  obtain s' new where s: "tp_test load (r_traced r) f = (?b, s')"
    "traced_ok T valid val p0 s'" "tp_pkt s' = tp_pkt (r_traced r)"
    "tp_trace s' = tp_trace (r_traced r) @ new" "agrees val p0 new" "list_all (obs_ok T) new"
    using tp_test_step [OF Test.prems(2), of f] Test.prems(1) by auto
  have ih: "handler_ok T (k ?b)" using Test.prems by simp
  show ?case using Test.IH [OF ih, of "r\<lparr>r_traced := s'\<rparr>"] s by fastforce
next
  case (Rewrite f h)
  have "traced_ok T valid val p0 (r_traced (mt_modify modify r f))"
    using Rewrite.prems by (simp add: mt_modify_def traced_ok_modify)
  moreover have "tp_pkt (r_traced (mt_modify modify r f)) = modify (tp_pkt (r_traced r)) f"
    "tp_trace (r_traced (mt_modify modify r f)) = tp_trace (r_traced r)"
    "r_mods (mt_modify modify r f) = fs_modify (r_mods r) f"
    by (simp_all add: mt_modify_def tp_modify_def)
  ultimately show ?case using Rewrite.IH [of "mt_modify modify r f"] Rewrite.prems by simp
qed auto

lemma run_twins:
  assumes "handler_ok T h" "twins p0 q0 (r_traced r) (r_traced r2)" "r_mods r2 = r_mods r"
    and "run_handler h load modify r = (pol, r')" "agrees val q0 (tp_trace (r_traced r'))"
  shows "\<exists>r2'. run_handler h load modify r2 = (pol, r2') \<and> r_mods r2' = r_mods r' \<and>
    tp_trace (r_traced r2') = tp_trace (r_traced r')"
  using assms
proof (induction h arbitrary: r r2 rule: handler_induct)
  case (Return x)
  then show ?case by (auto simp: twins_def)
next
  case (Load m k)
  obtain f s' where l: "tp_load load (r_traced r) m = (f, s')" by fastforce
  have ok: "handler_ok T (k f)" using Load.prems by simp
  have run: "run_handler (k f) load modify (r\<lparr>r_traced := s'\<rparr>) = (pol, r')" using Load.prems l by simp
  have tr: "traced_ok T valid val p0 s'"
    using tp_load_step [of p0 "r_traced r" m] Load.prems l by (auto simp: twins_def)
  have "agrees val q0 (tp_trace s')"
    using run_step [OF ok, of p0 "r\<lparr>r_traced := s'\<rparr>"] tr run Load.prems(5) by auto
  then obtain s2' where l2: "tp_load load (r_traced r2) m = (f, s2')" "twins p0 q0 s' s2'"
    using twins_load [OF Load.prems(2) _ _ l] Load.prems(1) by auto
  show ?case using Load.IH [OF ok, of "r\<lparr>r_traced := s'\<rparr>" "r2\<lparr>r_traced := s2'\<rparr>"] l2 run Load.prems by auto
next
  case (Test f k)
  obtain b s' where l: "tp_test load (r_traced r) f = (b, s')" by fastforce
  have ok: "handler_ok T (k b)" using Test.prems by simp
  have run: "run_handler (k b) load modify (r\<lparr>r_traced := s'\<rparr>) = (pol, r')" using Test.prems l by simp
  have tr: "traced_ok T valid val p0 s'"
    using tp_test_step [of p0 "r_traced r" f] Test.prems l by (auto simp: twins_def)
  have "agrees val q0 (tp_trace s')"
    using run_step [OF ok, of p0 "r\<lparr>r_traced := s'\<rparr>"] tr run Test.prems(5) by auto
  then obtain s2' where l2: "tp_test load (r_traced r2) f = (b, s2')" "twins p0 q0 s' s2'"
    using twins_test [OF Test.prems(2) _ _ l] Test.prems(1) by auto
  show ?case using Test.IH [OF ok, of "r\<lparr>r_traced := s'\<rparr>" "r2\<lparr>r_traced := s2'\<rparr>"] l2 run Test.prems by auto
next
  case (Rewrite f h)
  have "twins p0 q0 (r_traced (mt_modify modify r f)) (r_traced (mt_modify modify r2 f))"
    using Rewrite.prems by (simp add: mt_modify_def twins_modify)
  moreover have "r_mods (mt_modify modify r2 f) = r_mods (mt_modify modify r f)"
    using Rewrite.prems by (simp add: mt_modify_def)
  ultimately show ?case using Rewrite.IH Rewrite.prems by simp
qed

theorem trace_correct:
  assumes "handler_ok T h" "valid p"
  shows "trace_result (tracer_trace load modify h p) =
      (case plain_run h load (\<lambda>p f. matches (val p (f_type f)) f) modify p [] of
         (pol, p', mods) \<Rightarrow> prefix_mods mods pol)"
    and "agrees val p (trace_values (tracer_trace load modify h p))"
    and "list_all (obs_ok T) (trace_values (tracer_trace load modify h p))"
  using run_step [OF assms(1), of p "run_init p"] traced_ok_init [OF assms(2), of "[]"]
  by (auto simp: tracer_trace_def run_init_def split: prod.splits)

theorem trace_determines:
  assumes "handler_ok T h" "valid p" "valid q"
    and "agrees val q (trace_values (tracer_trace load modify h p))"
  shows "tracer_trace load modify h q = tracer_trace load modify h p"
proof -
  obtain pol r' where r: "run_handler h load modify (run_init p) = (pol, r')" by fastforce
  have "twins p q (r_traced (run_init p)) (r_traced (run_init q))"
    using traced_ok_init [OF assms(2), of "[]"] traced_ok_init [OF assms(3), of "[]"]
    by (simp add: twins_def run_init_def)
  then show ?thesis
    using run_twins [OF assms(1) _ _ r, of p q "run_init q"] r assms(4)
    by (auto simp: tracer_trace_def run_init_def)
qed

end

section \<open>Field sets as packets\<close>

lemma wf_exact_rewrite:
  assumes "wf_exact a" "wf_field b" "f_type a = f_type b"
  shows "wf_exact (rewrite a b)"
proof -
  have a: "wf_field a" using assms(1) by (rule wf_exact_wf)
  have w: "wf_field (rewrite a b)" by (rule wf_rewrite [OF a assms(2,3)])
  then show ?thesis
    using rewrite_nth(1) [OF a assms(2,3)] wf_exact_nth [OF assms(1)] wf_field_length(2) [OF a]
    by (simp add: wf_exact_def exact_def bits_all_iff)
qed

lemma full_fs_entry:
  assumes "coherent T" "full_fs T fs" "t \<in> T"
  shows "in_types T (entry fs t)" "f_type (entry fs t) = t"
proof -
  obtain f where "fs_find fs t = Some f" "in_types T f" "f_type f = t"
    using full_fs_find [OF assms] by blast
  then show "in_types T (entry fs t)" "f_type (entry fs t) = t" by (simp_all add: entry_def)
qed

lemma full_fs_modify_wf:
  assumes T: "coherent T" and p: "full_fs T p" and f: "wf_field f" "f_type f \<in> T"
  shows "full_fs T (fs_modify p f)"
proof -
  obtain g where g: "fs_find p (f_type f) = Some g" using p f by (auto simp: full_fs_def)
  then have eq: "fs_modify p f = map (\<lambda>h. if type_eq (f_type h) (f_type f) then rewrite h f else h) p"
    by (simp add: fs_modify_def fs_replace_def)
  have "in_types T (rewrite h f)" if "h \<in> set p" "type_eq (f_type h) (f_type f)" for h
    using that p f coherentD [OF T, of "f_type h" "f_type f"] wf_exact_rewrite [of h f]
    by (simp add: full_fs_def exact_fs_def in_types_def list_all_iff)
  then have "list_all (in_types T) (fs_modify p f)"
    using p by (auto simp: eq list_all_iff full_fs_def exact_fs_def)
  moreover have "distinct_types (fs_modify p f)"
    using wf_fs_modify [OF exact_fs_wf _ _ T] p f by (simp add: full_fs_def wf_fs_def)
  ultimately show ?thesis using p by (auto simp: full_fs_def exact_fs_def fs_find_modify)
qed

lemma packet_view_fs:
  assumes T: "coherent T"
  shows "packet_view T (full_fs T) entry fs_load fs_modify"
proof
  fix p t m f
  assume p: "full_fs T p"
  show "t \<in> T \<Longrightarrow> wf_exact (entry p t)" "t \<in> T \<Longrightarrow> f_type (entry p t) = t"
    using full_fs_entry [OF T p] by (auto simp: in_types_def)
  show "fs_load p m = and_mask (entry p (m_type m)) m" by (rule fs_load_entry)
  assume f: "wf_field f" "f_type f \<in> T"
  then show "full_fs T (fs_modify p f)" by (rule full_fs_modify_wf [OF T p])
  show "t \<in> T \<Longrightarrow> entry (fs_modify p f) t = (if t = f_type f then rewrite (entry p t) f else entry p t)"
    using entry_modify [OF T f] .
qed (rule T)

interpretation fsv: packet_view "set known_types" "full_fs (set known_types)" entry fs_load fs_modify
  by (rule packet_view_fs [OF coherent_known])

lemma fs_test_entry:
  assumes "full_fs (set known_types) p" "wf_field f" "f_type f \<in> set known_types"
  shows "matches (entry p (f_type f)) f = fs_test p f"
proof -
  have e: "wf_field (entry p (f_type f))" "f_type (entry p (f_type f)) = f_type f"
    using assms fsv.val_wf fsv.val_type by auto
  show ?thesis
    using assms e wf_mask_of [OF assms(2)] fsv.val_mask [OF assms(1,3)]
    by (simp add: fs_test_def fs_load_entry matches_iff wf_and_mask and_mask_nth)
qed

lemma plain_run_fs:
  assumes "handler_ok (set known_types) h" "full_fs (set known_types) p"
  shows "plain_run h fs_load (\<lambda>p f. matches (entry p (f_type f)) f) fs_modify p mods =
    plain_run h fs_load fs_test fs_modify p mods"
  using assms
  by (induction h arbitrary: p mods rule: handler_induct)
    (auto simp: fs_test_entry full_fs_modify_wf [OF coherent_known])

text \<open>
  C31: tracing changes nothing. For every packet and every handler over well-formed fields, the
  traced run returns the policy that the handler returns on the packet itself, behind the
  rewrites it made there, and every recorded observation holds of the packet.
\<close>

theorem tracing_is_transparent:
  assumes "handler_ok (set known_types) h" "full_fs (set known_types) p"
  shows "trace_result (tracer_trace fs_load fs_modify h p) =
      (case plain_run h fs_load fs_test fs_modify p [] of (pol, p', mods) \<Rightarrow> prefix_mods mods pol) \<and>
    agrees entry p (trace_values (tracer_trace fs_load fs_modify h p))"
  using fsv.trace_correct [OF assms] plain_run_fs [OF assms] by simp

text \<open>A handler that forwards by input port, and loads a header it rewrites.\<close>

definition sample_handler :: handler where
  "sample_handler = Test (in_port_is 1) (\<lambda>b. if b then Return (fwd 2)
     else Rewrite (num_field ofb_eth_type 8) (Load (exact_mask ofb_eth_type) (\<lambda>f.
       Load (exact_mask ofb_eth_dst) (\<lambda>g. Return (if exact g then fwd 3 else Stop)))))"

lemma sample_handler_ok: "handler_ok (set known_types) sample_handler"
proof -
  have t: "ofb_eth_type \<in> set known_types" by (simp add: known_types_def)
  then have "in_types (set known_types) (num_field ofb_eth_type 8)" by simp
  moreover have "in_types (set known_types) (in_port_is 1)" by (rule in_types_in_port)
  moreover have "m_type (exact_mask u) = u" for u by (simp add: exact_mask_def)
  ultimately show ?thesis
    using t by (simp add: sample_handler_def wf_exact_mask in_types_def wf_exact_wf)
qed

theorem tracing_is_transparent_witness:
  "trace_result (tracer_trace fs_load fs_modify sample_handler zero_packet) =
     Sequential (Modify (num_field ofb_eth_type 8)) (fwd 3) \<and>
   agrees entry zero_packet (trace_values (tracer_trace fs_load fs_modify sample_handler zero_packet))"
proof -
  have "plain_run sample_handler fs_load fs_test fs_modify zero_packet [] =
    (fwd 3, fs_modify zero_packet (num_field ofb_eth_type 8), [num_field ofb_eth_type 8])"
  proof -
    have "\<not> fs_test zero_packet (in_port_is 1)" "fs_modify [] (num_field ofb_eth_type 8) = [num_field ofb_eth_type 8]"
      "exact (fs_load (fs_modify zero_packet (num_field ofb_eth_type 8)) (exact_mask ofb_eth_dst))" by code_simp+
    then show ?thesis by (simp add: sample_handler_def)
  qed
  with tracing_is_transparent [OF sample_handler_ok full_zero_packet] show ?thesis
    by (simp add: prefix_mods_def)
qed

text \<open>
  C25: a trace determines the run. Every packet that agrees with the observations recorded for
  another packet makes the handler record the same observations and return the same policy, so
  the rule installed for the trace serves all packets it matches.
\<close>

theorem trace_determines_run:
  assumes "handler_ok (set known_types) h" "full_fs (set known_types) p" "full_fs (set known_types) q"
    and "agrees entry q (trace_values (tracer_trace fs_load fs_modify h p))"
  shows "tracer_trace fs_load fs_modify h q = tracer_trace fs_load fs_modify h p"
  by (rule fsv.trace_determines [OF assms])

theorem trace_determines_run_witness:
  "tracer_trace fs_load fs_modify sample_handler (fs_modify zero_packet (num_field ofb_eth_type 7)) =
   tracer_trace fs_load fs_modify sample_handler zero_packet"
proof (rule trace_determines_run [OF sample_handler_ok full_zero_packet full_modified])
  show "agrees entry (fs_modify zero_packet (num_field ofb_eth_type 7))
      (trace_values (tracer_trace fs_load fs_modify sample_handler zero_packet))" by code_simp
qed (simp add: known_types_def)

end
