(* ===== verification/Trace_Merge.thy ===== *)
theory Trace_Merge
  imports Tracer
begin

text \<open>
  One leaf of a diagram can hold several handlers; \<open>mergeTrace\<close> of
  \<^verbatim>\<open>src/retic/tracer.cc\<close> joins their traces to the single trace that is put into the
  trace tree of the leaf, leaving out the bits that are known already.
\<close>

section \<open>The function\<close>

definition merge_obs :: "obs \<Rightarrow> obs list \<times> field_set \<Rightarrow> obs list \<times> field_set" where
  "merge_obs x acc = (case acc of (tr, cache) \<Rightarrow> (case x of
     Load_obs f \<Rightarrow>
       (let unexplored = and_not_mask f (mask_of (fs_load cache (mask_of f)))
        in if wildcard unexplored then (tr, cache)
           else (tr @ [Load_obs unexplored], fs_modify cache unexplored))
   | Test_obs f r \<Rightarrow>
       (let unexplored = and_not_mask f (mask_of (fs_load cache (mask_of f)))
        in if wildcard unexplored then (tr, cache)
           else (tr @ [Test_obs unexplored r], if r then fs_modify cache unexplored else cache))))"

definition merge_trace :: "trace list \<Rightarrow> field_set \<Rightarrow> trace res" where
  "merge_trace traces cache =
     (let (tr, _) = fold merge_obs (concat (map trace_values traces)) ([], cache)
      in case traces of
           [] \<Rightarrow> Inl Logic_error
         | t # ts \<Rightarrow> Inr \<lparr>trace_values = tr, trace_result = foldl policy_plus (trace_result t) (map trace_result ts)\<rparr>)"

section \<open>The bits of an observation that are not known yet\<close>

definition fresh_bits :: "field_set \<Rightarrow> oxm_field \<Rightarrow> oxm_field" where
  "fresh_bits cache f = and_not_mask f (mask_of (fs_load cache (mask_of f)))"

lemma and_mask_self: "wf_field f \<Longrightarrow> and_mask f (mask_of f) = f"
  by (rule field_bits_eqI [where t = "f_type f"])
    (auto simp: and_mask_nth wf_and_mask wf_mask_of)

lemma fresh_bits_props:
  assumes "coherent T" "wf_fs T cache" "wf_field f" "f_type f \<in> T"
  shows "wf_field (fresh_bits cache f)" "f_type (fresh_bits cache f) = f_type f"
    "i < nbits (f_type f) \<Longrightarrow>
      f_mask (fresh_bits cache f) ! i \<longleftrightarrow> f_mask f ! i \<and> \<not> f_mask (entry cache (f_type f)) ! i"
    "i < nbits (f_type f) \<Longrightarrow> f_mask (fresh_bits cache f) ! i \<Longrightarrow> f_value (fresh_bits cache f) ! i = f_value f ! i"
proof -
  have eq: "fresh_bits cache f = new_bits f (entry cache (f_type f)) (mask_of f)"
    using assms by (simp add: fresh_bits_def new_bits_def fs_load_entry and_mask_self)
  note nb = new_bits_props [OF assms(3) entry_wf(1) [OF assms(1,2,4)] wf_mask_of [OF assms(3)], folded eq]
  show "wf_field (fresh_bits cache f)" "f_type (fresh_bits cache f) = f_type f"
    using nb(1,2) entry_wf(2) [OF assms(1,2,4)] by auto
  show "i < nbits (f_type f) \<Longrightarrow>
      f_mask (fresh_bits cache f) ! i \<longleftrightarrow> f_mask f ! i \<and> \<not> f_mask (entry cache (f_type f)) ! i"
    "i < nbits (f_type f) \<Longrightarrow> f_mask (fresh_bits cache f) ! i \<Longrightarrow> f_value (fresh_bits cache f) ! i = f_value f ! i"
    using nb(3,4) entry_wf(2) [OF assms(1,2,4)] by auto
qed

lemma merge_obs_fresh:
  "merge_obs x (tr, cache) = (let u = fresh_bits cache (obs_field x) in
     if wildcard u then (tr, cache)
     else case x of
       Load_obs f \<Rightarrow> (tr @ [Load_obs u], fs_modify cache u)
     | Test_obs f r \<Rightarrow> (tr @ [Test_obs u r], if r then fs_modify cache u else cache))"
  by (cases x) (simp_all add: merge_obs_def fresh_bits_def Let_def)

text \<open>The known bits are those of the packet.\<close>

definition cache_right :: "oxm_type set \<Rightarrow> ('p \<Rightarrow> oxm_type \<Rightarrow> oxm_field) \<Rightarrow> 'p \<Rightarrow> field_set \<Rightarrow> bool" where
  "cache_right T val p cache = (wf_fs T cache \<and> (\<forall>t \<in> T. matches (val p t) (entry cache t)))"

text \<open>Whether the known bits of a field are as the field wants them; the packet is not needed to tell.\<close>

definition known_match :: "field_set \<Rightarrow> oxm_field \<Rightarrow> bool" where
  "known_match cache f = (\<forall>i < nbits (f_type f). f_mask f ! i \<and> f_mask (entry cache (f_type f)) ! i \<longrightarrow>
     f_value (entry cache (f_type f)) ! i = f_value f ! i)"

lemma merge_grows: "\<exists>new. fst (fold merge_obs xs (tr, cache)) = tr @ new"
proof (induction xs arbitrary: tr cache)
  case (Cons x xs)
  have "\<exists>n. fst (merge_obs x (tr, cache)) = tr @ n"
    by (cases x) (simp_all add: merge_obs_def Let_def)
  then obtain n where "fst (merge_obs x (tr, cache)) = tr @ n" ..
  then show ?case
    using Cons.IH [of "tr @ n" "snd (merge_obs x (tr, cache))"] by (cases "merge_obs x (tr, cache)") auto
qed simp

context packet_view
begin

lemma cache_right_Nil [simp]: "valid p \<Longrightarrow> cache_right T val p []"
  by (simp add: cache_right_def matches_val wf_wildcard_field wildcard_field_nth)

lemma cache_right_modify:
  assumes "cache_right T val p cache" "valid p" "wf_field u" "f_type u \<in> T" "matches (val p (f_type u)) u"
  shows "cache_right T val p (fs_modify cache u)"
proof -
  have c: "wf_fs T cache" using assms(1) by (simp add: cache_right_def)
  have "matches (val p t) (rewrite (entry cache t) u)" if "t \<in> T" "t = f_type u" for t
  proof -
    note e = entry_wf [OF types c that(1)]
    have "matches (val p t) (entry cache t)" using that assms(1) by (simp add: cache_right_def)
    then show ?thesis
      using that assms(2-) e by (auto simp: matches_val wf_rewrite rewrite_nth)
  qed
  then show ?thesis
    using assms c by (simp add: cache_right_def wf_fs_modify types entry_modify [OF types assms(3,4)])
qed

lemma matches_split:
  assumes "valid p" "cache_right T val p cache" "wf_field f" "f_type f \<in> T"
  shows "matches (val p (f_type f)) f \<longleftrightarrow>
    matches (val p (f_type f)) (fresh_bits cache f) \<and> known_match cache f"
proof -
  have c: "wf_fs T cache" "matches (val p (f_type f)) (entry cache (f_type f))"
    using assms by (auto simp: cache_right_def)
  note u = fresh_bits_props [OF types c(1) assms(3,4)] and e = entry_wf [OF types c(1) assms(4)]
  show ?thesis
    using c(2) u(3,4)
    unfolding matches_val [OF assms(1,3) refl assms(4)] matches_val [OF assms(1) u(1,2) assms(4)]
      matches_val [OF assms(1) e assms(4)] known_match_def
    by blast
qed

lemma wildcard_matches:
  "valid p \<Longrightarrow> wf_field u \<Longrightarrow> f_type u \<in> T \<Longrightarrow> wildcard u \<Longrightarrow> matches (val p (f_type u)) u"
  by (simp add: matches_val wildcard_def bits_none_iff wf_field_length)

lemma merge_obs_step:
  assumes p: "valid p" "cache_right T val p cache" "observes val p x"
    and q: "valid q" "cache_right T val q cache" and x: "obs_ok T x"
    and m: "merge_obs x (tr, cache) = (tr', cache')"
  obtains new where "tr' = tr @ new" "cache_right T val p cache'"
    "agrees val q new \<Longrightarrow> observes val q x \<and> cache_right T val q cache'"
proof -
  let ?f = "obs_field x" and ?u = "fresh_bits cache (obs_field x)"
  have f: "wf_field ?f" "f_type ?f \<in> T" "wf_fs T cache" using x p by (auto simp: obs_ok_def cache_right_def)
  note u = fresh_bits_props(1,2) [OF types f(3,1,2)]
  note sp = matches_split [OF p(1,2) f(1,2)] and sq = matches_split [OF q f(1,2)]
  have wc: "wildcard ?u \<Longrightarrow> matches (val p (f_type ?f)) ?u \<and> matches (val q (f_type ?f)) ?u"
    using wildcard_matches [OF p(1) u(1)] wildcard_matches [OF q(1) u(1)] u(2) f(2) by simp
  have cp: "matches (val p (f_type ?f)) ?u \<Longrightarrow> cache_right T val p (fs_modify cache ?u)"
    and cq: "matches (val q (f_type ?f)) ?u \<Longrightarrow> cache_right T val q (fs_modify cache ?u)"
    using cache_right_modify [OF p(2,1) u(1)] cache_right_modify [OF q(2,1) u(1)] u(2) f(2) by simp_all
  show thesis
  proof (cases x)
    case (Load_obs g)
    with m p q wc cp cq sp sq u show ?thesis
      by (cases "wildcard ?u") (auto simp: merge_obs_fresh Let_def intro: that [of "[]"] that [of "[Load_obs ?u]"])
  next
    case (Test_obs g r)
    with m p q wc cp cq sp sq u show ?thesis
      by (cases "wildcard ?u"; cases r)
        (auto simp: merge_obs_fresh Let_def intro: that [of "[]"] that [of "[Test_obs ?u r]"])
  qed
qed

lemma merge_fold:
  assumes "valid p" "valid q" "list_all (obs_ok T) xs" "agrees val p xs" "cache_right T val p cache" "cache_right T val q cache"
    and "fold merge_obs xs (tr, cache) = (tr', cache')"
  shows "\<exists>new. tr' = tr @ new \<and> (agrees val q new \<longrightarrow> agrees val q xs)"
  using assms(3-)
proof (induction xs arbitrary: tr cache)
  case (Cons x xs)
  obtain tr1 cache1 where m: "merge_obs x (tr, cache) = (tr1, cache1)" by fastforce
  obtain n1 where n1: "tr1 = tr @ n1" "cache_right T val p cache1"
    "agrees val q n1 \<Longrightarrow> observes val q x \<and> cache_right T val q cache1"
    using merge_obs_step [OF assms(1) Cons.prems(3) _ assms(2) Cons.prems(4) _ m] Cons.prems(1,2)
    by auto
  show ?case
  proof (cases "agrees val q n1")
    case True
    with Cons.IH [of cache1 tr1] Cons.prems n1 m show ?thesis by fastforce
  next
    case False
    have "\<exists>n2. tr' = tr1 @ n2" using merge_grows [of xs tr1 cache1] Cons.prems m by auto
    with False n1 show ?thesis by auto
  qed
qed simp

lemma merge_trace_agrees:
  assumes "valid p" "valid q" "cache_right T val p cache" "cache_right T val q cache"
    and "\<And>t. t \<in> set ts \<Longrightarrow> list_all (obs_ok T) (trace_values t) \<and> agrees val p (trace_values t)"
    and "merge_trace ts cache = Inr m" "agrees val q (trace_values m)" "t \<in> set ts"
  shows "agrees val q (trace_values t)"
proof -
  let ?xs = "concat (map trace_values ts)"
  obtain tr' cache' where f: "fold merge_obs ?xs ([], cache) = (tr', cache')" by fastforce
  then have "trace_values m = tr'" using assms(6) by (auto simp: merge_trace_def split: list.splits)
  moreover have "list_all (obs_ok T) ?xs" "agrees val p ?xs"
    using assms(5) by (auto simp: list_all_iff agrees_def)
  ultimately have "agrees val q ?xs"
    using merge_fold [OF assms(1,2) _ _ assms(3,4) f] assms(7) by auto
  then show ?thesis using assms(8) by (auto simp: list_all_iff agrees_def)
qed

text \<open>If all that was observed is exact, the packet of the traces agrees with the merged trace.\<close>

lemma merge_fold_exact:
  assumes "valid p" "list_all (obs_ok T) xs" "list_all (\<lambda>x. exact (obs_field x)) xs" "agrees val p xs"
    and "cache_right T val p cache" "\<forall>t \<in> T. exact (entry cache t) \<or> wildcard (entry cache t)"
  shows "\<exists>new. fst (fold merge_obs xs (tr, cache)) = tr @ new \<and> agrees val p new"
  using assms(2-)
proof (induction xs arbitrary: tr cache)
  case (Cons x xs)
  let ?f = "obs_field x" and ?u = "fresh_bits cache (obs_field x)"
  have f: "wf_field ?f" "f_type ?f \<in> T" "wf_fs T cache" "exact ?f"
    using Cons.prems by (auto simp: obs_ok_def cache_right_def)
  note u = fresh_bits_props [OF types f(3,1,2)] and e = entry_wf [OF types f(3,2)]
  consider "exact (entry cache (f_type ?f))" | "wildcard (entry cache (f_type ?f))"
    using Cons.prems(5) f by blast
  then show ?case
  proof cases
    case 1
    then have "wildcard ?u"
      using u(1-3) e by (auto simp: wildcard_def bits_none_iff wf_field_length exact_def bits_all_iff)
    then have "merge_obs x (tr, cache) = (tr, cache)" by (simp add: merge_obs_fresh Let_def)
    with Cons show ?thesis by simp
  next
    case 2
    then have eq: "?u = ?f"
      using u e f(1) by (intro field_bits_eqI [where t = "f_type ?f"])
        (auto simp: wildcard_def bits_none_iff wf_field_length)
    have ex: "exact (entry (fs_modify cache ?f) t) \<or> wildcard (entry (fs_modify cache ?f) t)" if "t \<in> T" for t
      using that Cons.prems(5) f e rewrite_exact [OF e(1) _ e(2)]
      by (simp add: entry_modify [OF types f(1,2) that] wf_exact_def)
    have cm: "matches (val p (f_type ?f)) ?f \<Longrightarrow> cache_right T val p (fs_modify cache ?f)"
      using cache_right_modify [OF Cons.prems(4) assms(1) f(1,2)] .
    have m: "merge_obs x (tr, cache) = (if wildcard ?f then (tr, cache)
        else (tr @ [x], if case x of Load_obs _ \<Rightarrow> True | Test_obs _ r \<Rightarrow> r then fs_modify cache ?f else cache))"
      using eq by (cases x) (simp_all add: merge_obs_fresh)
    show ?thesis
      unfolding fold.simps comp_apply m
      using Cons.prems ex cm Cons.IH [of cache "tr @ [x]"] Cons.IH [of "fs_modify cache ?f" "tr @ [x]"] Cons.IH [of cache tr]
      by (cases x) (auto split: if_splits)
  qed
qed simp

end

section \<open>Merged traces of field sets\<close>

lemma cache_right_fs:
  assumes "full_fs (set known_types) p" "wf_fs (set known_types) cache" "fs_match cache (fs_test p)"
  shows "cache_right (set known_types) entry p cache"
proof -
  have "matches (entry p t) (entry cache t)" if t: "t \<in> set known_types" for t
  proof (cases "fs_find cache t")
    case None
    then show ?thesis
      using fsv.cache_right_Nil [OF assms(1)] t by (simp add: cache_right_def entry_def)
  next
    case (Some f)
    then have "wf_field f" "f_type f = t" "f \<in> set cache"
      using fs_find_wf [OF assms(2) Some coherent_known t] fs_find_SomeD [OF Some] by auto
    then show ?thesis
      using Some assms(1,3) t fs_test_entry [of p f] by (simp add: entry_def fs_match_def list_all_iff)
  qed
  then show ?thesis using assms(2) by (simp add: cache_right_def)
qed

text \<open>
  C24: the rules made for the merged trace are right for all packets they match. If the packets
  \<open>p\<close> and \<open>q\<close> match the path of the leaf and \<open>q\<close> agrees with the trace merged from the
  handlers' traces for \<open>p\<close>, then the handlers have the same traces for \<open>q\<close>, hence the same
  policies.
\<close>

theorem merged_trace_determines_run:
  assumes "\<forall>u \<in> set (sets l). handler_ok (set known_types) (unit_handler u)"
    and "full_fs (set known_types) p" "full_fs (set known_types) q"
    and "wf_fs (set known_types) cache" "fs_match cache (fs_test p)" "fs_match cache (fs_test q)"
    and "merge_trace (get_traces fs_load fs_modify l p) cache = Inr m"
    and "agrees entry q (trace_values m)"
  shows "get_traces fs_load fs_modify l q = get_traces fs_load fs_modify l p \<and>
    merge_trace (get_traces fs_load fs_modify l q) cache = Inr m"
proof -
  have "tracer_trace fs_load fs_modify (unit_handler u) q = tracer_trace fs_load fs_modify (unit_handler u) p"
    if u: "u \<in> set (sets l)" for u
  proof (rule fsv.trace_determines [OF _ assms(2,3)])
    show "handler_ok (set known_types) (unit_handler u)" using u assms(1) by blast
    show "agrees entry q (trace_values (tracer_trace fs_load fs_modify (unit_handler u) p))"
      using fsv.trace_correct(2,3) assms(1,2) u
      by (intro fsv.merge_trace_agrees [OF assms(2,3) cache_right_fs cache_right_fs _ assms(7,8)])
        (auto simp: get_traces_def assms)
  qed
  then have "get_traces fs_load fs_modify l q = get_traces fs_load fs_modify l p"
    by (simp add: get_traces_def)
  with assms(7) show ?thesis by simp
qed

lemma lone_unit: "\<forall>u \<in> set (sets (mk_leaf [Action_unit [] (Some (1, sample_handler)) None] default_settings)).
    handler_ok (set known_types) (unit_handler u)"
  by (simp add: unit_handler_def sample_handler_ok)

theorem merged_trace_determines_run_witness:
  "get_traces fs_load fs_modify (mk_leaf [Action_unit [] (Some (1, sample_handler)) None] default_settings)
     (fs_modify zero_packet (num_field ofb_eth_type 7)) =
   get_traces fs_load fs_modify (mk_leaf [Action_unit [] (Some (1, sample_handler)) None] default_settings) zero_packet"
proof -
  let ?l = "mk_leaf [Action_unit [] (Some (1, sample_handler)) None] default_settings"
  let ?q = "fs_modify zero_packet (num_field ofb_eth_type 7)"
  have "case merge_trace (get_traces fs_load fs_modify ?l zero_packet) [] of
     Inl e \<Rightarrow> False | Inr m \<Rightarrow> agrees entry ?q (trace_values m)" by code_simp
  then obtain m where m: "merge_trace (get_traces fs_load fs_modify ?l zero_packet) [] = Inr m"
    "agrees entry ?q (trace_values m)" by (auto split: sum.splits)
  have q: "full_fs (set known_types) ?q" by (rule full_modified) (simp add: known_types_def)
  show ?thesis
    using merged_trace_determines_run [OF lone_unit full_zero_packet q wf_fs_Nil _ _ m]
    by (simp add: fs_match_def)
qed

text \<open>
  The converse holds when the handlers only look at whole headers: a packet that matches the
  path of the leaf agrees with the trace merged from its own run, so it uses the rules made for
  it.
\<close>

lemma merged_trace_accepts_exact:
  assumes "\<forall>u \<in> set (sets l). handler_ok (set known_types) (unit_handler u)"
    and "full_fs (set known_types) p" "exact_fs (set known_types) cache" "fs_match cache (fs_test p)"
    and "\<forall>t \<in> set (get_traces fs_load fs_modify l p). list_all (\<lambda>x. exact (obs_field x)) (trace_values t)"
    and "merge_trace (get_traces fs_load fs_modify l p) cache = Inr m"
  shows "agrees entry p (trace_values m)"
proof -
  let ?T = "set known_types"
  let ?xs = "concat (map trace_values (get_traces fs_load fs_modify l p))"
  have wf: "wf_fs ?T cache" using assms(3) by (rule exact_fs_wf)
  have "list_all (obs_ok ?T) ?xs" "agrees entry p ?xs"
    using fsv.trace_correct(2,3) assms(1,2) by (auto simp: get_traces_def list_all_iff agrees_def)
  moreover have "list_all (\<lambda>x. exact (obs_field x)) ?xs" using assms(5) by (auto simp: list_all_iff)
  moreover have "\<forall>t \<in> ?T. exact (entry cache t) \<or> wildcard (entry cache t)"
    using assms(3) fs_find_SomeD
    by (fastforce simp: entry_def exact_fs_def list_all_iff in_types_def wf_exact_def split: option.splits)
  ultimately have "\<exists>new. fst (fold merge_obs ?xs ([], cache)) = [] @ new \<and> agrees entry p new"
    by (intro fsv.merge_fold_exact [OF assms(2) _ _ _ cache_right_fs [OF assms(2) wf assms(4)]])
  then show ?thesis using assms(6) by (auto simp: merge_trace_def split: list.splits prod.splits)
qed

theorem merged_trace_accepts_exact_witness:
  "case merge_trace (get_traces fs_load fs_modify (mk_leaf [Action_unit [] (Some (1, sample_handler)) None] default_settings)
     zero_packet) [] of Inl e \<Rightarrow> False | Inr m \<Rightarrow> agrees entry zero_packet (trace_values m)"
proof -
  let ?l = "mk_leaf [Action_unit [] (Some (1, sample_handler)) None] default_settings"
  let ?ts = "get_traces fs_load fs_modify ?l zero_packet"
  have "?ts \<noteq> []" by (simp add: get_traces_def)
  then have "\<exists>m. merge_trace ?ts [] = Inr m"
    by (cases ?ts) (simp_all add: merge_trace_def split_beta)
  then obtain m where m: "merge_trace ?ts [] = Inr m" ..
  have "list_all (\<lambda>t. list_all (\<lambda>x. exact (obs_field x)) (trace_values t)) ?ts" by code_simp
  then have "\<forall>t \<in> set ?ts. list_all (\<lambda>x. exact (obs_field x)) (trace_values t)" by (simp add: list_all_iff)
  from merged_trace_accepts_exact [OF lone_unit full_zero_packet exact_fs_Nil _ this m] m
  show ?thesis by (simp add: fs_match_def)
qed

definition low_bit :: oxm_mask where
  "low_bit = \<lparr>m_type = ofb_eth_dst, m_mask = bits_of 48 1\<rparr>"

definition two_handlers :: leaf where
  "two_handlers = mk_leaf
     [Action_unit [] (Some (1, Load low_bit (\<lambda>f. Return Ident))) None,
      Action_unit [] (Some (2, Test (num_field ofb_eth_dst 1) (\<lambda>b. Return Stop))) None] default_settings"

text \<open>
  The converse can fail. Here the first handler loads the lowest bit of a header, the second
  one tests the whole header for another value, and the packet does not agree with the trace
  merged from its own run: the test is cut down to the bits that are not known yet and recorded
  as failed, although it failed on the known ones.
\<close>

lemma merged_trace_rejects_its_packet:
  "case merge_trace (get_traces fs_load fs_modify two_handlers zero_packet) [] of
     Inl e \<Rightarrow> False
   | Inr m \<Rightarrow> \<not> agrees entry zero_packet (trace_values m)"
  by code_simp

end
