(* ===== verification/Fdd_Correct.thy ===== *)
theory Fdd_Correct
  imports Fdd
begin

text \<open>
  Correctness of the policy compiler: every composition returns on diagrams over exact fields
  of comparable types, and the compiled diagram gives each packet the outcomes and the timeouts
  the policy means. The development is generic in the packet implementation (the locale
  \<open>fdd_ops\<close>) and is interpreted on field sets that fix every known header.
\<close>

section \<open>Parallel composition\<close>

definition par_spec ::
  "oxm_type set \<Rightarrow> ('p \<Rightarrow> bool) \<Rightarrow> ('p \<Rightarrow> oxm_field \<Rightarrow> bool) \<Rightarrow> diagram \<Rightarrow> diagram \<Rightarrow> diagram \<Rightarrow> bool"
where
  "par_spec T valid tst l r d = (diagram_ok T d \<and>
     (diagram_static l \<and> diagram_static r \<longrightarrow> diagram_static d) \<and>
     (\<forall>p. valid p \<longrightarrow>
        mset (sets (eval_fdd tst d p)) =
          mset (sets (eval_fdd tst l p)) + mset (sets (eval_fdd tst r p)) \<and>
        flow_settings_of (eval_fdd tst d p) =
          settings_meet (flow_settings_of (eval_fdd tst l p)) (flow_settings_of (eval_fdd tst r p))))"

definition par_good ::
  "oxm_type set \<Rightarrow> ('p \<Rightarrow> bool) \<Rightarrow> ('p \<Rightarrow> oxm_field \<Rightarrow> bool) \<Rightarrow> diagram \<Rightarrow> diagram \<Rightarrow> bool" where
  "par_good T valid tst l r = (\<exists>d. par l r = Some d \<and> par_spec T valid tst l r d)"

lemma par_specD:
  assumes "par_spec T valid tst l r d"
  shows "diagram_ok T d" "diagram_static l \<Longrightarrow> diagram_static r \<Longrightarrow> diagram_static d"
    "valid p \<Longrightarrow> mset (sets (eval_fdd tst d p)) =
      mset (sets (eval_fdd tst l p)) + mset (sets (eval_fdd tst r p))"
    "valid p \<Longrightarrow> flow_settings_of (eval_fdd tst d p) =
      settings_meet (flow_settings_of (eval_fdd tst l p)) (flow_settings_of (eval_fdd tst r p))"
  using assms by (auto simp: par_spec_def)

lemma par_spec_sym: "par_spec T valid tst l r d \<Longrightarrow> par_spec T valid tst r l d"
  by (auto simp: par_spec_def add.commute settings_meet_commute)

fun dsize :: "diagram \<Rightarrow> nat" where
  "dsize (Leaf l) = 1"
| "dsize (Node f p n) = 1 + dsize p + dsize n"

lemma dsize_pos [simp]: "0 < dsize d"
  by (cases d) auto

text \<open>The calls of the composition that do not exchange the operands.\<close>

fun direct :: "diagram \<Rightarrow> diagram \<Rightarrow> bool" where
  "direct (Leaf a) r = (case r of Leaf b \<Rightarrow> True | Node g q m \<Rightarrow> False)"
| "direct (Node f p n) r = (case r of Leaf b \<Rightarrow> True | Node g q m \<Rightarrow>
     field_eq f g \<or> type_eq (f_type f) (f_type g) \<and> bits_less (f_value f) (f_value g) \<or>
     \<not> type_eq (f_type f) (f_type g) \<and> compare_types (f_type f) (f_type g) > 0)"

lemma par_swap:
  assumes "\<not> direct l r"
  shows "par l r = par r l"
proof (cases l)
  case (Leaf a)
  with assms show ?thesis by (subst par.simps) (auto split: diagram.splits)
next
  case (Node f p n)
  with assms show ?thesis by (subst par.simps) (auto split: diagram.splits)
qed

text \<open>
  What a diagram does to a bag of outcomes of an earlier policy, and the timeouts that result
  from those of the earlier policy.
\<close>

definition after :: "('p \<Rightarrow> oxm_field \<Rightarrow> bool) \<Rightarrow> ('p \<Rightarrow> oxm_field \<Rightarrow> 'p) \<Rightarrow> diagram \<Rightarrow>
  'p outcome multiset \<Rightarrow> 'p outcome multiset" where
  "after tst md rhs M = (\<Sum>x \<in># M. outcomes md (eval_fdd tst rhs (fst x)) (fst x))"

definition after_settings :: "('p \<Rightarrow> oxm_field \<Rightarrow> bool) \<Rightarrow> diagram \<Rightarrow> flow_settings \<Rightarrow>
  'p outcome multiset \<Rightarrow> flow_settings" where
  "after_settings tst rhs s M =
     fold_mset settings_meet s (image_mset (\<lambda>x. flow_settings_of (eval_fdd tst rhs (fst x))) M)"

definition leaf_is :: "('p \<Rightarrow> oxm_field \<Rightarrow> 'p) \<Rightarrow> 'p outcome multiset \<Rightarrow> flow_settings \<Rightarrow> leaf \<Rightarrow> 'p \<Rightarrow> bool"
where
  "leaf_is md M s l p = (outcomes md l p = M \<and> flow_settings_of l = s)"

lemma after_simps [simp]:
  "after tst md rhs {#} = {#}"
  "after tst md rhs (add_mset x M) = outcomes md (eval_fdd tst rhs (fst x)) (fst x) + after tst md rhs M"
  by (simp_all add: after_def)

lemma after_settings_simps [simp]:
  "after_settings tst rhs s {#} = s"
  "after_settings tst rhs s (add_mset x M) =
     after_settings tst rhs (settings_meet s (flow_settings_of (eval_fdd tst rhs (fst x)))) M"
  by (simp_all add: after_settings_def settings_fold.fold_mset_fun_left_comm settings_meet_commute)

lemma clamped_after:
  "M \<noteq> {#} \<Longrightarrow> clamped (after_settings tst rhs s M)"
proof (induction M arbitrary: s)
  case (add x M)
  then show ?case by (cases "M = {#}") auto
qed simp

lemma outcomes_mset:
  "mset (sets c) = mset (sets a) + mset (sets b) \<Longrightarrow> outcomes md c p = outcomes md a p + outcomes md b p"
  by (simp add: outcomes_def)

lemma outcomes_empty: "outcomes md l p = {#} \<longleftrightarrow> sets l = []"
  by (simp add: outcomes_def)

definition seq_spec :: "('p \<Rightarrow> oxm_field \<Rightarrow> bool) \<Rightarrow> ('p \<Rightarrow> oxm_field \<Rightarrow> 'p) \<Rightarrow> leaf \<Rightarrow> diagram \<Rightarrow>
  leaf \<Rightarrow> 'p \<Rightarrow> bool" where
  "seq_spec tst md a rhs c p = (clamped (flow_settings_of c) \<and>
     (let M = outcomes md a p in leaf_is md (after tst md rhs M)
        (if M = {#} then default_settings else after_settings tst rhs (flow_settings_of a) M) c p))"

locale fdd_ops = packet_ops +
  assumes comparable: "comparable T"
begin

lemma swapped_direct:
  assumes "\<not> direct l r" "diagram_ok T l" "diagram_ok T r"
  shows "direct r l"
proof (cases l)
  case (Leaf a)
  with assms show ?thesis by (cases r) auto
next
  case l: (Node f p n)
  with assms obtain g q m where r: "r = Node g q m" by (cases r) auto
  have f: "in_types T f" and g: "in_types T g" using assms l r by auto
  show ?thesis
  proof (cases "type_eq (f_type f) (f_type g)")
    case True
    then have ty: "f_type f = f_type g" using f g in_types_eqI by blast
    have "f_value f \<noteq> f_value g"
      using assms(1) l r ty f g wf_exact_eqI [of f g] by (auto simp: in_types_def)
    moreover have "length (f_value f) = length (f_value g)"
      using f g ty by (simp add: in_types_def wf_field_length wf_exact_wf)
    ultimately show ?thesis
      using assms(1) l r True bits_less_total [of "f_value f" "f_value g"] by (auto simp: type_eq_sym)
  next
    case False
    then have "f_type f \<noteq> f_type g" by auto
    then have "compare_types (f_type g) (f_type f) > 0"
      using assms(1) l r False f g comparableD [OF comparable, of "f_type f" "f_type g"]
      by (auto simp: in_types_def)
    then show ?thesis using l r False by (simp add: type_eq_sym)
  qed
qed

lemma field_eq_in_types: "in_types T f \<Longrightarrow> in_types T g \<Longrightarrow> field_eq f g \<longleftrightarrow> f = g"
  using field_eq_coherent [OF types, of f g] by (auto simp: in_types_def)

text \<open>A node that splits both operands on a field is correct when each branch is the
  composition of what the operands are there.\<close>

lemma par_node:
  assumes f: "in_types T f"
    and p: "par_good T valid test lp rp" and n: "par_good T valid test ln rn"
    and lp: "\<And>q. valid q \<Longrightarrow> test q f \<Longrightarrow>
      eval_fdd test l q = eval_fdd test lp q \<and> eval_fdd test r q = eval_fdd test rp q"
    and ln: "\<And>q. valid q \<Longrightarrow> \<not> test q f \<Longrightarrow>
      eval_fdd test l q = eval_fdd test ln q \<and> eval_fdd test r q = eval_fdd test rn q"
    and st: "diagram_static l \<and> diagram_static r \<Longrightarrow>
      diagram_static lp \<and> diagram_static rp \<and> diagram_static ln \<and> diagram_static rn"
    and eq: "par l r = Option.bind (par lp rp)
      (\<lambda>p'. Option.bind (par ln rn) (\<lambda>n'. Some (Node f p' n')))"
  shows "par_good T valid test l r"
proof -
  from p obtain p' where p': "par lp rp = Some p'" "par_spec T valid test lp rp p'"
    by (auto simp: par_good_def)
  from n obtain n' where n': "par ln rn = Some n'" "par_spec T valid test ln rn n'"
    by (auto simp: par_good_def)
  have "par_spec T valid test l r (Node f p' n')"
    using f lp ln st p'(2) n'(2) by (auto simp: par_spec_def)
  with eq p' n' show ?thesis by (simp add: par_good_def)
qed

text \<open>One call that does not exchange its operands, the recursive calls being correct.\<close>

lemma par_direct:
  assumes IH: "\<And>l' r'. dsize l' + dsize r' < dsize l + dsize r \<Longrightarrow> diagram_ok T l' \<Longrightarrow>
      diagram_ok T r' \<Longrightarrow> par_good T valid test l' r'"
    and dir: "direct l r" and ok: "diagram_ok T l" "diagram_ok T r"
  shows "par_good T valid test l r"
proof (cases l)
  case (Leaf a)
  with dir obtain b where r: "r = Leaf b" by (cases r) auto
  with Leaf have "par l r = Some (Leaf (leaf_par a b))" by (subst par.simps) simp
  with Leaf r ok show ?thesis by (simp add: par_good_def par_spec_def leaf_par_def)
next
  case l: (Node f p n)
  have f: "in_types T f" using ok l by simp
  show ?thesis
  proof (cases r)
    case r: (Leaf b)
    show ?thesis
      by (rule par_node [OF f IH IH, of p r n r]; use l r ok in \<open>(subst par.simps)?; simp\<close>)
  next
    case r: (Node g q m)
    have g: "in_types T g" using ok r by simp
    consider (eq) "f = g" | (ty) "f \<noteq> g" "f_type f = f_type g" "bits_less (f_value f) (f_value g)"
      | (other) "f \<noteq> g" "\<not> type_eq (f_type f) (f_type g)" "compare_types (f_type f) (f_type g) > 0"
      using dir l r f g field_eq_in_types in_types_eqI by auto
    then show ?thesis
    proof cases
      case eq
      show ?thesis
        by (rule par_node [OF f IH IH, of p q n m]; use l r ok eq in \<open>(subst par.simps)?; simp\<close>)
    next
      case ty
      have "eval_fdd test r x = eval_fdd test m x" if "valid x" "test x f" for x
        using test_unique [of x f g] that ty f g r by auto
      then show ?thesis
        by (intro par_node [OF f IH IH, of p m n r];
            use l r ok f g ty in \<open>(subst par.simps)?; simp add: field_eq_in_types\<close>)
    next
      case other
      show ?thesis
        by (rule par_node [OF f IH IH, of p r n r];
            use l r ok f g other in \<open>(subst par.simps)?; simp add: field_eq_in_types\<close>)
    qed
  qed
qed

lemma par_correct: "diagram_ok T l \<Longrightarrow> diagram_ok T r \<Longrightarrow> par_good T valid test l r"
proof (induction "dsize l + dsize r" arbitrary: l r rule: less_induct)
  case less
  show ?case
  proof (cases "direct l r")
    case True
    show ?thesis by (rule par_direct [OF _ True]) (use less in simp_all)
  next
    case False
    have "par_good T valid test r l"
      by (rule par_direct [OF _ swapped_direct [OF False]])
        (use less in \<open>simp_all add: add.commute\<close>)
    then show ?thesis using par_swap [OF False] par_spec_sym by (auto simp: par_good_def)
  qed
qed

section \<open>Restriction, sequencing, negation\<close>

lemma restrict_true_correct:
  "diagram_ok T d \<Longrightarrow> in_types T f \<Longrightarrow> diagram_ok T (restrict_true f d) \<and>
    (diagram_static d \<longrightarrow> diagram_static (restrict_true f d)) \<and>
    (\<forall>p. valid p \<longrightarrow>
      eval_fdd test (restrict_true f d) p = (if test p f then eval_fdd test d p else stop_leaf))"
proof (induction d rule: diagram_induct)
  case (Node g dp dn)
  have g: "in_types T g" using Node.prems by simp
  have "test p f \<Longrightarrow> valid p \<Longrightarrow> type_eq (f_type g) (f_type f) \<Longrightarrow> g \<noteq> f \<Longrightarrow> \<not> test p g" for p
    using test_unique [of p f g] in_types_eqI [of g f] g Node.prems(2) by auto
  with Node g show ?case by (auto simp: field_eq_in_types)
qed simp

lemma restrict_false_correct:
  "diagram_ok T d \<Longrightarrow> in_types T f \<Longrightarrow> diagram_ok T (restrict_false f d) \<and>
    (diagram_static d \<longrightarrow> diagram_static (restrict_false f d)) \<and>
    (\<forall>p. valid p \<longrightarrow>
      eval_fdd test (restrict_false f d) p = (if test p f then stop_leaf else eval_fdd test d p))"
proof (induction d rule: diagram_induct)
  case (Node g dp dn)
  have g: "in_types T g" using Node.prems by simp
  have "test p f \<Longrightarrow> valid p \<Longrightarrow> type_eq (f_type g) (f_type f) \<Longrightarrow> g \<noteq> f \<Longrightarrow> \<not> test p g" for p
    using test_unique [of p f g] in_types_eqI [of g f] g Node.prems(2) by auto
  with Node g show ?case by (auto simp: field_eq_in_types)
qed simp

lemma seq_actions_static:
  assumes "unit_ok T u" "unit_ok T v" "body u = None" "valid p"
  shows "unit_ok T (seq_actions u v)" "body (seq_actions u v) = body v"
    "unit_outcome modify p (seq_actions u v) =
      unit_outcome modify (apply_mods modify p (pred_actions u)) v"
proof -
  obtain a c where u: "u = Action_unit a None c" using assms(3) by (cases u) auto
  have "list_all (in_types T) (pred_actions v)" using assms(2) by (simp add: unit_ok_def exact_fs_def)
  then show "unit_ok T (seq_actions u v)" "body (seq_actions u v) = body v"
    "unit_outcome modify p (seq_actions u v) =
      unit_outcome modify (apply_mods modify p (pred_actions u)) v"
    using assms u by (simp_all add: unit_ok_def field_set_union_def exact_fs_modify_all types
        unit_outcome_def apply_fs_modify_all)
qed

lemma applier_correct:
  assumes u: "unit_ok T u" "body u = None"
  shows "diagram_ok T d \<Longrightarrow> diagram_ok T (left_action_applier u d) \<and>
    (diagram_static d \<longrightarrow> diagram_static (left_action_applier u d)) \<and>
    (\<forall>p. valid p \<longrightarrow> (let q = apply_mods modify p (pred_actions u) in
       outcomes modify (eval_fdd test (left_action_applier u d) p) p =
         outcomes modify (eval_fdd test d q) q \<and>
       flow_settings_of (eval_fdd test (left_action_applier u d) p) =
         flow_settings_of (eval_fdd test d q)))"
proof (induction d rule: diagram_induct)
  case (Leaf l)
  have l: "\<forall>v \<in> set (sets l). unit_ok T v" using Leaf by (simp add: list_all_iff)
  obtain a c where ua: "u = Action_unit a None c" using u(2) by (cases u) auto
  have "unit_ok T (seq_actions u v)" "body (seq_actions u v) = body v" if "v \<in> set (sets l)" for v
    using l that u ua
    by (auto simp: unit_ok_def field_set_union_def exact_fs_modify_all types exact_fs_def [of T "pred_actions v"])
  moreover have "image_mset (unit_outcome modify p) (image_mset (seq_actions u) (mset (sets l))) =
      image_mset (unit_outcome modify (apply_mods modify p (pred_actions u))) (mset (sets l))"
    if "valid p" for p
    unfolding image_mset.compositionality
    by (rule image_mset_cong) (use l u that seq_actions_static(3) in auto)
  ultimately show ?case by (auto simp: outcomes_def Let_def list_all_iff)
next
  case (Node f dp dn)
  have f: "in_types T f" and u': "exact_fs T (pred_actions u)"
    using Node.prems u by (auto simp: unit_ok_def)
  show ?case
  proof (cases "fs_find (pred_actions u) (f_type f)")
    case None
    then have "test (apply_mods modify p (pred_actions u)) f = test p f" if "valid p" for p
      using test_apply_absent that u' f by blast
    with None Node f show ?thesis by (auto simp: Let_def)
  next
    case (Some g)
    then have t: "test (apply_mods modify p (pred_actions u)) f \<longleftrightarrow> g = f" if "valid p" for p
      using test_apply_present that u' f by blast
    have "in_types T g" using Some u' fs_find_SomeD by (auto simp: exact_fs_def list_all_iff)
    with Some Node f t show ?thesis by (auto simp: Let_def field_eq_in_types)
  qed
qed

lemma seq_loop_correct:
  assumes rhs: "diagram_ok T rhs"
  shows "diagram_ok T res \<Longrightarrow> \<forall>u \<in> set us. unit_ok T u \<and> body u = None \<Longrightarrow>
    \<exists>d. seq_loop rhs us res = Some d \<and> diagram_ok T d \<and>
      (diagram_static rhs \<and> diagram_static res \<longrightarrow> diagram_static d) \<and>
      (\<forall>p. valid p \<longrightarrow> leaf_is modify
        (outcomes modify (eval_fdd test res p) p +
          after test modify rhs (image_mset (unit_outcome modify p) (mset us)))
        (after_settings test rhs (flow_settings_of (eval_fdd test res p))
          (image_mset (unit_outcome modify p) (mset us)))
        (eval_fdd test d p) p)"
proof (induction us arbitrary: res)
  case (Cons u us)
  let ?a = "left_action_applier u rhs"
  have a: "diagram_ok T ?a" "diagram_static rhs \<longrightarrow> diagram_static ?a"
    "\<And>p. valid p \<Longrightarrow> outcomes modify (eval_fdd test ?a p) p = after test modify rhs {#unit_outcome modify p u#}"
    "\<And>p. valid p \<Longrightarrow> flow_settings_of (eval_fdd test ?a p) =
        flow_settings_of (eval_fdd test rhs (fst (unit_outcome modify p u)))"
    using applier_correct [of u rhs] rhs Cons.prems(2) by (auto simp: Let_def unit_outcome_def)
  obtain res' where res': "par res ?a = Some res'" "par_spec T valid test res ?a res'"
    using par_correct [OF Cons.prems(1) a(1)] by (auto simp: par_good_def)
  have out: "outcomes modify (eval_fdd test res' p) p =
        outcomes modify (eval_fdd test res p) p + after test modify rhs {#unit_outcome modify p u#}"
      "flow_settings_of (eval_fdd test res' p) = settings_meet (flow_settings_of (eval_fdd test res p))
        (flow_settings_of (eval_fdd test rhs (fst (unit_outcome modify p u))))"
    if "valid p" for p
    using par_specD(3,4) [OF res'(2) that] a(3,4) [OF that] outcomes_mset by metis+
  have "diagram_ok T res'" "diagram_static res \<and> diagram_static rhs \<longrightarrow> diagram_static res'"
    using par_specD(1,2) [OF res'(2)] a(2) by blast+
  with Cons.IH [of res'] Cons.prems(2) res'(1) show ?case
    by (auto simp: leaf_is_def out add.assoc)
qed (simp add: leaf_is_def)

lemma sequential_correct:
  assumes rhs: "diagram_ok T rhs"
  shows "diagram_ok T lhs \<Longrightarrow> diagram_static lhs \<Longrightarrow>
    \<exists>d. sequential lhs rhs = Some d \<and> diagram_ok T d \<and> (diagram_static rhs \<longrightarrow> diagram_static d) \<and>
      (\<forall>p. valid p \<longrightarrow> seq_spec test modify (eval_fdd test lhs p) rhs (eval_fdd test d p) p)"
proof (induction lhs rule: diagram_induct)
  case (Leaf l)
  show ?case
  proof (cases "sets l = []")
    case True
    then show ?thesis by (simp add: outcomes_def leaf_is_def seq_spec_def)
  next
    case False
    have "\<forall>u \<in> set (sets l). unit_ok T u \<and> body u = None" using Leaf by (auto simp: list_all_iff)
    from seq_loop_correct [OF rhs _ this, of "Leaf (mk_leaf [] (flow_settings_of l))"] False
    show ?thesis by (auto simp: leaf_is_def outcomes_def clamped_after seq_spec_def)
  qed
next
  case (Node f lp ln)
  have f: "in_types T f" using Node.prems by simp
  obtain one two where one: "sequential lp rhs = Some one" "diagram_ok T one"
      "diagram_static rhs \<longrightarrow> diagram_static one"
      "\<forall>p. valid p \<longrightarrow> seq_spec test modify (eval_fdd test lp p) rhs (eval_fdd test one p) p"
    and two: "sequential ln rhs = Some two" "diagram_ok T two"
      "diagram_static rhs \<longrightarrow> diagram_static two"
      "\<forall>p. valid p \<longrightarrow> seq_spec test modify (eval_fdd test ln p) rhs (eval_fdd test two p) p"
    using Node by auto
  note r1 = restrict_true_correct [OF one(2) f] and r2 = restrict_false_correct [OF two(2) f]
  obtain d where d: "par (restrict_true f one) (restrict_false f two) = Some d"
    "par_spec T valid test (restrict_true f one) (restrict_false f two) d"
    using par_correct [of "restrict_true f one" "restrict_false f two"] r1 r2
    unfolding par_good_def by blast
  have "seq_spec test modify (eval_fdd test (Node f lp ln) p) rhs (eval_fdd test d p) p"
    if "valid p" for p
    using par_specD(3,4) [OF d(2) that] r1 r2 one(4) two(4) that
    by (auto simp: seq_spec_def leaf_is_def outcomes_def)
  with d one two r1 r2 par_specD(1,2) [OF d(2)] show ?case
    by (auto simp: restriction_apply_def)
qed

section \<open>The compiler\<close>

lemma sem_valid:
  "list_all (in_types T) (policy_fields a) \<Longrightarrow> valid p \<Longrightarrow> x \<in># sem test modify a p \<Longrightarrow> valid (fst x)"
proof (induction a arbitrary: p x)
  case (Sequential a b)
  then obtain y where "y \<in># sem test modify a p" "x \<in># sem test modify b (fst y)" by auto
  moreover from this Sequential have "valid (fst y)" by simp
  ultimately show ?case using Sequential.IH(2) Sequential.prems(1) by auto
next
  case (Parallel a b)
  then have "x \<in># sem test modify a p \<or> x \<in># sem test modify b p" by simp
  with Parallel show ?case by (elim disjE) simp_all
qed (simp_all add: valid_modify split: if_splits)

lemma sem_seq_compiled:
  assumes "list_all (in_types T) (policy_fields a)" "valid p"
    and d: "\<And>q. valid q \<Longrightarrow> outcomes modify (eval_fdd test d q) q = sem test modify b q"
      "\<And>q. valid q \<Longrightarrow> flow_settings_of (eval_fdd test d q) = sem_settings test modify b q"
  shows "after test modify d (sem test modify a p) = sem test modify (Sequential a b) p"
    "after_settings test d s (sem test modify a p) =
      fold_mset settings_meet s (image_mset (\<lambda>x. sem_settings test modify b (fst x)) (sem test modify a p))"
proof -
  have v: "valid (fst x)" if "x \<in># sem test modify a p" for x by (rule sem_valid [OF assms(1,2) that])
  have "image_mset (\<lambda>x. outcomes modify (eval_fdd test d (fst x)) (fst x)) (sem test modify a p) =
      image_mset (\<lambda>x. sem test modify b (fst x)) (sem test modify a p)"
    by (rule image_mset_cong) (simp add: v d)
  then show "after test modify d (sem test modify a p) = sem test modify (Sequential a b) p"
    by (simp add: after_def)
  have "image_mset (\<lambda>x. flow_settings_of (eval_fdd test d (fst x))) (sem test modify a p) =
      image_mset (\<lambda>x. sem_settings test modify b (fst x)) (sem test modify a p)"
    by (rule image_mset_cong) (simp add: v d)
  then show "after_settings test d s (sem test modify a p) =
      fold_mset settings_meet s (image_mset (\<lambda>x. sem_settings test modify b (fst x)) (sem test modify a p))"
    by (simp add: after_settings_def)
qed

lemma negation_correct:
  "diagram_ok T (negation d) \<or> \<not> diagram_ok T d" "diagram_static (negation d)"
  "flow_settings_of (eval_fdd test (negation d) p) = flow_settings_of (eval_fdd test d p)"
  "outcomes modify (eval_fdd test (negation d) p) p =
    (if outcomes modify (eval_fdd test d p) p = {#} then {#(p, None)#} else {#})"
  by (induction d rule: diagram_induct)
    (auto simp: empty_unit_def unit_ok_def outcomes_def unit_outcome_def)

lemma compile_correct:
  "list_all (in_types T) (policy_fields a) \<Longrightarrow> tail_handlers a \<Longrightarrow>
    \<exists>d. compile a = Some d \<and> diagram_ok T d \<and> (handler_free a \<longrightarrow> diagram_static d) \<and>
      (\<forall>p. valid p \<longrightarrow>
        leaf_is modify (sem test modify a p) (sem_settings test modify a p) (eval_fdd test d p) p)"
proof (induction a)
  case (Negation a)
  then obtain d where "compile a = Some d" "diagram_ok T d"
    "\<forall>p. valid p \<longrightarrow> leaf_is modify (sem test modify a p) (sem_settings test modify a p) (eval_fdd test d p) p"
    by auto
  then show ?case using negation_correct [of d] by (auto simp: leaf_is_def)
next
  case (Sequential a b)
  then obtain d1 d2 where d1: "compile a = Some d1" "diagram_ok T d1" "diagram_static d1"
      "\<forall>p. valid p \<longrightarrow> leaf_is modify (sem test modify a p) (sem_settings test modify a p) (eval_fdd test d1 p) p"
    and d2: "compile b = Some d2" "diagram_ok T d2" "handler_free b \<longrightarrow> diagram_static d2"
      "\<forall>p. valid p \<longrightarrow> leaf_is modify (sem test modify b p) (sem_settings test modify b p) (eval_fdd test d2 p) p"
    by (auto dest: handler_free_tail)
  obtain d where d: "sequential d1 d2 = Some d" "diagram_ok T d" "diagram_static d2 \<longrightarrow> diagram_static d"
      "\<forall>p. valid p \<longrightarrow> seq_spec test modify (eval_fdd test d1 p) d2 (eval_fdd test d p) p"
    using sequential_correct [OF d2(2) d1(2,3)] by auto
  have "leaf_is modify (sem test modify (Sequential a b) p) (sem_settings test modify (Sequential a b) p)
      (eval_fdd test d p) p" if "valid p" for p
    using d(4) d1(4) d2(4) that Sequential.prems(1) sem_seq_compiled [of a p d2 b]
    by (auto simp: seq_spec_def leaf_is_def Let_def)
  with d d1 d2 show ?case by auto
next
  case (Parallel a b)
  then obtain d1 d2 where d1: "compile a = Some d1" "diagram_ok T d1" "handler_free a \<longrightarrow> diagram_static d1"
      "\<forall>p. valid p \<longrightarrow> leaf_is modify (sem test modify a p) (sem_settings test modify a p) (eval_fdd test d1 p) p"
    and d2: "compile b = Some d2" "diagram_ok T d2" "handler_free b \<longrightarrow> diagram_static d2"
      "\<forall>p. valid p \<longrightarrow> leaf_is modify (sem test modify b p) (sem_settings test modify b p) (eval_fdd test d2 p) p"
    by auto
  obtain d where d: "par d1 d2 = Some d" "par_spec T valid test d1 d2 d"
    using par_correct [OF d1(2) d2(2)] by (auto simp: par_good_def)
  have "leaf_is modify (sem test modify (Parallel a b) p) (sem_settings test modify (Parallel a b) p)
      (eval_fdd test d p) p" if "valid p" for p
    using par_specD(3,4) [OF d(2) that] d1(4) d2(4) that by (auto simp: leaf_is_def outcomes_def)
  with d d1 d2 par_specD(1,2) [OF d(2)] show ?case by auto
qed (auto simp: leaf_is_def outcomes_def unit_outcome_def empty_unit_def unit_ok_def)

end

interpretation fdd_fs: fdd_ops "set known_types" "full_fs (set known_types)" fs_test fs_modify
  by unfold_locales (rule comparable_known)

end
