(* ===== verification/Fdd_Translator.thy ===== *)
theory Fdd_Translator
  imports Fdd_Correct
begin

text \<open>
  Rule generation: \<open>fdd::Translator\<close> of \<^verbatim>\<open>src/retic/fdd_translator.cc\<close> walks a diagram
  and calls the backend (\<^verbatim>\<open>src/retic/backend.hh\<close>) once per leaf with a match, a
  priority and the actions. The flow table it builds is compared with the diagram: the rule of
  highest priority that matches a packet is unique and is the rule of the packet's leaf, for
  diagrams that test no type twice on a positive path and that are shallow enough for the
  16-bit priority range.
\<close>

section \<open>The translator\<close>

datatype backend_call =
    Install (rule_match: field_set) "field_set list" (rule_prio: "16 word") flow_settings
  | Install_barrier (rule_match: field_set) (rule_prio: "16 word")

record translator =
  t_match :: field_set
  t_prio_down :: "16 word"
  t_prio_up :: "16 word"
  t_prio_middle :: "16 word"
  t_previous_mask :: "oxm_mask option"

definition translator_init :: "field_set \<Rightarrow> 16 word \<Rightarrow> 16 word \<Rightarrow> translator" where
  "translator_init pre_match down up = \<lparr>t_match = pre_match, t_prio_down = down, t_prio_up = up,
     t_prio_middle = 0, t_previous_mask = None\<rparr>"

definition translator_default :: translator where
  "translator_default = translator_init [] 1 65535"

text \<open>The leaf: the upper end of its range, its call, and the range written back to it.\<close>

definition local_prio_up :: "translator \<Rightarrow> 16 word" where
  "local_prio_up s = (if t_previous_mask s \<noteq> None then t_prio_middle s else t_prio_up s)"

definition half_sum :: "16 word \<Rightarrow> 16 word \<Rightarrow> 16 word" where
  "half_sum a b = a div 2 + b div 2"

definition leaf_call :: "field_set \<Rightarrow> 16 word \<Rightarrow> leaf \<Rightarrow> backend_call" where
  "leaf_call mt prio l =
     (if list_ex has_body (sets l) then Install_barrier mt prio
      else Install mt (map pred_actions (sets l)) prio (flow_settings_of l))"

definition set_prios :: "leaf \<Rightarrow> 16 word \<Rightarrow> 16 word \<Rightarrow> leaf" where
  "set_prios l down up = Leaf_data (sets l) (flow_settings_of l) (maple_tree l) (Some (down, up))"

definition translate_leaf :: "translator \<Rightarrow> leaf \<Rightarrow> backend_call \<times> leaf" where
  "translate_leaf s l =
     (leaf_call (t_match s) (half_sum (t_prio_down s) (local_prio_up s)) l,
      set_prios l (t_prio_down s) (local_prio_up s))"

text \<open>The state in which a node's negative branch is visited.\<close>

definition enter_node :: "translator \<Rightarrow> oxm_field \<Rightarrow> translator" where
  "enter_node s f = (case t_previous_mask s of
     Some m \<Rightarrow>
       (if mask_eq m (mask_of f) then s
        else s\<lparr>t_prio_up := t_prio_middle s,
               t_prio_middle := half_sum (t_prio_middle s) (t_prio_down s),
               t_previous_mask := Some (mask_of f)\<rparr>)
   | None \<Rightarrow> s\<lparr>t_prio_middle := half_sum (t_prio_up s) (t_prio_down s),
               t_previous_mask := Some (mask_of f)\<rparr>)"

definition enter_positive :: "translator \<Rightarrow> oxm_field \<Rightarrow> translator" where
  "enter_positive s f = s\<lparr>t_prio_down := t_prio_middle s, t_previous_mask := None,
     t_match := fs_modify (t_match s) f\<rparr>"

definition leave_node :: "translator \<Rightarrow> translator \<Rightarrow> oxm_field \<Rightarrow> translator" where
  "leave_node saved s f = s\<lparr>t_match := fs_erase (t_match s) (mask_of f),
     t_prio_up := t_prio_up saved, t_prio_down := t_prio_down saved,
     t_prio_middle := t_prio_middle saved, t_previous_mask := t_previous_mask saved\<rparr>"

fun translate :: "translator \<Rightarrow> diagram \<Rightarrow> translator \<times> backend_call list \<times> diagram" where
  "translate s (Leaf l) = (case translate_leaf s l of (c, l') \<Rightarrow> (s, [c], Leaf l'))"
| "translate s (Node f p n) =
     (case translate (enter_node s f) n of (s2, neg, n') \<Rightarrow>
      case translate (enter_positive s2 f) p of (s4, pos, p') \<Rightarrow>
        (leave_node s s4 f, neg @ pos, Node f p' n'))"

definition rules :: "translator \<Rightarrow> diagram \<Rightarrow> backend_call list" where
  "rules s d = fst (snd (translate s d))"

section \<open>The flow table\<close>

text \<open>
  A switch applies the matching rule of the highest priority. OpenFlow leaves the choice among
  several such rules open, so the lookup is \<open>None\<close> unless there is exactly one.
\<close>

definition rule_applies :: "('p \<Rightarrow> oxm_field \<Rightarrow> bool) \<Rightarrow> 'p \<Rightarrow> backend_call \<Rightarrow> bool" where
  "rule_applies tst p c = fs_match (rule_match c) (tst p)"

definition table_lookup :: "('p \<Rightarrow> oxm_field \<Rightarrow> bool) \<Rightarrow> backend_call list \<Rightarrow> 'p \<Rightarrow> backend_call option" where
  "table_lookup tst tbl p =
     (let ms = filter (rule_applies tst p) tbl
      in case filter (\<lambda>c. list_all (\<lambda>c'. rule_prio c' \<le> rule_prio c) ms) ms of
           [c] \<Rightarrow> Some c
         | _ \<Rightarrow> None)"

text \<open>The rule does what the leaf says.\<close>

definition implements :: "backend_call \<Rightarrow> leaf \<Rightarrow> bool" where
  "implements c l = (c = leaf_call (rule_match c) (rule_prio c) l)"

section \<open>Diagrams the priorities can express\<close>

fun tested :: "diagram \<Rightarrow> oxm_field list" where
  "tested (Leaf l) = []"
| "tested (Node f p n) = f # tested p @ tested n"

definition untested :: "oxm_type \<Rightarrow> diagram \<Rightarrow> bool" where
  "untested t d = list_all (\<lambda>f. \<not> type_eq (f_type f) t) (tested d)"

text \<open>The tests of one type in an unbroken chain of negative branches.\<close>

fun spine :: "oxm_type \<Rightarrow> diagram \<Rightarrow> oxm_field list" where
  "spine t (Leaf l) = []"
| "spine t (Node f p n) = (if type_eq (f_type f) t then f # spine t n else [])"

fun reduced :: "diagram \<Rightarrow> bool" where
  "reduced (Leaf l) = True"
| "reduced (Node f p n) = (untested (f_type f) p \<and> \<not> list_ex (field_eq f) (spine (f_type f) n) \<and>
     reduced p \<and> reduced n)"

text \<open>How often the range of priorities is halved on the way to a leaf.\<close>

fun levels :: "oxm_type option \<Rightarrow> diagram \<Rightarrow> nat" where
  "levels prev (Leaf l) = 0"
| "levels prev (Node f p n) =
     (let below = max (levels (Some (f_type f)) n) (levels None p) in
      if (case prev of None \<Rightarrow> False | Some t \<Rightarrow> type_eq t (f_type f)) then below else Suc below)"

definition gap :: "nat \<Rightarrow> nat" where
  "gap k = 2 ^ (k + 2) - 2"

section \<open>Lookup of a dominating rule\<close>

definition wins :: "('p \<Rightarrow> oxm_field \<Rightarrow> bool) \<Rightarrow> backend_call list \<Rightarrow> 'p \<Rightarrow> backend_call \<Rightarrow> bool" where
  "wins tst cs p c = (\<exists>xs ys. cs = xs @ c # ys \<and> rule_applies tst p c \<and>
     (\<forall>c' \<in> set xs \<union> set ys. rule_applies tst p c' \<longrightarrow> rule_prio c' < rule_prio c))"

lemma wins_lookup:
  assumes "wins tst cs p c"
  shows "table_lookup tst cs p = Some c"
proof -
  obtain xs ys where cs: "cs = xs @ c # ys" and ap: "rule_applies tst p c"
    and low: "\<forall>c' \<in> set xs \<union> set ys. rule_applies tst p c' \<longrightarrow> rule_prio c' < rule_prio c"
    using assms by (auto simp: wins_def)
  define ms where "ms = filter (rule_applies tst p) cs"
  define top where "top = (\<lambda>c. list_all (\<lambda>c'. rule_prio c' \<le> rule_prio c) ms)"
  have ms: "ms = filter (rule_applies tst p) xs @ c # filter (rule_applies tst p) ys"
    by (simp add: ms_def cs ap)
  have "top c" using low by (auto simp: top_def ms list_all_iff intro: less_imp_le)
  moreover have "\<not> top c'" if "c' \<in> set xs \<union> set ys" "rule_applies tst p c'" for c'
    using low that by (auto simp: top_def ms list_all_iff not_le)
  ultimately have "filter top ms = [c]"
    unfolding ms by (auto simp: filter_empty_conv)
  then show ?thesis by (simp add: table_lookup_def Let_def ms_def [symmetric] top_def)
qed

lemma wins_left:
  "wins tst cs p c \<Longrightarrow> \<forall>c' \<in> set ds. rule_applies tst p c' \<longrightarrow> rule_prio c' < rule_prio c \<Longrightarrow>
    wins tst (cs @ ds) p c"
proof -
  assume "wins tst cs p c" and d: "\<forall>c' \<in> set ds. rule_applies tst p c' \<longrightarrow> rule_prio c' < rule_prio c"
  then obtain xs ys where "cs @ ds = xs @ c # (ys @ ds)" "rule_applies tst p c"
    "\<forall>c' \<in> set xs \<union> set ys. rule_applies tst p c' \<longrightarrow> rule_prio c' < rule_prio c"
    by (auto simp: wins_def)
  with d show ?thesis unfolding wins_def by (intro exI [of _ xs] exI [of _ "ys @ ds"]) auto
qed

lemma wins_right:
  "wins tst ds p c \<Longrightarrow> \<forall>c' \<in> set cs. rule_applies tst p c' \<longrightarrow> rule_prio c' < rule_prio c \<Longrightarrow>
    wins tst (cs @ ds) p c"
proof -
  assume "wins tst ds p c" and d: "\<forall>c' \<in> set cs. rule_applies tst p c' \<longrightarrow> rule_prio c' < rule_prio c"
  then obtain xs ys where "cs @ ds = (cs @ xs) @ c # ys" "rule_applies tst p c"
    "\<forall>c' \<in> set xs \<union> set ys. rule_applies tst p c' \<longrightarrow> rule_prio c' < rule_prio c"
    by (auto simp: wins_def)
  with d show ?thesis unfolding wins_def by (intro exI [of _ "cs @ xs"] exI [of _ ys]) auto
qed

lemma wins_member: "wins tst cs p c \<Longrightarrow> c \<in> set cs" "wins tst cs p c \<Longrightarrow> rule_applies tst p c"
  by (auto simp: wins_def)

section \<open>Priorities\<close>

lemma unat16_less: "unat (a :: 16 word) < 65536"
  using unsigned_less [of a, where ?'a = nat] by simp

lemma half_sum_unat: "unat (half_sum a b) = unat a div 2 + unat b div 2"
proof -
  have "unat a div 2 + unat b div 2 < 65536" using unat16_less [of a] unat16_less [of b] by linarith
  then show ?thesis by (simp add: half_sum_def unat_word_ariths unat_div)
qed

lemma gap_Suc: "gap (Suc k) = 2 * gap k + 2"
proof -
  obtain m where "(2::nat) ^ k = Suc m" by (metis not0_implies_Suc power_not_zero zero_neq_numeral)
  then show ?thesis by (simp add: gap_def)
qed

lemma gap_0: "gap 0 = 2"
  by (simp add: gap_def)

lemma gap_mono: "j \<le> k \<Longrightarrow> gap j \<le> gap k"
  unfolding gap_def by (intro diff_le_mono power_increasing) auto

lemma gap_ge2: "2 \<le> gap k"
  using gap_mono [of 0 k] by (simp add: gap_0)

lemma half_sum_between:
  assumes "unat lo + gap k \<le> unat hi"
  shows "lo \<le> half_sum lo hi" "half_sum lo hi < hi"
  using assms gap_ge2 [of k] unfolding word_le_nat_alt word_less_nat_alt half_sum_unat by linarith+

lemma half_sum_gap:
  assumes "unat lo + gap (Suc k) \<le> unat hi"
  shows "unat lo + gap k \<le> unat (half_sum hi lo)" "unat (half_sum hi lo) + gap k \<le> unat hi"
  using assms unfolding half_sum_unat gap_Suc by linarith+

section \<open>The states the translator passes through\<close>

definition range_ok :: "nat \<Rightarrow> translator \<Rightarrow> bool" where
  "range_ok k s = (if t_previous_mask s = None then unat (t_prio_down s) + gap k \<le> unat (t_prio_up s)
     else unat (t_prio_down s) + gap k \<le> unat (t_prio_middle s) \<and>
       unat (t_prio_middle s) + gap k \<le> unat (t_prio_up s))"

definition state_ok :: "oxm_type set \<Rightarrow> nat \<Rightarrow> translator \<Rightarrow> diagram \<Rightarrow> bool" where
  "state_ok T k s d = (exact_fs T (t_match s) \<and> range_ok k s \<and>
     levels (map_option m_type (t_previous_mask s)) d \<le> k \<and>
     (\<forall>f \<in> set (tested d). fs_find (t_match s) (f_type f) = None) \<and>
     (\<forall>m. t_previous_mask s = Some m \<longrightarrow> (\<exists>t \<in> T. m = exact_mask t)))"

text \<open>What a call made in a state looks like: it lies in the state's range, or it belongs to a
  test of the chain the state is in.\<close>

definition call_ok :: "translator \<Rightarrow> diagram \<Rightarrow> backend_call \<Rightarrow> bool" where
  "call_ok s d c = (t_prio_down s \<le> rule_prio c \<and>
     (\<forall>t. fs_match (rule_match c) t \<longrightarrow> fs_match (t_match s) t) \<and>
     (rule_prio c < local_prio_up s \<or>
      rule_prio c < t_prio_up s \<and> (\<exists>m g. t_previous_mask s = Some m \<and> g \<in> set (spine (m_type m) d) \<and>
        (\<forall>t. fs_match (rule_match c) t \<longrightarrow> t g))))"

lemma mask_of_exact: "wf_exact f \<Longrightarrow> mask_of f = exact_mask (f_type f)"
  by (simp add: mask_of_def exact_mask_def wf_exact_def exact_mask_eq)

lemma exact_mask_type [simp]: "m_type (exact_mask t) = t"
  by (simp add: exact_mask_def)

lemma mask_eq_exact:
  "coherent T \<Longrightarrow> t \<in> T \<Longrightarrow> in_types T f \<Longrightarrow> mask_eq (exact_mask t) (mask_of f) \<longleftrightarrow> t = f_type f"
  using coherentD [of T t "f_type f"]
  by (auto simp: mask_eq_def in_types_def mask_of_exact exact_mask_def)

lemma spine_in: "diagram_ok T d \<Longrightarrow> g \<in> set (spine t d) \<Longrightarrow> in_types T g \<and> type_eq (f_type g) t"
  by (induction d rule: diagram_induct) (auto split: if_splits)

text \<open>Entering a node: the chain is continued or a new one is started with half the range.\<close>

lemma enter_node_cases:
  assumes T: "coherent T" and s: "state_ok T k s (Node f p n)" and f: "in_types T f"
  shows "enter_node s f = s \<and> t_previous_mask s = Some (mask_of f) \<and>
      max (levels (Some (f_type f)) n) (levels None p) \<le> k \<or>
    t_prio_up (enter_node s f) = local_prio_up s \<and> t_previous_mask (enter_node s f) = Some (mask_of f) \<and>
      t_prio_down (enter_node s f) = t_prio_down s \<and> t_match (enter_node s f) = t_match s \<and>
      (\<exists>k'. range_ok k' (enter_node s f) \<and> max (levels (Some (f_type f)) n) (levels None p) \<le> k')"
proof (cases "t_previous_mask s")
  case None
  then have "unat (t_prio_down s) + gap k \<le> unat (t_prio_up s)"
    and lv: "Suc (max (levels (Some (f_type f)) n) (levels None p)) \<le> k"
    using s by (simp_all add: state_ok_def range_ok_def Let_def)
  then obtain k' where k: "k = Suc k'" by (cases k) auto
  with None lv half_sum_gap [of "t_prio_down s" k' "t_prio_up s"]
    \<open>unat (t_prio_down s) + gap k \<le> unat (t_prio_up s)\<close>
  show ?thesis by (auto simp: enter_node_def range_ok_def local_prio_up_def)
next
  case (Some m)
  then obtain t where m: "m = exact_mask t" "t \<in> T" using s by (auto simp: state_ok_def)
  have mt: "m_type m = t" using m by (simp add: exact_mask_def)
  show ?thesis
  proof (cases "t = f_type f")
    case True
    with Some m mt f s have "enter_node s f = s" "m = mask_of f"
      using mask_eq_exact [OF T m(2) f] by (auto simp: enter_node_def mask_of_exact in_types_def)
    moreover have "max (levels (Some (f_type f)) n) (levels None p) \<le> k"
      using s Some True mt by (simp add: state_ok_def Let_def)
    ultimately show ?thesis using Some by simp
  next
    case False
    then have ne: "\<not> mask_eq m (mask_of f)" "\<not> type_eq t (f_type f)"
      using mask_eq_exact [OF T m(2) f] m f coherentD [OF T m(2), of "f_type f"]
      by (auto simp: in_types_def)
    then have r: "unat (t_prio_down s) + gap k \<le> unat (t_prio_middle s)"
      and lv: "Suc (max (levels (Some (f_type f)) n) (levels None p)) \<le> k"
      using s Some mt by (simp_all add: state_ok_def range_ok_def Let_def)
    then obtain k' where k: "k = Suc k'" by (cases k) auto
    with Some lv ne r half_sum_gap [of "t_prio_down s" k' "t_prio_middle s"]
    show ?thesis by (auto simp: enter_node_def range_ok_def local_prio_up_def)
  qed
qed

lemma enter_node_ok:
  assumes T: "coherent T" and s: "state_ok T k s (Node f p n)" and f: "in_types T f"
    and red: "reduced (Node f p n)"
  obtains k' where "state_ok T k' (enter_node s f) n" "state_ok T k' (enter_positive (enter_node s f) f) p"
    "t_previous_mask (enter_node s f) = Some (mask_of f)" "t_match (enter_node s f) = t_match s"
    "t_prio_down (enter_node s f) = t_prio_down s" "range_ok k' (enter_node s f)"
    "enter_node s f = s \<or> t_prio_up (enter_node s f) = local_prio_up s"
proof -
  let ?e = "enter_node s f"
  obtain k' where k': "range_ok k' ?e" "max (levels (Some (f_type f)) n) (levels None p) \<le> k'"
    and e: "t_previous_mask ?e = Some (mask_of f)" "t_match ?e = t_match s"
      "t_prio_down ?e = t_prio_down s" "?e = s \<or> t_prio_up ?e = local_prio_up s"
    using enter_node_cases [OF T s f] s by (auto simp: state_ok_def)
  have m: "exact_fs T (t_match s)" "fs_find (t_match s) (f_type f) = None"
    "\<forall>g \<in> set (tested p) \<union> set (tested n). fs_find (t_match s) (f_type g) = None"
    using s by (auto simp: state_ok_def)
  have "fs_modify (t_match s) f = t_match s @ [f]"
    using m(2) f by (simp add: fs_modify_fresh in_types_def wf_exact_wf)
  moreover have "exact_fs T (fs_modify (t_match s) f)" by (rule exact_fs_modify [OF T m(1) f])
  moreover have "\<forall>g \<in> set (tested p). \<not> type_eq (f_type f) (f_type g)"
    using red by (auto simp: untested_def list_all_iff type_eq_sym)
  ultimately have "state_ok T k' (enter_positive ?e f) p"
    using k' m e by (auto simp: state_ok_def enter_positive_def range_ok_def fs_find_append)
  moreover have "state_ok T k' ?e n"
    using k' m e f by (auto simp: state_ok_def mask_of_exact in_types_def)
  ultimately show thesis using that k' e by blast
qed

section \<open>The rules implement the diagram\<close>

definition translated ::
  "('p \<Rightarrow> bool) \<Rightarrow> ('p \<Rightarrow> oxm_field \<Rightarrow> bool) \<Rightarrow> translator \<Rightarrow> diagram \<Rightarrow> bool" where
  "translated valid tst s d = (fst (translate s d) = s \<and> (\<forall>c \<in> set (rules s d). call_ok s d c) \<and>
     (\<forall>p. valid p \<longrightarrow> fs_match (t_match s) (tst p) \<longrightarrow>
        (\<exists>c. wins tst (rules s d) p c \<and> implements c (eval_fdd tst d p))))"

lemma rules_Node:
  assumes "fst (translate (enter_node s f) n) = enter_node s f"
    and "fst (translate (enter_positive (enter_node s f) f) p) = enter_positive (enter_node s f) f"
  shows "rules s (Node f p n) = rules (enter_node s f) n @ rules (enter_positive (enter_node s f) f) p"
    "fst (translate s (Node f p n)) = leave_node s (enter_positive (enter_node s f) f) f"
  using assms by (auto simp: rules_def split: prod.splits)

lemma leaf_call_sel [simp]: "rule_match (leaf_call mt pr l) = mt" "rule_prio (leaf_call mt pr l) = pr"
  by (simp_all add: leaf_call_def)

lemma translated_leaf:
  assumes "state_ok T k s (Leaf l)"
  shows "translated valid tst s (Leaf l)"
proof -
  have "unat (t_prio_down s) + gap k \<le> unat (local_prio_up s)"
    using assms by (auto simp: state_ok_def range_ok_def local_prio_up_def split: if_splits)
  from half_sum_between [OF this] have "call_ok s (Leaf l) (fst (translate_leaf s l))"
    by (simp add: call_ok_def translate_leaf_def)
  moreover have "wins tst [c] p c" if "fs_match (rule_match c) (tst p)" for c p
    unfolding wins_def using that by (intro exI [of _ "[]"]) (simp add: rule_applies_def)
  ultimately show ?thesis
    by (auto simp: translated_def rules_def implements_def translate_leaf_def
        intro!: exI [of _ "leaf_call (t_match s) (half_sum (t_prio_down s) (local_prio_up s)) l"])
qed

lemma fs_match_snoc [simp]: "fs_match (fs @ [f]) t \<longleftrightarrow> fs_match fs t \<and> t f"
  by (simp add: fs_match_def)

text \<open>Calls of the branches, seen from the node.\<close>

lemma call_ok_negative:
  assumes "call_ok (enter_node s f) n c" "t_previous_mask (enter_node s f) = Some (mask_of f)"
    and "t_match (enter_node s f) = t_match s" "t_prio_down (enter_node s f) = t_prio_down s"
    and "range_ok k (enter_node s f)" "enter_node s f = s \<or> t_prio_up (enter_node s f) = local_prio_up s"
  shows "call_ok s (Node f p n) c"
proof -
  have le: "t_prio_middle (enter_node s f) \<le> t_prio_up (enter_node s f)"
    using assms(2,5) by (simp add: range_ok_def word_le_nat_alt)
  show ?thesis
  proof (cases "enter_node s f = s")
    case True
    with assms show ?thesis by (auto simp: call_ok_def)
  next
    case False
    with assms(6) have up: "t_prio_up (enter_node s f) = local_prio_up s" by simp
    have "rule_prio c < t_prio_up (enter_node s f)"
      using assms(1,2) le by (auto simp: call_ok_def local_prio_up_def)
    with up assms show ?thesis by (auto simp: call_ok_def)
  qed
qed

lemma call_ok_positive:
  assumes "call_ok (enter_positive (enter_node s f) f) p c" "t_previous_mask (enter_node s f) = Some (mask_of f)"
    and "t_match (enter_node s f) = t_match s" "t_prio_down (enter_node s f) = t_prio_down s"
    and "range_ok k (enter_node s f)" "enter_node s f = s \<or> t_prio_up (enter_node s f) = local_prio_up s"
    and "fs_modify (t_match s) f = t_match s @ [f]"
  shows "call_ok s (Node f p n) c" "t_prio_middle (enter_node s f) \<le> rule_prio c"
    "fs_match (rule_match c) t \<Longrightarrow> t f"
proof -
  have c: "t_prio_middle (enter_node s f) \<le> rule_prio c" "rule_prio c < t_prio_up (enter_node s f)"
    "\<And>t. fs_match (rule_match c) t \<Longrightarrow> fs_match (t_match s) t \<and> t f"
    using assms(1,3,7) by (auto simp: call_ok_def enter_positive_def local_prio_up_def)
  then show "t_prio_middle (enter_node s f) \<le> rule_prio c" "fs_match (rule_match c) t \<Longrightarrow> t f" by auto
  have "t_prio_down s \<le> t_prio_middle (enter_node s f)"
    using assms(2,4,5) by (simp add: range_ok_def word_le_nat_alt)
  moreover have "\<exists>g. (g = f \<or> g \<in> set (spine (f_type f) n)) \<and> (\<forall>t. fs_match (rule_match c) t \<longrightarrow> t g)"
    using c(3) by blast
  ultimately show "call_ok s (Node f p n) c"
    using c assms(2,6) by (auto simp: call_ok_def intro: order_trans)
qed

definition exclusive :: "('p \<Rightarrow> bool) \<Rightarrow> ('p \<Rightarrow> oxm_field \<Rightarrow> bool) \<Rightarrow> backend_call list \<Rightarrow> bool" where
  "exclusive valid tst cs = sorted_wrt (\<lambda>c c'. rule_prio c = rule_prio c' \<longrightarrow>
     (\<forall>p. valid p \<longrightarrow> \<not> (rule_applies tst p c \<and> rule_applies tst p c'))) cs"

context packet_ops
begin

text \<open>Rules of the negative branch that match a packet of the positive branch lie below the
  positive branch's range.\<close>

lemma negative_below:
  assumes "call_ok s n c" "t_previous_mask s = Some (mask_of f)"
    and f: "in_types T f" and n: "diagram_ok T n" and red: "\<not> list_ex (field_eq f) (spine (f_type f) n)"
    and p: "valid p" "test p f" "rule_applies test p c"
  shows "rule_prio c < t_prio_middle s"
proof (rule ccontr)
  assume "\<not> ?thesis"
  then obtain g where g: "g \<in> set (spine (f_type f) n)" "\<forall>t. fs_match (rule_match c) t \<longrightarrow> t g"
    using assms(1,2) by (auto simp: call_ok_def local_prio_up_def)
  then have "test p g" using p(3) unfolding rule_applies_def by blast
  moreover have "in_types T g" "f_type g = f_type f"
    using spine_in [OF n g(1)] f in_types_eqI by blast+
  ultimately have "f = g" using test_unique [of p f g] p f by simp
  then show False using red g(1) by (auto simp: list_ex_iff)
qed

lemma translate_correct:
  "state_ok T k s d \<Longrightarrow> diagram_ok T d \<Longrightarrow> reduced d \<Longrightarrow> translated valid test s d"
proof (induction d arbitrary: s k rule: diagram_induct)
  case (Leaf l)
  from Leaf.prems(1) show ?case by (rule translated_leaf)
next
  case (Node f dp dn)
  have f: "in_types T f" and ok: "diagram_ok T dp" "diagram_ok T dn"
    and red: "reduced dp" "reduced dn" "\<not> list_ex (field_eq f) (spine (f_type f) dn)"
    using Node.prems by auto
  let ?e = "enter_node s f" let ?p = "enter_positive ?e f"
  obtain k' where e: "state_ok T k' ?e dn" "state_ok T k' ?p dp" "t_previous_mask ?e = Some (mask_of f)"
    "t_match ?e = t_match s" "t_prio_down ?e = t_prio_down s" "range_ok k' ?e"
    "?e = s \<or> t_prio_up ?e = local_prio_up s"
    using enter_node_ok [OF types Node.prems(1) f Node.prems(3)] by metis
  have neg: "translated valid test ?e dn" and pos: "translated valid test ?p dp"
    using Node.IH e ok red by auto
  have fresh: "fs_find (t_match s) (f_type f) = None" using Node.prems(1) by (simp add: state_ok_def)
  then have md: "fs_modify (t_match s) f = t_match s @ [f]"
    and er: "fs_erase (t_match s @ [f]) (mask_of f) = t_match s"
    using fs_modify_fresh fs_erase_modify_fresh f by (metis in_types_def wf_exact_wf)+
  have eqs: "rules s (Node f dp dn) = rules ?e dn @ rules ?p dp"
    "fst (translate s (Node f dp dn)) = leave_node s ?p f"
    using rules_Node neg pos unfolding translated_def by blast+
  have st: "leave_node s ?p f = s" using e md er by (simp add: leave_node_def enter_positive_def)
  have calls: "\<forall>c \<in> set (rules ?e dn). call_ok ?e dn c" "\<forall>c \<in> set (rules ?p dp). call_ok ?p dp c"
    using neg pos by (auto simp: translated_def)
  note posD = call_ok_positive [OF _ e(3,4,5,6,7) md]
  have win: "\<exists>c. wins test (rules s (Node f dp dn)) p c \<and> implements c (eval_fdd test (Node f dp dn) p)"
    if p: "valid p" "fs_match (t_match s) (test p)" for p
  proof (cases "test p f")
    case True
    then obtain c where c: "wins test (rules ?p dp) p c" "implements c (eval_fdd test dp p)"
      using pos p e(4) md by (auto simp: translated_def enter_positive_def)
    have "t_prio_middle ?e \<le> rule_prio c" using posD(2) calls(2) wins_member(1) [OF c(1)] by blast
    then have "\<forall>c' \<in> set (rules ?e dn). rule_applies test p c' \<longrightarrow> rule_prio c' < rule_prio c"
      using negative_below [OF _ e(3) f ok(2) red(3) p(1) True] calls(1) by (meson less_le_trans)
    with c True show ?thesis unfolding eqs by (auto intro: wins_right)
  next
    case False
    then obtain c where c: "wins test (rules ?e dn) p c" "implements c (eval_fdd test dn p)"
      using neg p e(4) by (auto simp: translated_def)
    have "\<forall>c' \<in> set (rules ?p dp). \<not> rule_applies test p c'"
      using posD(3) calls(2) False by (auto simp: rule_applies_def)
    with c False show ?thesis unfolding eqs by (auto intro: wins_left)
  qed
  have "\<forall>c \<in> set (rules s (Node f dp dn)). call_ok s (Node f dp dn) c"
    unfolding eqs using calls call_ok_negative [OF _ e(3,4,5,6,7)] posD(1) by auto
  then show ?case using win st eqs(2) by (simp add: translated_def)
qed

text \<open>Rules of one priority exclude each other, so no switch that checks for overlaps rejects one.\<close>

lemma translate_exclusive:
  "state_ok T k s d \<Longrightarrow> diagram_ok T d \<Longrightarrow> reduced d \<Longrightarrow> exclusive valid test (rules s d)"
proof (induction d arbitrary: s k rule: diagram_induct)
  case (Leaf l)
  then show ?case by (simp add: exclusive_def rules_def translate_leaf_def)
next
  case (Node f dp dn)
  have f: "in_types T f" and ok: "diagram_ok T dp" "diagram_ok T dn"
    and red: "reduced dp" "reduced dn" "\<not> list_ex (field_eq f) (spine (f_type f) dn)"
    using Node.prems by auto
  let ?e = "enter_node s f" let ?p = "enter_positive ?e f"
  obtain k' where e: "state_ok T k' ?e dn" "state_ok T k' ?p dp" "t_previous_mask ?e = Some (mask_of f)"
    "t_match ?e = t_match s" "t_prio_down ?e = t_prio_down s" "range_ok k' ?e"
    "?e = s \<or> t_prio_up ?e = local_prio_up s"
    using enter_node_ok [OF types Node.prems(1) f Node.prems(3)] by metis
  have neg: "translated valid test ?e dn" and pos: "translated valid test ?p dp"
    using translate_correct e ok red by blast+
  have "fs_find (t_match s) (f_type f) = None" using Node.prems(1) by (simp add: state_ok_def)
  then have md: "fs_modify (t_match s) f = t_match s @ [f]"
    using fs_modify_fresh f by (simp add: in_types_def wf_exact_wf)
  have eqs: "rules s (Node f dp dn) = rules ?e dn @ rules ?p dp"
    using rules_Node neg pos unfolding translated_def by blast
  note posD = call_ok_positive [OF _ e(3,4,5,6,7) md]
  have "\<not> (rule_applies test q c \<and> rule_applies test q c')"
    if "c \<in> set (rules ?e dn)" "c' \<in> set (rules ?p dp)" "rule_prio c = rule_prio c'" "valid q" for c c' q
  proof
    assume ap: "rule_applies test q c \<and> rule_applies test q c'"
    have c: "call_ok ?e dn c" "call_ok ?p dp c'" using that neg pos by (auto simp: translated_def)
    have "test q f" using posD(3) [OF c(2)] ap by (auto simp: rule_applies_def)
    then have "rule_prio c < t_prio_middle ?e"
      using negative_below [OF c(1) e(3) f ok(2) red(3) that(4)] ap by blast
    with posD(2) [OF c(2)] that(3) show False by simp
  qed
  with Node.IH(2) [OF e(1) ok(2) red(2)] Node.IH(1) [OF e(2) ok(1) red(1)] show ?case
    by (auto simp: eqs exclusive_def sorted_wrt_append)
qed

text \<open>The whole table, from the translator's initial state.\<close>

lemma table_correct:
  assumes "diagram_ok T d" "reduced d" "levels None d \<le> k" "unat down + gap k \<le> unat up"
    and "exact_fs T mt" "\<forall>f \<in> set (tested d). fs_find mt (f_type f) = None"
    and "valid p" "fs_match mt (test p)"
  shows "\<exists>c. table_lookup test (rules (translator_init mt down up) d) p = Some c \<and>
    implements c (eval_fdd test d p) \<and> down \<le> rule_prio c \<and> rule_prio c < up"
proof -
  have "state_ok T k (translator_init mt down up) d"
    using assms by (simp add: state_ok_def translator_init_def range_ok_def)
  from translate_correct [OF this assms(1,2)] obtain c
    where c: "wins test (rules (translator_init mt down up) d) p c" "implements c (eval_fdd test d p)"
      "call_ok (translator_init mt down up) d c"
    using assms(7,8) wins_member(1) unfolding translated_def by (fastforce simp: translator_init_def)
  then show ?thesis
    using wins_lookup [OF c(1)] by (auto simp: call_ok_def translator_init_def local_prio_up_def)
qed

end

end
