(* ===== verification/Trace_Tree.thy ===== *)
theory Trace_Tree
  imports Trace_Merge Fdd_Translator
begin

text \<open>
  Trace trees, \<^verbatim>\<open>src/retic/trace_tree.cc\<close>: what is known about the handlers of a leaf.
  A trace is added by \<open>Augmention\<close>, found again by the \<open>Traverser\<close> of
  \<^verbatim>\<open>src/retic/traverse_trace_tree.cc\<close>, and turned into rules by the \<open>Translator\<close> of
  \<^verbatim>\<open>src/retic/trace_tree_translator.cc\<close>.
\<close>

section \<open>Adding a trace\<close>

text \<open>
  The state of \<open>Augmention\<close>. The pointer to the current node is the subtree the recursion of
  \<open>augment\<close> has reached; \<open>a_backend\<close> tells whether a backend was passed, \<open>a_calls\<close> are
  the calls made to it.
\<close>

record augmention =
  a_backend :: bool
  a_match :: field_set
  a_prio_down :: "16 word"
  a_prio_up :: "16 word"
  a_calls :: "backend_call list"

definition augmention_init :: "bool \<Rightarrow> field_set \<Rightarrow> 16 word \<Rightarrow> 16 word \<Rightarrow> augmention" where
  "augmention_init backend pre_match down up = \<lparr>a_backend = backend, a_match = pre_match,
     a_prio_down = down, a_prio_up = up, a_calls = []\<rparr>"

text \<open>The sum of two \<open>uint16_t\<close> is an \<open>int\<close>.\<close>

definition mid_prio :: "16 word \<Rightarrow> 16 word \<Rightarrow> 16 word" where
  "mid_prio up down = ucast ((ucast up + ucast down :: 32 word) div 2)"

text \<open>The cases of a load node.\<close>

fun find_case :: "bits \<Rightarrow> (bits \<times> tnode) list \<Rightarrow> tnode option" where
  "find_case b [] = None"
| "find_case b ((c, n) # cs) = (if c = b then Some n else find_case b cs)"

fun set_case :: "bits \<Rightarrow> tnode \<Rightarrow> (bits \<times> tnode) list \<Rightarrow> (bits \<times> tnode) list" where
  "set_case b n [] = [(b, n)]"
| "set_case b n ((c, m) # cs) = (if c = b then (c, n) # cs else (c, m) # set_case b n cs)"

text \<open>
  \<open>operator()\<close> on a node of the trace: the node to go on with, how the tree is rebuilt
  around it, and the state of the visitor.
\<close>

definition aug_load :: "oxm_field \<Rightarrow> tnode \<Rightarrow> augmention \<Rightarrow> ((tnode \<Rightarrow> tnode) \<times> tnode \<times> augmention) res" where
  "aug_load f cur s = (let s' = s\<lparr>a_match := fs_modify (a_match s) f\<rparr> in
     case cur of
       Unexplored \<Rightarrow> Inr (\<lambda>n. Load_node (mask_of f) [(f_value f, n)], Unexplored, s')
     | Load_node m cases \<Rightarrow>
         (if \<not> mask_eq m (mask_of f) then Inl Inconsistent_trace
          else Inr (\<lambda>n. Load_node m (set_case (f_value f) n cases),
            case find_case (f_value f) cases of None \<Rightarrow> Unexplored | Some n \<Rightarrow> n, s'))
     | _ \<Rightarrow> Inl Inconsistent_trace)"

definition aug_after_test :: "oxm_field \<Rightarrow> bool \<Rightarrow> augmention \<Rightarrow> augmention" where
  "aug_after_test f r s = (let middle = mid_prio (a_prio_up s) (a_prio_down s) in
     if r then s\<lparr>a_match := fs_modify (a_match s) f, a_prio_down := middle + 1\<rparr>
     else s\<lparr>a_prio_up := middle - 1\<rparr>)"

definition aug_test :: "oxm_field \<Rightarrow> bool \<Rightarrow> tnode \<Rightarrow> augmention \<Rightarrow> ((tnode \<Rightarrow> tnode) \<times> tnode \<times> augmention) res" where
  "aug_test f r cur s = (let middle = mid_prio (a_prio_up s) (a_prio_down s) in
     case cur of
       Unexplored \<Rightarrow>
         (let s' = (if a_backend s
            then s\<lparr>a_calls := a_calls s @ [Install_barrier (fs_modify (a_match s) f) middle]\<rparr> else s)
          in Inr (if r then (\<lambda>n. Test_node f n Unexplored) else (\<lambda>n. Test_node f Unexplored n),
               Unexplored, aug_after_test f r s'))
     | Test_node need p n \<Rightarrow>
         (if \<not> field_eq need f then Inl Inconsistent_trace
          else if r then Inr (\<lambda>p'. Test_node need p' n, p, aug_after_test f r s)
          else Inr (\<lambda>n'. Test_node need p n', n, aug_after_test f r s))
     | _ \<Rightarrow> Inr (\<lambda>n. n, cur, aug_after_test f r s))"

definition aug_step :: "obs \<Rightarrow> tnode \<Rightarrow> augmention \<Rightarrow> ((tnode \<Rightarrow> tnode) \<times> tnode \<times> augmention) res" where
  "aug_step x cur s = (case x of Load_obs f \<Rightarrow> aug_load f cur s | Test_obs f r \<Rightarrow> aug_test f r cur s)"

text \<open>
  \<open>finish\<close>: the leaf, with the compiled diagram of the policy. The priorities that the
  translator writes to the leaves of the diagram are kept there. A compilation that does not
  return is \<open>None\<close>.
\<close>

definition aug_finish :: "policy \<Rightarrow> tnode \<Rightarrow> augmention \<Rightarrow> (tnode \<times> diagram \<times> augmention) res option" where
  "aug_finish p cur s =
     (let finish_leaf = Option.bind (compile p) (\<lambda>d.
        if a_backend s then
          (case translate (translator_init (a_match s) (a_prio_down s) (a_prio_up s)) d of
             (_, calls, d') \<Rightarrow> Some (Inr (Leaf_node p (Some d'), d', s\<lparr>a_calls := a_calls s @ calls\<rparr>)))
        else Some (Inr (Leaf_node p (Some d), d, s)))
      in case cur of
           Unexplored \<Rightarrow> finish_leaf
         | Leaf_node q d \<Rightarrow> finish_leaf
         | _ \<Rightarrow> Some (Inl Inconsistent_trace))"

fun augment :: "obs list \<Rightarrow> policy \<Rightarrow> tnode \<Rightarrow> augmention \<Rightarrow> (tnode \<times> diagram \<times> augmention) res option" where
  "augment [] p cur s = aug_finish p cur s"
| "augment (x # xs) p cur s = (case aug_step x cur s of
     Inl e \<Rightarrow> Some (Inl e)
   | Inr (rebuild, cur', s') \<Rightarrow> Option.bind (augment xs p cur' s') (\<lambda>r. Some (rbind r
       (\<lambda>(n, d, s''). Inr (rebuild n, d, s'')))))"

section \<open>Looking a packet up\<close>

text \<open>The field of a case: \<open>(type == bits) & mask\<close>.\<close>

definition case_field :: "oxm_mask \<Rightarrow> bits \<Rightarrow> oxm_field" where
  "case_field m b = \<lparr>f_type = m_type m, f_value = bits_and b (m_mask m), f_mask = m_mask m\<rparr>"

lemma case_field_ctor: "wf_mask m \<Longrightarrow> length b = nbits (m_type m) \<Longrightarrow>
    rbind (value_ctor (m_type m) b) (\<lambda>v. value_and_mask v m) = Inr (case_field m b)"
  by (simp add: value_ctor_def check_value_def value_and_mask_def binop_type_def field_ctor_def
      check_mask_def case_field_def wf_mask_def)

fun tree_lookup :: "('p \<Rightarrow> oxm_mask \<Rightarrow> oxm_field) \<Rightarrow> ('p \<Rightarrow> oxm_field \<Rightarrow> bool) \<Rightarrow> 'p \<Rightarrow> tnode \<Rightarrow> field_set \<Rightarrow>
    diagram option \<times> field_set"
  and cases_lookup :: "('p \<Rightarrow> oxm_mask \<Rightarrow> oxm_field) \<Rightarrow> ('p \<Rightarrow> oxm_field \<Rightarrow> bool) \<Rightarrow> 'p \<Rightarrow> oxm_mask \<Rightarrow>
    (bits \<times> tnode) list \<Rightarrow> field_set \<Rightarrow> diagram option \<times> field_set" where
  "tree_lookup ld tst p Unexplored mt = (None, mt)"
| "tree_lookup ld tst p (Leaf_node pol d) mt = (d, mt)"
| "tree_lookup ld tst p (Test_node f pos neg) mt =
     (if tst p f then tree_lookup ld tst p pos (fs_modify mt f) else tree_lookup ld tst p neg mt)"
| "tree_lookup ld tst p (Load_node m cases) mt = cases_lookup ld tst p m cases mt"
| "cases_lookup ld tst p m [] mt = (None, mt)"
| "cases_lookup ld tst p m ((b, n) # cs) mt =
     (if b = f_value (ld p m) then tree_lookup ld tst p n (fs_modify mt (case_field m b))
      else cases_lookup ld tst p m cs mt)"

lemma cases_lookup_find:
  "cases_lookup ld tst p m cs mt = (case find_case (f_value (ld p m)) cs of None \<Rightarrow> (None, mt)
     | Some n \<Rightarrow> tree_lookup ld tst p n (fs_modify mt (case_field m (f_value (ld p m)))))"
  by (induction cs) (auto split: if_splits)

lemma find_set_case [simp]: "find_case b (set_case c n cs) = (if b = c then Some n else find_case b cs)"
  by (induction cs) auto

section \<open>Translating a tree\<close>

text \<open>
  The visitor keeps \<open>prio_down\<close> raised after a positive branch, as the code does.
\<close>

record tree_translator =
  tt_match :: field_set
  tt_prio_up :: "16 word"
  tt_prio_down :: "16 word"
  tt_calls :: "backend_call list"

fun tree_translate :: "tnode \<Rightarrow> tree_translator \<Rightarrow> tree_translator res"
  and cases_translate :: "oxm_mask \<Rightarrow> (bits \<times> tnode) list \<Rightarrow> tree_translator \<Rightarrow> tree_translator res" where
  "tree_translate Unexplored s = Inr s"
| "tree_translate (Leaf_node p d) s = Inl Runtime_error"
| "tree_translate (Test_node f pos neg) s =
     (let middle = mid_prio (tt_prio_up s) (tt_prio_down s)
      in rbind (tree_translate neg (s\<lparr>tt_prio_up := middle - 1\<rparr>)) (\<lambda>s2.
        let mt = fs_modify (tt_match s2) f
        in rbind (tree_translate pos (s2\<lparr>tt_match := mt, tt_calls := tt_calls s2 @ [Install_barrier mt middle],
               tt_prio_up := tt_prio_up s, tt_prio_down := middle + 1\<rparr>)) (\<lambda>s3.
             Inr (s3\<lparr>tt_match := fs_erase (tt_match s3) (mask_of f)\<rparr>))))"
| "tree_translate (Load_node m cases) s = cases_translate m cases s"
| "cases_translate m [] s = Inr s"
| "cases_translate m ((b, n) # cs) s =
     rbind (tree_translate n (s\<lparr>tt_match := fs_modify (tt_match s) (case_field m b)\<rparr>)) (\<lambda>s2.
       cases_translate m cs (s2\<lparr>tt_match := fs_erase (tt_match s2) m\<rparr>))"

text \<open>The match collected on the way has no influence on what is found.\<close>

fun tree_find :: "('p \<Rightarrow> oxm_mask \<Rightarrow> oxm_field) \<Rightarrow> ('p \<Rightarrow> oxm_field \<Rightarrow> bool) \<Rightarrow> 'p \<Rightarrow> tnode \<Rightarrow> diagram option"
  and cases_find :: "('p \<Rightarrow> oxm_mask \<Rightarrow> oxm_field) \<Rightarrow> ('p \<Rightarrow> oxm_field \<Rightarrow> bool) \<Rightarrow> 'p \<Rightarrow> oxm_mask \<Rightarrow>
    (bits \<times> tnode) list \<Rightarrow> diagram option" where
  "tree_find ld tst p Unexplored = None"
| "tree_find ld tst p (Leaf_node pol d) = d"
| "tree_find ld tst p (Test_node f pos neg) = (if tst p f then tree_find ld tst p pos else tree_find ld tst p neg)"
| "tree_find ld tst p (Load_node m cases) = cases_find ld tst p m cases"
| "cases_find ld tst p m [] = None"
| "cases_find ld tst p m ((b, n) # cs) =
     (if b = f_value (ld p m) then tree_find ld tst p n else cases_find ld tst p m cs)"

lemma lookup_find [simp]:
  "fst (tree_lookup ld tst p t mt) = tree_find ld tst p t"
  "fst (cases_lookup ld tst p m cs mt) = cases_find ld tst p m cs"
  by (induction ld tst p t mt and ld tst p m cs mt rule: tree_lookup_cases_lookup.induct) simp_all

lemma cases_find_case:
  "cases_find ld tst p m cs = (case find_case (f_value (ld p m)) cs of None \<Rightarrow> None
     | Some n \<Rightarrow> tree_find ld tst p n)"
  by (induction cs) auto

section \<open>What is added is found\<close>

lemma augment_Cons:
  assumes "augment (x # xs) p cur s = Some (Inr (t, d, s2))"
  obtains rebuild cur' s' n where "aug_step x cur s = Inr (rebuild, cur', s')"
    "augment xs p cur' s' = Some (Inr (n, d, s2))" "t = rebuild n"
  using assms by (auto simp: bind_eq_Some_conv rbind_eq_Inr split: sum.splits prod.splits)

lemma aug_finish_lookup:
  "aug_finish p cur s = Some (Inr (t, d, s2)) \<Longrightarrow> t = Leaf_node p (Some d)"
  by (cases cur; cases "compile p"; cases "a_backend s") (simp_all add: aug_finish_def Let_def split_beta, auto)

text \<open>The packet answers an observation as recorded.\<close>

definition answers :: "('p \<Rightarrow> oxm_mask \<Rightarrow> oxm_field) \<Rightarrow> ('p \<Rightarrow> oxm_field \<Rightarrow> bool) \<Rightarrow> 'p \<Rightarrow> obs \<Rightarrow> bool" where
  "answers ld tst p x = (case x of Load_obs f \<Rightarrow> f_value (ld p (mask_of f)) = f_value f | Test_obs f r \<Rightarrow> tst p f = r)"

text \<open>Loads and tests depend on the mask and field only up to the \<open>==\<close> of the code.\<close>

definition well_behaved :: "oxm_type set \<Rightarrow> ('p \<Rightarrow> oxm_mask \<Rightarrow> oxm_field) \<Rightarrow> ('p \<Rightarrow> oxm_field \<Rightarrow> bool) \<Rightarrow> 'p \<Rightarrow> bool"
where
  "well_behaved T ld tst p =
     ((\<forall>m n. m_type n \<in> T \<and> mask_eq m n \<longrightarrow> f_value (ld p m) = f_value (ld p n)) \<and>
      (\<forall>f g. f_type g \<in> T \<and> field_eq f g \<longrightarrow> tst p f = tst p g))"

definition obs_in :: "oxm_type set \<Rightarrow> obs \<Rightarrow> bool" where
  "obs_in T x = (f_type (obs_field x) \<in> T)"

lemma well_behavedD:
  assumes "well_behaved T ld tst p" "f_type f \<in> T"
  shows "mask_eq m (mask_of f) \<Longrightarrow> f_value (ld p m) = f_value (ld p (mask_of f))"
    and "field_eq g f \<Longrightarrow> tst p g = tst p f"
  using assms by (simp_all add: well_behaved_def)

lemma aug_step_follow:
  assumes "aug_step x cur s = Inr (rebuild, cur', s')" "well_behaved T ld tst p" "obs_in T x" "answers ld tst p x"
  shows "tree_find ld tst p (rebuild n) = tree_find ld tst p n"
proof (cases x)
  case (Load_obs f)
  have f: "f_type f \<in> T" using assms Load_obs by (simp add: obs_in_def)
  show ?thesis
  proof (cases cur)
    case (Load_node m cs)
    then have "mask_eq m (mask_of f)"
      using assms Load_obs by (auto simp: aug_step_def aug_load_def Let_def split: if_splits)
    then have "f_value (ld p m) = f_value (ld p (mask_of f))" by (rule well_behavedD [OF assms(2) f])
    then show ?thesis
      using assms Load_obs Load_node
      by (auto simp: aug_step_def aug_load_def Let_def answers_def cases_find_case split: if_splits option.splits)
  qed (use assms Load_obs in \<open>auto simp: aug_step_def aug_load_def Let_def answers_def\<close>)
next
  case (Test_obs f r)
  have f: "f_type f \<in> T" using assms Test_obs by (simp add: obs_in_def)
  show ?thesis
  proof (cases cur)
    case (Test_node g a b)
    then have "field_eq g f"
      using assms Test_obs by (auto simp: aug_step_def aug_test_def Let_def split: if_splits)
    then have "tst p g = tst p f" by (rule well_behavedD [OF assms(2) f])
    then show ?thesis
      using assms Test_obs Test_node
      by (auto simp: aug_step_def aug_test_def Let_def answers_def split: if_splits)
  qed (use assms Test_obs in \<open>auto simp: aug_step_def aug_test_def Let_def answers_def split: if_splits\<close>)
qed

lemma augment_finds:
  assumes "augment xs pol cur s = Some (Inr (t, d, s'))" "well_behaved T ld tst p"
    and "list_all (obs_in T) xs" "list_all (answers ld tst p) xs"
  shows "tree_find ld tst p t = Some d"
  using assms
proof (induction xs arbitrary: cur s t)
  case Nil
  then show ?case using aug_finish_lookup [of pol cur s t d s'] by simp
next
  case (Cons x xs)
  obtain rebuild cur' s1 n where x: "aug_step x cur s = Inr (rebuild, cur', s1)"
    "augment xs pol cur' s1 = Some (Inr (n, d, s'))" "t = rebuild n"
    using augment_Cons [OF Cons.prems(1)] .
  then show ?case using Cons.IH [OF x(2)] Cons.prems aug_step_follow [OF x(1) Cons.prems(2)] by simp
qed

section \<open>What was known stays\<close>

text \<open>The trace fits the tree: no test is recorded where the tree has a leaf or a load.\<close>

fun fits :: "tnode \<Rightarrow> obs list \<Rightarrow> bool" where
  "fits cur [] = True"
| "fits cur (x # xs) = (case cur of
     Unexplored \<Rightarrow> True
   | Leaf_node p d \<Rightarrow> False
   | Test_node f p n \<Rightarrow> (case x of Test_obs g r \<Rightarrow> fits (if r then p else n) xs | Load_obs g \<Rightarrow> False)
   | Load_node m cs \<Rightarrow> (case x of
       Load_obs g \<Rightarrow> (case find_case (f_value g) cs of None \<Rightarrow> True | Some n \<Rightarrow> fits n xs)
     | Test_obs g r \<Rightarrow> False))"

lemma fits_Unexplored [simp]: "fits Unexplored xs"
  by (cases xs) simp_all

lemma aug_step_fits:
  assumes "aug_step x cur s = Inr (rebuild, cur', s')" "fits cur (x # xs)"
  shows "fits cur' xs"
  using assms
  by (cases x; cases cur)
    (auto simp: aug_step_def aug_load_def aug_test_def Let_def split: if_splits option.splits)

text \<open>A packet that answers as recorded goes to the subtree, another one does not notice the step.\<close>

lemma aug_step_find:
  assumes "aug_step x cur s = Inr (rebuild, cur', s')" "fits cur (x # xs)" "well_behaved T ld tst p" "obs_in T x"
  shows "if answers ld tst p x then tree_find ld tst p cur = tree_find ld tst p cur'
    else tree_find ld tst p (rebuild n) = tree_find ld tst p cur"
proof (cases x)
  case (Load_obs f)
  have f: "f_type f \<in> T" using assms Load_obs by (simp add: obs_in_def)
  show ?thesis
  proof (cases cur)
    case (Load_node m cs)
    then have "mask_eq m (mask_of f)"
      using assms Load_obs by (auto simp: aug_step_def aug_load_def Let_def split: if_splits)
    then have "f_value (ld p m) = f_value (ld p (mask_of f))" by (rule well_behavedD [OF assms(3) f])
    then show ?thesis
      using assms Load_obs Load_node
      by (auto simp: aug_step_def aug_load_def Let_def answers_def cases_find_case split: if_splits option.splits)
  qed (use assms Load_obs in \<open>auto simp: aug_step_def aug_load_def Let_def answers_def\<close>)
next
  case (Test_obs f r)
  have f: "f_type f \<in> T" using assms Test_obs by (simp add: obs_in_def)
  show ?thesis
  proof (cases cur)
    case (Test_node g a b)
    then have "field_eq g f"
      using assms Test_obs by (auto simp: aug_step_def aug_test_def Let_def split: if_splits)
    then have "tst p g = tst p f" by (rule well_behavedD [OF assms(3) f])
    then show ?thesis
      using assms Test_obs Test_node
      by (auto simp: aug_step_def aug_test_def Let_def answers_def split: if_splits)
  qed (use assms Test_obs in \<open>auto simp: aug_step_def aug_test_def Let_def answers_def split: if_splits\<close>)
qed

lemma augment_keeps:
  assumes "augment xs pol cur s = Some (Inr (t, d, s'))" "fits cur xs" "well_behaved T ld tst p"
    and "list_all (obs_in T) xs" "\<not> list_all (answers ld tst p) xs"
  shows "tree_find ld tst p t = tree_find ld tst p cur"
  using assms
proof (induction xs arbitrary: cur s t)
  case (Cons x xs)
  obtain rebuild cur' s1 n where x: "aug_step x cur s = Inr (rebuild, cur', s1)"
    "augment xs pol cur' s1 = Some (Inr (n, d, s'))" "t = rebuild n"
    using augment_Cons [OF Cons.prems(1)] .
  have ox: "obs_in T x" "list_all (obs_in T) xs" using Cons.prems(4) by simp_all
  show ?case
    using aug_step_find [OF x(1) Cons.prems(2,3) ox(1), of n] aug_step_follow [OF x(1) Cons.prems(3) ox(1), of n]
      Cons.IH [OF x(2) aug_step_fits [OF x(1) Cons.prems(2)] Cons.prems(3) ox(2)] Cons.prems(5) x(3)
    by (auto split: if_splits)
qed simp

section \<open>The match of the new rules\<close>

fun taken :: "obs list \<Rightarrow> oxm_field list" where
  "taken [] = []"
| "taken (Load_obs f # xs) = f # taken xs"
| "taken (Test_obs f r # xs) = (if r then f # taken xs else taken xs)"

lemma aug_step_match:
  "aug_step x cur s = Inr (rebuild, cur', s') \<Longrightarrow> a_match s' = fs_modify_all (a_match s) (taken [x])"
  by (cases x; cases cur)
    (auto simp: aug_step_def aug_load_def aug_test_def aug_after_test_def Let_def split: if_splits)

lemma aug_finish_match:
  "aug_finish p cur s = Some (Inr (t, d, s2)) \<Longrightarrow> a_match s2 = a_match s"
  by (cases cur; cases "compile p"; cases "a_backend s") (simp_all add: aug_finish_def Let_def split_beta, auto)

lemma augment_match:
  "augment xs pol cur s = Some (Inr (t, d, s')) \<Longrightarrow> a_match s' = fs_modify_all (a_match s) (taken xs)"
proof (induction xs arbitrary: cur s t)
  case Nil
  then show ?case using aug_finish_match [of pol cur s t d s'] by simp
next
  case (Cons x xs)
  obtain rebuild cur' s1 n where x: "aug_step x cur s = Inr (rebuild, cur', s1)"
    "augment xs pol cur' s1 = Some (Inr (n, d, s'))" "t = rebuild n"
    using augment_Cons [OF Cons.prems(1)] .
  then show ?case using Cons.IH [OF x(2)] aug_step_match [OF x(1)] by (cases x) auto
qed

section \<open>Trees of field sets\<close>

lemma well_behaved_fs:
  assumes "full_fs (set known_types) p"
  shows "well_behaved (set known_types) fs_load fs_test p"
proof -
  have ld: "f_value (fs_load p m) = f_value (fs_load p n) \<and> f_mask (fs_load p m) = f_mask (fs_load p n)"
    if "m_type n \<in> set known_types" "mask_eq m n" for m n
  proof -
    have "fs_find p (m_type n) \<noteq> None" using assms that(1) by (simp add: full_fs_def)
    then obtain f where "fs_find p (m_type n) = Some f" by blast
    moreover have "fs_find p (m_type m) = fs_find p (m_type n)"
      using that(2) by (intro fs_find_cong) (simp add: mask_eq_def)
    ultimately show ?thesis using that(2) by (simp add: fs_load_def and_mask_def mask_eq_def)
  qed
  moreover have "fs_test p f = fs_test p g" if "f_type g \<in> set known_types" "field_eq f g" for f g
    using ld [of "mask_of g" "mask_of f"] that by (simp add: fs_test_def matches_def field_eq_def mask_eq_def)
  ultimately show ?thesis by (simp add: well_behaved_def)
qed

lemma answers_fs:
  assumes p: "full_fs (set known_types) p" and x: "obs_ok (set known_types) x"
  shows "answers fs_load fs_test p x = observes entry p x"
proof (cases x)
  case (Load_obs f)
  have f: "wf_field f" "f_type f \<in> set known_types" using x Load_obs by (simp_all add: obs_ok_def)
  note e = fsv.val_wf [OF p f(2)] fsv.val_type [OF p f(2)]
  have w: "wf_field (and_mask (entry p (f_type f)) (mask_of f))" using e f by (simp add: wf_and_mask wf_mask_of)
  have "f_value (and_mask (entry p (f_type f)) (mask_of f)) = f_value f \<longleftrightarrow>
      (\<forall>i < nbits (f_type f). f_mask f ! i \<longrightarrow> f_value (entry p (f_type f)) ! i = f_value f ! i)"
    (is "?a = ?b \<longleftrightarrow> ?r")
  proof
    show "?a = ?b \<Longrightarrow> ?r"
      using and_mask_nth [OF e(1) wf_mask_of [OF f(1)]] e(2) by auto
    show "?r \<Longrightarrow> ?a = ?b"
      using and_mask_nth [OF e(1) wf_mask_of [OF f(1)]] e(2) f w wf_field_value_mask [OF f(1)]
      by (intro list_eqI2) (auto simp: wf_field_length)
  qed
  then show ?thesis
    using Load_obs fsv.matches_val [OF p f(1) refl f(2)] by (simp add: answers_def fs_load_entry)
next
  case (Test_obs f r)
  then show ?thesis using fs_test_entry [OF p] x by (simp add: answers_def obs_ok_def)
qed

lemma answers_all_fs:
  "full_fs (set known_types) p \<Longrightarrow> list_all (obs_ok (set known_types)) xs \<Longrightarrow>
    list_all (answers fs_load fs_test p) xs = agrees entry p xs"
  by (induction xs) (simp_all add: answers_fs)


definition sample_trace :: "obs list" where
  "sample_trace = [Test_obs (in_port_is 1) False, Load_obs (num_field ofb_eth_type 8)]"


text \<open>
  A trace that contradicts the tree is not always rejected. Where the tree has a leaf, a
  recorded load throws \<open>inconsistent_trace\<close>; a recorded test goes unnoticed, and the policy of the
  leaf is replaced for all packets.
\<close>

lemma test_overwrites_leaf:
  "augment [Load_obs f] pol (Leaf_node q e) (augmention_init False mt lo hi) = Some (Inl Inconsistent_trace) \<and>
   augment [Test_obs f r] pol (Leaf_node q e) (augmention_init False mt lo hi) =
     map_option (\<lambda>d. Inr (Leaf_node pol (Some d), d, aug_after_test f r (augmention_init False mt lo hi))) (compile pol)"
  by (cases "compile pol") (simp_all add: aug_step_def aug_load_def aug_test_def aug_finish_def Let_def
      aug_after_test_def augmention_init_def)

section \<open>Priorities\<close>

lemma unat_mid_prio: "unat (mid_prio up down) = (unat up + unat down) div 2"
proof -
  have b: "unat w < 65536" for w :: "16 word" using unsigned_less [of w, where 'a = nat] by simp
  have "unat (ucast up + ucast down :: 32 word) = unat up + unat down"
    using b [of up] b [of down] by (subst unat_add_lem [THEN iffD1]) (simp_all add: unsigned_ucast_eq take_bit_nat_eq_self)
  then show ?thesis
    using b [of up] b [of down]
    by (simp add: mid_prio_def unsigned_ucast_eq unat_div take_bit_nat_eq_self)
qed

lemma mid_prio_between: "down \<le> up \<Longrightarrow> down \<le> mid_prio up down \<and> mid_prio up down \<le> up"
  by (simp add: word_le_nat_alt unat_mid_prio) linarith

text \<open>
  The visitor of trees does not restore \<open>prio_down\<close>: of two cases of one load, which no packet
  can both take, the second one gets a smaller range of priorities.
\<close>

lemma sibling_cases_get_other_priorities:
  "case tree_translate (Load_node (exact_mask ofb_eth_type)
      [(bits_of 16 1, Test_node (in_port_is 1) Unexplored Unexplored),
       (bits_of 16 2, Test_node (in_port_is 1) Unexplored Unexplored)])
     \<lparr>tt_match = [], tt_prio_up = 65535, tt_prio_down = 1, tt_calls = []\<rparr> of
     Inl e \<Rightarrow> False
   | Inr s \<Rightarrow> map rule_prio (tt_calls s) = [32768, 49152]"
  by code_simp

end
