(* ===== verification/Retic_Pipeline.thy ===== *)
theory Retic_Pipeline
  imports Fdd_Translator Sample_Packets
begin

text \<open>
  From policies to flow tables: the compiler followed by the rule generator, as
  \<open>Retic::reinstallRules\<close> composes them, and the policies for which the chain goes wrong.
\<close>

section \<open>The compiler\<close>

text \<open>
  C1: for every policy over exact fields of the known types whose handlers come last in their
  sequences, \<open>compile\<close> returns a diagram, and for every packet the leaf of the diagram holds
  exactly the outcomes (as a bag) and the timeouts that the policy means for the packet.
\<close>

theorem compile_preserves_meaning:
  assumes "list_all (in_types (set known_types)) (policy_fields a)" "tail_handlers a"
  shows "\<exists>d. compile a = Some d \<and> (\<forall>p. full_fs (set known_types) p \<longrightarrow>
    outcomes fs_modify (eval_fdd fs_test d p) p = sem fs_test fs_modify a p \<and>
    flow_settings_of (eval_fdd fs_test d p) = sem_settings fs_test fs_modify a p)"
  using fdd_fs.compile_correct [OF assms] by (auto simp: leaf_is_def)

theorem compile_preserves_meaning_witness:
  "\<exists>d. compile (Sequential (Filter (in_port_is 1)) (fwd 2)) = Some d \<and>
    outcomes fs_modify (eval_fdd fs_test d zero_packet) zero_packet =
      sem fs_test fs_modify (Sequential (Filter (in_port_is 1)) (fwd 2)) zero_packet"
proof -
  have "list_all (in_types (set known_types)) (policy_fields (Sequential (Filter (in_port_is 1)) (fwd 2)))"
    "tail_handlers (Sequential (Filter (in_port_is 1)) (fwd 2))"
    by (simp, simp add: fwd_def)
  from compile_preserves_meaning [OF this] full_zero_packet show ?thesis by blast
qed

section \<open>The flow table\<close>

text \<open>\<open>Retic::reinstallRules\<close>: compile the main policy and let a fresh translator install it.\<close>

definition reinstall_rules :: "policy \<Rightarrow> backend_call list option" where
  "reinstall_rules a = Option.bind (compile a) (\<lambda>d. Some (rules translator_default d))"

definition forwards :: "backend_call \<Rightarrow> field_set \<Rightarrow> field_set outcome multiset \<Rightarrow> flow_settings \<Rightarrow> bool" where
  "forwards c p M st = (case c of
     Install mt acts prio s \<Rightarrow>
       image_mset (\<lambda>x. (apply_mods fs_modify p x, None)) (mset acts) = M \<and> s = st
   | Install_barrier mt prio \<Rightarrow> False)"

lemma implements_static:
  assumes "implements c l" "list_all (\<lambda>u. body u = None) (sets l)"
  shows "forwards c p (outcomes fs_modify l p) (flow_settings_of l)"
proof -
  have "\<not> list_ex has_body (sets l)" using assms(2) by (auto simp: list_all_iff list_ex_iff has_body_iff)
  then have c: "c = Install (rule_match c) (map pred_actions (sets l)) (rule_prio c) (flow_settings_of l)"
    using assms(1) by (simp add: implements_def leaf_call_def)
  have "image_mset (unit_outcome fs_modify p) (mset (sets l)) =
      image_mset (\<lambda>u. (apply_mods fs_modify p (pred_actions u), None)) (mset (sets l))"
    using assms(2) by (intro image_mset_cong) (auto simp: unit_outcome_def list_all_iff)
  then show ?thesis
    by (subst c) (simp add: forwards_def outcomes_def image_mset.compositionality comp_def)
qed

lemma eval_static: "diagram_static d \<Longrightarrow> list_all (\<lambda>u. body u = None) (sets (eval_fdd tst d p))"
  by (induction d rule: diagram_induct) auto

text \<open>
  C2: for a handler-free policy whose diagram is reduced and at most 14 priority levels deep,
  every packet matches exactly one rule of highest priority in the table that
  \<open>reinstallRules\<close> installs, and that rule forwards exactly the packets the policy means, with
  the timeouts it means.
\<close>

theorem table_implements_policy:
  assumes "list_all (in_types (set known_types)) (policy_fields a)" "handler_free a"
    and "compile a = Some d" "reduced d" "levels None d \<le> 14" "full_fs (set known_types) p"
  shows "\<exists>c. reinstall_rules a = Some (rules translator_default d) \<and>
    table_lookup fs_test (rules translator_default d) p = Some c \<and>
    forwards c p (sem fs_test fs_modify a p) (sem_settings fs_test fs_modify a p)"
proof -
  have d: "diagram_ok (set known_types) d" "diagram_static d"
    "leaf_is fs_modify (sem fs_test fs_modify a p) (sem_settings fs_test fs_modify a p) (eval_fdd fs_test d p) p"
    using fdd_fs.compile_correct [OF assms(1) handler_free_tail [OF assms(2)]] assms(2,3,6) by auto
  have "unat (1 :: 16 word) + gap 14 \<le> unat (65535 :: 16 word)" by (simp add: gap_def)
  then obtain c where c: "table_lookup fs_test (rules translator_default d) p = Some c"
    "implements c (eval_fdd fs_test d p)"
    using fsp.table_correct [OF d(1) assms(4,5), of 1 65535 "[]" p] assms(6)
    by (auto simp: translator_default_def fs_match_def)
  then show ?thesis
    using implements_static [OF c(2) eval_static [OF d(2)], of p] d(3) assms(3)
    by (auto simp: reinstall_rules_def leaf_is_def)
qed

theorem table_implements_policy_witness:
  "\<exists>d c. compile (Sequential (Filter (in_port_is 1)) (fwd 2)) = Some d \<and>
    table_lookup fs_test (rules translator_default d) zero_packet = Some c \<and>
    forwards c zero_packet (sem fs_test fs_modify (Sequential (Filter (in_port_is 1)) (fwd 2)) zero_packet)
      (sem_settings fs_test fs_modify (Sequential (Filter (in_port_is 1)) (fwd 2)) zero_packet)"
proof -
  let ?a = "Sequential (Filter (in_port_is 1)) (fwd 2)"
  have "case compile ?a of None \<Rightarrow> False | Some d \<Rightarrow> reduced d \<and> levels None d \<le> 14" by code_simp
  then obtain d where d: "compile ?a = Some d" "reduced d" "levels None d \<le> 14"
    by (auto split: option.splits)
  have "list_all (in_types (set known_types)) (policy_fields ?a)" "handler_free ?a"
    by (simp, simp add: fwd_def)
  from table_implements_policy [OF this d full_zero_packet] d(1) show ?thesis by blast
qed



section \<open>Where the chain goes wrong\<close>

definition out_port_is :: "nat \<Rightarrow> oxm_field" where
  "out_port_is v = num_field ofb_out_port v"

lemma fwd_eq: "fwd w = Modify (out_port_is (unat w))"
  by (simp add: fwd_def out_port_is_def num_field_def)

text \<open>Three filters on the same field, the smallest value composed last.\<close>

definition three_ports :: policy where
  "three_ports = policy_plus
     (policy_plus (policy_seq (Filter (in_port_is 3)) (fwd 4)) (policy_seq (Filter (in_port_is 2)) (fwd 3)))
     (policy_seq (Filter (in_port_is 1)) (fwd 2))"

definition port3_packet :: field_set where
  "port3_packet = fs_modify zero_packet (in_port_is 3)"

text \<open>
  The premise that the diagram is reduced is needed in the theorem on tables. For the sum of three filters
  on the input port composed in falling order, the composition leaves the test for port 3 below
  the positive branch for port 1; the translator then overwrites the match, and the rule that
  wins for packets from port 3 forwards them to ports 4 and 2, although the policy means
  port 4 only.
\<close>

lemma unreduced_sum_misforwards:
  "map_option (\<lambda>tbl. table_lookup fs_test tbl port3_packet) (reinstall_rules three_ports) =
     Some (Some (Install [in_port_is 3] [[out_port_is 4], [out_port_is 2]] 57342 default_settings)) \<and>
   sem fs_test fs_modify three_ports port3_packet = {#(fs_modify port3_packet (out_port_is 4), None)#}"
proof
  show "map_option (\<lambda>tbl. table_lookup fs_test tbl port3_packet) (reinstall_rules three_ports) =
     Some (Some (Install [in_port_is 3] [[out_port_is 4], [out_port_is 2]] 57342 default_settings))"
    by code_simp
  have "fs_test port3_packet (in_port_is 3)" "\<not> fs_test port3_packet (in_port_is 2)"
    "\<not> fs_test port3_packet (in_port_is 1)" by code_simp+
  then show "sem fs_test fs_modify three_ports port3_packet = {#(fs_modify port3_packet (out_port_is 4), None)#}"
    by (simp add: three_ports_def sem_plus policy_seq_def fwd_eq)
qed

text \<open>
  the composition of two tests of one type whose values do not differ but whose masks do
  exchanges its operands forever: \<open>parallel_composition\<close> does not return.
\<close>

lemma masked_parallel_diverges:
  assumes "type_eq (f_type f) (f_type g)" "f_value f = f_value g" "f_mask f \<noteq> f_mask g"
  shows "par (Node f p n) (Node g q m) = None"
proof -
  have ne: "\<not> field_eq f g" "\<not> field_eq g f" "type_eq (f_type g) (f_type f)"
    using assms by (auto simp: field_eq_def type_eq_sym)
  let ?P = "\<lambda>l r (d :: diagram). (l, r) \<noteq> (Node f p n, Node g q m) \<and> (l, r) \<noteq> (Node g q m, Node f p n)"
  have "?P l r d" if "par l r = Some d" for l r d
  proof (rule par.raw_induct [of ?P, OF _ that], goal_cases)
    case (1 rec l r d)
    have "rec (Node f p n) (Node g q m) \<noteq> Some d" "rec (Node g q m) (Node f p n) \<noteq> Some d"
      using 1(1) by blast+
    then show ?case using 1(2) assms ne by auto
  qed
  then show ?thesis by (cases "par (Node f p n) (Node g q m)") auto
qed

theorem masked_parallel_diverges_witness:
  "par (Node \<lparr>f_type = ofb_eth_dst, f_value = bits_zero 48, f_mask = bits_of 48 1\<rparr> (Leaf stop_leaf) (Leaf stop_leaf))
       (Node \<lparr>f_type = ofb_eth_dst, f_value = bits_zero 48, f_mask = bits_of 48 2\<rparr> (Leaf stop_leaf) (Leaf stop_leaf)) = None"
  by (rule masked_parallel_diverges) (simp_all, code_simp)

end
