(* ===== verification/Traverse.thy ===== *)
theory Traverse
  imports Trace_Tree Retic_Pipeline
begin

text \<open>
  Finding what to do with a packet: \<open>fdd::Traverser\<close> of \<^verbatim>\<open>src/retic/traverse_fdd.cc\<close>
  walks the diagram to the packet's leaf; if handlers are left there, it asks the leaf's trace
  tree, or runs the handlers and extends the tree, and goes on in the diagram of the policy the
  handlers returned.
\<close>

section \<open>The diagrams shared with a trace tree\<close>

text \<open>
  A leaf of a trace tree and the traverser share the diagram through a pointer, so what the
  traversal changes in it is changed in the tree: along the packet's path, or along the trace.
\<close>

fun put_packet :: "('p \<Rightarrow> oxm_mask \<Rightarrow> oxm_field) \<Rightarrow> ('p \<Rightarrow> oxm_field \<Rightarrow> bool) \<Rightarrow> 'p \<Rightarrow> diagram \<Rightarrow> tnode \<Rightarrow> tnode"
  and put_cases :: "('p \<Rightarrow> oxm_mask \<Rightarrow> oxm_field) \<Rightarrow> ('p \<Rightarrow> oxm_field \<Rightarrow> bool) \<Rightarrow> 'p \<Rightarrow> diagram \<Rightarrow> oxm_mask \<Rightarrow>
    (bits \<times> tnode) list \<Rightarrow> (bits \<times> tnode) list" where
  "put_packet ld tst p d Unexplored = Unexplored"
| "put_packet ld tst p d (Leaf_node pol e) = Leaf_node pol (Some d)"
| "put_packet ld tst p d (Test_node f a b) =
     (if tst p f then Test_node f (put_packet ld tst p d a) b else Test_node f a (put_packet ld tst p d b))"
| "put_packet ld tst p d (Load_node m cs) = Load_node m (put_cases ld tst p d m cs)"
| "put_cases ld tst p d m [] = []"
| "put_cases ld tst p d m ((b, n) # cs) =
     (if b = f_value (ld p m) then (b, put_packet ld tst p d n) # cs else (b, n) # put_cases ld tst p d m cs)"

fun put_trace :: "obs list \<Rightarrow> diagram \<Rightarrow> tnode \<Rightarrow> tnode" where
  "put_trace [] d cur = (case cur of Leaf_node p e \<Rightarrow> Leaf_node p (Some d) | _ \<Rightarrow> cur)"
| "put_trace (x # xs) d cur = (case x of
     Load_obs f \<Rightarrow> (case cur of
         Load_node m cs \<Rightarrow> (case find_case (f_value f) cs of
             None \<Rightarrow> cur
           | Some n \<Rightarrow> Load_node m (set_case (f_value f) (put_trace xs d n) cs))
       | _ \<Rightarrow> cur)
   | Test_obs f r \<Rightarrow> (case cur of
         Test_node g a b \<Rightarrow> (if r then Test_node g (put_trace xs d a) b else Test_node g a (put_trace xs d b))
       | _ \<Rightarrow> put_trace xs d cur))"

definition set_tree :: "leaf \<Rightarrow> tnode \<Rightarrow> leaf" where
  "set_tree l t = Leaf_data (sets l) (flow_settings_of l) t (prios l)"

section \<open>The traverser\<close>

record visit =
  v_next :: diagram
  v_rebuild :: "diagram \<Rightarrow> tnode"
  v_match :: field_set
  v_calls :: "backend_call list"

definition leaf_is_temporary :: "('p \<Rightarrow> oxm_field \<Rightarrow> bool) \<Rightarrow> 'p \<Rightarrow> diagram \<Rightarrow> bool" where
  "leaf_is_temporary tst p d = (hard_timeout (flow_settings_of (eval_fdd tst d p)) = 0)"

text \<open>
  A leaf with handlers: the diagram to go on with, the match collected so far, the calls made to
  the backend. The priorities of a leaf no translator has visited are not initialized in the
  code; they only matter with a backend, and then the translator has set them.
\<close>

definition visit_tree :: "bool \<Rightarrow> ('p \<Rightarrow> oxm_mask \<Rightarrow> oxm_field) \<Rightarrow> ('p \<Rightarrow> oxm_field \<Rightarrow> bool) \<Rightarrow>
  ('p \<Rightarrow> oxm_field \<Rightarrow> 'p) \<Rightarrow> 'p \<Rightarrow> leaf \<Rightarrow> field_set \<Rightarrow> visit res option" where
  "visit_tree backend ld tst md p l mt =
     (case tree_lookup ld tst p (maple_tree l) [] of (next, maple_match) \<Rightarrow>
        (let known = (case next of None \<Rightarrow> None
           | Some d \<Rightarrow> if leaf_is_temporary tst p d then None else Some d)
         in case known of
           Some d \<Rightarrow> Some (Inr \<lparr>v_next = d, v_rebuild = (\<lambda>e. put_packet ld tst p e (maple_tree l)),
             v_match = fs_modify_all mt maple_match, v_calls = []\<rparr>)
         | None \<Rightarrow> (case merge_trace (get_traces ld md l p) mt of
             Inl e \<Rightarrow> Some (Inl e)
           | Inr tr \<Rightarrow>
               (case augment (trace_values tr) (trace_result tr) (maple_tree l)
                   (case prios l of None \<Rightarrow> augmention_init backend mt 0 0
                    | Some (down, up) \<Rightarrow> augmention_init backend mt down up) of
                  None \<Rightarrow> None
                | Some r \<Rightarrow> Some (rbind r (\<lambda>(t, d, s). Inr \<lparr>v_next = d,
                    v_rebuild = (\<lambda>e. put_trace (trace_values tr) e t),
                    v_match = fs_modify_all (a_match s) maple_match, v_calls = a_calls s\<rparr>))))))"

text \<open>
  The traversal returns the final leaf, the diagram as it is afterwards, the match and the
  backend calls. \<open>None\<close> is a traversal that does not return: handlers can return policies with
  handlers forever.
\<close>

partial_function (option) traverse :: "bool \<Rightarrow> ('p \<Rightarrow> oxm_mask \<Rightarrow> oxm_field) \<Rightarrow> ('p \<Rightarrow> oxm_field \<Rightarrow> bool) \<Rightarrow>
  ('p \<Rightarrow> oxm_field \<Rightarrow> 'p) \<Rightarrow> 'p \<Rightarrow> diagram \<Rightarrow> field_set \<Rightarrow>
  (leaf \<times> diagram \<times> field_set \<times> backend_call list) res option" where
  "traverse backend ld tst md p d mt = (case d of
     Node f a b \<Rightarrow>
       (if tst p f then
          Option.bind (traverse backend ld tst md p a (fs_modify mt f)) (\<lambda>r.
            Some (rbind r (\<lambda>(l, a', mt', cs). Inr (l, Node f a' b, mt', cs))))
        else
          Option.bind (traverse backend ld tst md p b mt) (\<lambda>r.
            Some (rbind r (\<lambda>(l, b', mt', cs). Inr (l, Node f a b', mt', cs)))))
   | Leaf l \<Rightarrow>
       (if \<not> list_ex has_body (sets l) then Some (Inr (l, d, mt, []))
        else Option.bind (visit_tree backend ld tst md p l mt) (\<lambda>v. case v of
          Inl e \<Rightarrow> Some (Inl e)
        | Inr v \<Rightarrow> Option.bind (traverse backend ld tst md p (v_next v) (v_match v)) (\<lambda>r.
            Some (rbind r (\<lambda>(l', d', mt', cs).
              Inr (l', Leaf (set_tree l (v_rebuild v d')), mt', v_calls v @ cs)))))))"

lemma traverse_cases [code]:
  "traverse backend ld tst md p (Leaf l) mt =
     (if \<not> list_ex has_body (sets l) then Some (Inr (l, Leaf l, mt, []))
      else Option.bind (visit_tree backend ld tst md p l mt) (\<lambda>v. case v of
        Inl e \<Rightarrow> Some (Inl e)
      | Inr v \<Rightarrow> Option.bind (traverse backend ld tst md p (v_next v) (v_match v)) (\<lambda>r.
          Some (rbind r (\<lambda>(l', d', mt', cs).
            Inr (l', Leaf (set_tree l (v_rebuild v d')), mt', v_calls v @ cs))))))"
  "traverse backend ld tst md p (Node f a b) mt =
     (if tst p f then
        Option.bind (traverse backend ld tst md p a (fs_modify mt f)) (\<lambda>r.
          Some (rbind r (\<lambda>(l, a', mt', cs). Inr (l, Node f a' b, mt', cs))))
      else
        Option.bind (traverse backend ld tst md p b mt) (\<lambda>r.
          Some (rbind r (\<lambda>(l, b', mt', cs). Inr (l, Node f a b', mt', cs)))))"
  by (subst traverse.simps, simp)+

section \<open>Diagrams without handlers\<close>

fun path_match :: "('p \<Rightarrow> oxm_field \<Rightarrow> bool) \<Rightarrow> diagram \<Rightarrow> 'p \<Rightarrow> oxm_field list" where
  "path_match tst (Leaf l) p = []"
| "path_match tst (Node f a b) p = (if tst p f then f # path_match tst a p else path_match tst b p)"

lemma traverse_static:
  "diagram_static d \<Longrightarrow> traverse backend ld tst md p d mt =
    Some (Inr (eval_fdd tst d p, d, fs_modify_all mt (path_match tst d p), []))"
proof (induction d arbitrary: mt rule: diagram_induct)
  case (Leaf l)
  then have "\<not> list_ex has_body (sets l)" by (auto simp: list_all_iff list_ex_iff has_body_iff)
  then show ?case by (simp add: traverse_cases)
qed (simp add: traverse_cases)

section \<open>The first packet of a leaf\<close>

text \<open>What the handlers of a leaf do with a packet: the outcomes of the policies they return,
  for the packet as they rewrote it.\<close>

definition handlers_outcome :: "leaf \<Rightarrow> field_set \<Rightarrow> field_set outcome multiset" where
  "handlers_outcome l p = (\<Sum>u \<in># mset (sets l).
     (case plain_run (unit_handler u) fs_load fs_test fs_modify p [] of
        (pol, p', mods) \<Rightarrow> sem fs_test fs_modify pol p'))"

text \<open>Handlers that rewrite whole headers only and return policies without handlers.\<close>

primrec simple_handler :: "oxm_type set \<Rightarrow> handler \<Rightarrow> bool" where
  "simple_handler T (Return pol) = (handler_free pol \<and> list_all (in_types T) (policy_fields pol))"
| "simple_handler T (Load m k) = (\<forall>f. simple_handler T (k f))"
| "simple_handler T (Test f k) = (\<forall>b. simple_handler T (k b))"
| "simple_handler T (Rewrite f h) = (in_types T f \<and> simple_handler T h)"

lemma simple_run:
  assumes "simple_handler (set known_types) h" "full_fs (set known_types) p0"
    and "exact_fs (set known_types) mods" "p = apply_mods fs_modify p0 mods"
    and "plain_run h fs_load fs_test fs_modify p mods = (pol, p', mods')"
  shows "handler_free pol \<and> list_all (in_types (set known_types)) (policy_fields pol) \<and>
    exact_fs (set known_types) mods' \<and> p' = apply_mods fs_modify p0 mods'"
  using assms
proof (induction h arbitrary: p mods rule: handler_induct)
  case (Rewrite f h)
  then show ?case
    using fsp.apply_fs_modify [OF Rewrite.prems(2,3), of f] exact_fs_modify [OF coherent_known Rewrite.prems(3), of f]
    by auto
qed auto

lemma prefix_mods_snoc: "prefix_mods (mods @ [f]) pol = Sequential (Modify f) (prefix_mods mods pol)"
  by (simp add: prefix_mods_def)

lemma exact_fs_snoc:
  assumes "exact_fs T (mods @ [f])"
  shows "exact_fs T mods" "in_types T f" "\<forall>g \<in> set mods. f_type g \<noteq> f_type f"
  using assms type_eq_refl
  by (induction mods) (auto simp: exact_fs_Cons fs_find_append split: if_splits option.splits)

lemma sem_prefix_mods:
  "exact_fs (set known_types) mods \<Longrightarrow> full_fs (set known_types) p \<Longrightarrow>
    sem fs_test fs_modify (prefix_mods mods pol) p = sem fs_test fs_modify pol (apply_mods fs_modify p mods)"
proof (induction mods arbitrary: p rule: rev_induct)
  case Nil
  then show ?case by (simp add: prefix_mods_def)
next
  case (snoc f mods)
  note ex = exact_fs_snoc [OF snoc.prems(1)]
  have "sem fs_test fs_modify (prefix_mods (mods @ [f]) pol) p =
      sem fs_test fs_modify pol (apply_mods fs_modify (fs_modify p f) mods)"
    using snoc.IH [OF ex(1) fsp.valid_modify [OF snoc.prems(2) ex(2)]] by (simp add: prefix_mods_snoc)
  also have "apply_mods fs_modify (fs_modify p f) mods = apply_mods fs_modify p (mods @ [f])"
    using fsp.modify_apply_other [OF snoc.prems(2) ex(2) _ ex(3)] ex(1) by (simp add: exact_fs_def)
  finally show ?case .
qed

lemma simple_prefix_mods:
  "handler_free pol \<and> list_all (in_types T) (policy_fields pol) \<Longrightarrow> list_all (in_types T) mods \<Longrightarrow>
    handler_free (prefix_mods mods pol) \<and> list_all (in_types T) (policy_fields (prefix_mods mods pol))"
  by (induction mods rule: rev_induct) (auto simp: prefix_mods_snoc, simp_all add: prefix_mods_def)

lemma policy_plus_simple:
  "handler_free a \<Longrightarrow> handler_free b \<Longrightarrow> handler_free (policy_plus a b)"
  "list_all P (policy_fields a) \<Longrightarrow> list_all P (policy_fields b) \<Longrightarrow> list_all P (policy_fields (policy_plus a b))"
  by (auto simp: policy_plus_def split: policy.splits)

lemma foldl_plus:
  "sem tst md (foldl policy_plus a ps) p = sem tst md a p + (\<Sum>q \<in># mset ps. sem tst md q p)"
  "handler_free a \<Longrightarrow> list_all handler_free ps \<Longrightarrow> handler_free (foldl policy_plus a ps)"
  "list_all P (policy_fields a) \<Longrightarrow> list_all (\<lambda>q. list_all P (policy_fields q)) ps \<Longrightarrow>
    list_all P (policy_fields (foldl policy_plus a ps))"
  by (induction ps arbitrary: a) (simp_all add: sem_plus add.assoc policy_plus_simple)

lemma translate_same [simp]:
  "sets (eval_fdd tst (snd (snd (translate s d))) p) = sets (eval_fdd tst d p)"
  "flow_settings_of (eval_fdd tst (snd (snd (translate s d))) p) = flow_settings_of (eval_fdd tst d p)"
  "diagram_static (snd (snd (translate s d))) = diagram_static d"
  by (induction d arbitrary: s rule: diagram_induct)
    (simp_all add: translate_leaf_def set_prios_def split_beta)

lemma augment_unexplored:
  assumes "compile pol = Some d"
  shows "\<exists>t d' s'. augment xs pol Unexplored s = Some (Inr (t, d', s')) \<and>
    (d' = d \<or> (\<exists>u. d' = snd (snd (translate u d))))"
proof (induction xs arbitrary: s)
  case Nil
  show ?case
    using assms by (cases "a_backend s") (auto simp: aug_finish_def Let_def split_beta)
next
  case (Cons x xs)
  obtain rebuild s1 where "aug_step x Unexplored s = Inr (rebuild, Unexplored, s1)"
    by (cases x) (auto simp: aug_step_def aug_load_def aug_test_def Let_def)
  with Cons.IH [of s1] show ?case by auto
qed

lemma unit_run:
  assumes "simple_handler (set known_types) h" "handler_ok (set known_types) h" "full_fs (set known_types) p"
  shows "handler_free (trace_result (tracer_trace fs_load fs_modify h p)) \<and>
    list_all (in_types (set known_types)) (policy_fields (trace_result (tracer_trace fs_load fs_modify h p))) \<and>
    sem fs_test fs_modify (trace_result (tracer_trace fs_load fs_modify h p)) p =
      (case plain_run h fs_load fs_test fs_modify p [] of (pol, p', mods) \<Rightarrow> sem fs_test fs_modify pol p')"
proof -
  obtain pol p' mods where r: "plain_run h fs_load fs_test fs_modify p [] = (pol, p', mods)" by (metis prod_cases3)
  then have "trace_result (tracer_trace fs_load fs_modify h p) = prefix_mods mods pol"
    using fsv.trace_correct(1) [OF assms(2,3)] plain_run_fs [OF assms(2,3), of "[]"] by simp
  moreover have "handler_free pol \<and> list_all (in_types (set known_types)) (policy_fields pol)"
    "exact_fs (set known_types) mods" "p' = apply_mods fs_modify p mods"
    using simple_run [OF assms(1,3) _ _ r] by auto
  ultimately show ?thesis
    using r sem_prefix_mods [of mods p pol] simple_prefix_mods [of pol "set known_types" mods] assms(3)
    by (simp add: exact_fs_def)
qed


definition handler_leaf :: leaf where
  "handler_leaf = mk_leaf [Action_unit [] (Some (1, sample_handler)) None,
     Action_unit [num_field ofb_eth_type 5] (Some (2, Return (fwd 9))) None] default_settings"

lemma handler_free_fwd [simp]: "handler_free (fwd w)"
  by (simp add: fwd_def)


end
