(* ===== verification/Of13_Backend.thy ===== *)
theory Of13_Backend
  imports Fdd_Translator
begin

text \<open>
  The OpenFlow side of rule installation: \<open>Of13Backend\<close> of \<^verbatim>\<open>src/Retic.cc\<close> and the
  driver objects of \<^verbatim>\<open>src/OFDriver.cc\<close>. A driver turns calls into OpenFlow messages; a
  rule or group object sends an add message when it is created and a delete message when it
  is destroyed, so the life time of the objects decides what a switch holds.
\<close>

section \<open>Messages and objects\<close>

text \<open>\<open>Actions\<close>; the default member initializers are zero.\<close>

record of_actions =
  out_port :: "32 word"
  group_id :: "32 word"
  act_idle_timeout :: "32 word"
  act_hard_timeout :: "32 word"
  set_fields :: field_set

definition no_actions :: of_actions where
  "no_actions = \<lparr>out_port = 0, group_id = 0, act_idle_timeout = 0, act_hard_timeout = 0, set_fields = []\<rparr>"

definition to_controller :: "32 word" where
  "to_controller = 0xfffffffd"

datatype of_action = Set_field oxm_field | Output "32 word" | Group_act "32 word"

text \<open>\<open>convert_to_action_set\<close>, \<open>convert_to_apply_action\<close> and \<open>convert_to_action_list\<close>
  differ only in the class of the result.\<close>

definition convert_actions :: "of_actions \<Rightarrow> of_action list" where
  "convert_actions a = map Set_field (set_fields a) @
     (if out_port a \<noteq> 0 then [Output (out_port a)] else []) @
     (if group_id a \<noteq> 0 then [Group_act (group_id a)] else [])"

datatype of_message =
    Flow_add (fm_table: "8 word") (fm_cookie: "64 word") (fm_match: field_set) (fm_prio: "16 word")
      (fm_idle: "32 word") (fm_hard: "32 word") (fm_actions: "of_action list")
  | Flow_delete "64 word" "64 word"
  | Group_add "32 word" "of_action list list"
  | Group_delete "32 word"
  | Packet_out "byte list" "of_action list"

datatype of_object = Rule_obj "64 word" "64 word" | Group_obj "64 word" "32 word"

section \<open>The driver\<close>

record driver =
  id_gen :: "16 word"
  cookie_gen :: "64 word"

definition make_driver :: driver where
  "make_driver = \<lparr>id_gen = 630, cookie_gen = 0x400000000\<rparr>"

text \<open>
  The backend: the connected drivers by datapath id in the map's iteration order, the stored
  objects, the table number, and the messages sent so far.
\<close>

record backend =
  drivers :: "(64 word \<times> driver) list"
  storage :: "of_object list"
  table :: "8 word"
  sent :: "(64 word \<times> of_message) list"

definition backend_init :: "(64 word \<times> driver) list \<Rightarrow> 8 word \<Rightarrow> backend" where
  "backend_init ds t = \<lparr>drivers = ds, storage = [], table = t, sent = []\<rparr>"

definition send :: "64 word \<Rightarrow> of_message \<Rightarrow> backend \<Rightarrow> backend" where
  "send dpid m b = b\<lparr>sent := sent b @ [(dpid, m)]\<rparr>"

definition set_driver :: "64 word \<Rightarrow> driver \<Rightarrow> backend \<Rightarrow> backend" where
  "set_driver dpid d b = b\<lparr>drivers := map (\<lambda>(i, x). (i, if i = dpid then d else x)) (drivers b)\<rparr>"

text \<open>\<open>Fluid13Driver::installRule\<close> and \<open>installGroup\<close>.\<close>

definition install_rule ::
  "64 word \<Rightarrow> driver \<Rightarrow> field_set \<Rightarrow> 16 word \<Rightarrow> of_actions \<Rightarrow> backend \<Rightarrow> of_object \<times> backend" where
  "install_rule dpid d mt prio acts b =
     (Rule_obj dpid (cookie_gen d),
      set_driver dpid (d\<lparr>cookie_gen := cookie_gen d + 1\<rparr>)
        (send dpid (Flow_add (table b) (cookie_gen d) mt prio
           (act_idle_timeout acts) (act_hard_timeout acts) (convert_actions acts)) b))"

definition install_group ::
  "64 word \<Rightarrow> driver \<Rightarrow> of_actions list \<Rightarrow> backend \<Rightarrow> of_object \<times> 32 word \<times> driver \<times> backend" where
  "install_group dpid d buckets b =
     (let i = ucast (id_gen d); d' = d\<lparr>id_gen := id_gen d + 1\<rparr> in
      (Group_obj dpid i, i, d',
       set_driver dpid d' (send dpid (Group_add i (map convert_actions buckets)) b)))"

definition packet_out :: "64 word \<Rightarrow> byte list \<Rightarrow> of_actions \<Rightarrow> backend \<Rightarrow> backend" where
  "packet_out dpid data acts b = send dpid (Packet_out data (convert_actions acts)) b"

text \<open>The destructors of the objects.\<close>

definition destroy :: "of_object \<Rightarrow> backend \<Rightarrow> backend" where
  "destroy x b = (case x of
     Rule_obj dpid c \<Rightarrow> send dpid (Flow_delete c 0xfffffffff) b
   | Group_obj dpid i \<Rightarrow> send dpid (Group_delete i) b)"

definition store :: "of_object \<Rightarrow> backend \<Rightarrow> backend" where
  "store x b = b\<lparr>storage := storage b @ [x]\<rparr>"

section \<open>The backend\<close>

text \<open>The number an exact entry of a set holds; \<open>Packet::load\<close> asserts that it is exact.\<close>

definition load_number :: "field_set \<Rightarrow> oxm_type \<Rightarrow> 'a::len word res" where
  "load_number fs t = rbind (load_exact fs_packet fs t) (\<lambda>v. Inr (word_of_bits (v_value v)))"

definition timeout_value :: "duration \<Rightarrow> 32 word" where
  "timeout_value t = (if t = duration_max then 0 else t)"

text \<open>The loop of \<open>install_on\<close> over the action sets: one bucket per set with an output port.\<close>

fun make_buckets :: "flow_settings \<Rightarrow> field_set list \<Rightarrow> of_actions list res" where
  "make_buckets st [] = Inr []"
| "make_buckets st (a # as) = (case fs_find a ofb_out_port of
     None \<Rightarrow> make_buckets st as
   | Some _ \<Rightarrow>
       rbind (load_number a ofb_out_port) (\<lambda>port.
       rbind (make_buckets st as) (\<lambda>bs.
         Inr (\<lparr>out_port = port, group_id = 0,
               act_idle_timeout = timeout_value (idle_timeout st),
               act_hard_timeout = timeout_value (hard_timeout st),
               set_fields = fs_erase a (exact_mask ofb_out_port)\<rparr> # bs))))"

definition install_on ::
  "64 word \<Rightarrow> field_set \<Rightarrow> field_set list \<Rightarrow> 16 word \<Rightarrow> flow_settings \<Rightarrow> backend \<Rightarrow> backend res" where
  "install_on dpid mt actions prio st b = (case map_of (drivers b) dpid of
     None \<Rightarrow> Inr b
   | Some d \<Rightarrow>
       (if actions = [] then
          (let (r, b1) = install_rule dpid d mt prio no_actions b in Inr (destroy r b1))
        else rbind (make_buckets st actions) (\<lambda>buckets.
          case buckets of
            [] \<Rightarrow> (let (r, b1) = install_rule dpid d mt prio no_actions b in Inr (store r b1))
          | [a] \<Rightarrow> (let (r, b1) = install_rule dpid d mt prio a b in Inr (store r b1))
          | _ \<Rightarrow>
              (let (g, i, d', b1) = install_group dpid d buckets b;
                   (r, b2) = install_rule dpid d' mt prio (no_actions\<lparr>group_id := i\<rparr>) (store g b1)
               in Inr (store r b2)))))"

text \<open>The switches a match addresses: the one it names, or all.\<close>

definition targets :: "field_set \<Rightarrow> backend \<Rightarrow> (64 word list \<times> field_set) res" where
  "targets mt b = (case fs_find mt ofb_switch_id of
     Some _ \<Rightarrow> rbind (load_number mt ofb_switch_id) (\<lambda>dpid.
       Inr ([dpid], fs_erase mt (exact_mask ofb_switch_id)))
   | None \<Rightarrow> Inr (map fst (drivers b), mt))"

definition install ::
  "field_set \<Rightarrow> field_set list \<Rightarrow> 16 word \<Rightarrow> flow_settings \<Rightarrow> backend \<Rightarrow> backend res" where
  "install mt actions prio st b =
     (if hard_timeout st = 0 then Inr b
      else rbind (targets mt b) (\<lambda>(ids, mt').
        rfold (\<lambda>dpid. install_on dpid mt' actions prio st) ids b))"

definition barrier_on :: "64 word \<Rightarrow> field_set \<Rightarrow> 16 word \<Rightarrow> backend \<Rightarrow> backend" where
  "barrier_on dpid mt prio b = (case map_of (drivers b) dpid of
     None \<Rightarrow> b
   | Some d \<Rightarrow>
       (let (r, b1) = install_rule dpid d mt prio (no_actions\<lparr>out_port := to_controller\<rparr>) b
        in store r b1))"

definition install_barrier :: "field_set \<Rightarrow> 16 word \<Rightarrow> backend \<Rightarrow> backend res" where
  "install_barrier mt prio b =
     rbind (targets mt b) (\<lambda>(ids, mt'). Inr (fold (\<lambda>dpid. barrier_on dpid mt' prio) ids b))"

fun packet_outs_loop :: "64 word \<Rightarrow> byte list \<Rightarrow> field_set list \<Rightarrow> backend \<Rightarrow> backend res" where
  "packet_outs_loop dpid data [] b = Inr b"
| "packet_outs_loop dpid data (a # as) b = (case fs_find a ofb_out_port of
     None \<Rightarrow> packet_outs_loop dpid data as b
   | Some _ \<Rightarrow> rbind (load_number a ofb_out_port) (\<lambda>port.
       packet_outs_loop dpid data as (packet_out dpid data
         (no_actions\<lparr>out_port := port, set_fields := fs_erase a (exact_mask ofb_out_port)\<rparr>) b)))"

definition packet_outs :: "byte list \<Rightarrow> field_set list \<Rightarrow> 64 word \<Rightarrow> backend \<Rightarrow> backend res" where
  "packet_outs data actions dpid b = (case map_of (drivers b) dpid of
     None \<Rightarrow> Inl Out_of_range
   | Some d \<Rightarrow> packet_outs_loop dpid data actions b)"

text \<open>A call of the translator, and the destruction of the backend (\<open>clearRules\<close>).\<close>

definition call_backend :: "backend_call \<Rightarrow> backend \<Rightarrow> backend res" where
  "call_backend c b = (case c of
     Install mt acts prio st \<Rightarrow> install mt acts prio st b
   | Install_barrier mt prio \<Rightarrow> install_barrier mt prio b)"

definition clear_rules :: "backend \<Rightarrow> backend" where
  "clear_rules b = (fold destroy (storage b) b)\<lparr>storage := []\<rparr>"

section \<open>What the switches hold\<close>

text \<open>
  The flow entries of the switches after a sequence of messages, as OpenFlow defines adding
  and deleting by cookie.
\<close>

definition live_step :: "(64 word \<times> of_message) list \<Rightarrow> 64 word \<times> of_message \<Rightarrow> (64 word \<times> of_message) list" where
  "live_step fl x = (case snd x of
     Flow_add _ _ _ _ _ _ _ \<Rightarrow> fl @ [x]
   | Flow_delete c k \<Rightarrow> filter (\<lambda>y. \<not> (fst y = fst x \<and> and (fm_cookie (snd y)) k = and c k)) fl
   | _ \<Rightarrow> fl)"

definition live :: "(64 word \<times> of_message) list \<Rightarrow> (64 word \<times> of_message) list" where
  "live ms = foldl live_step [] ms"

lemma live_Nil [simp]: "live [] = []"
  by (simp add: live_def)

lemma live_snoc [simp]: "live (ms @ [x]) = live_step (live ms) x"
  by (simp add: live_def)

lemmas backend_defs = send_def set_driver_def store_def install_rule_def install_group_def destroy_def

lemma live_sends:
  "live (sent (send i (Flow_add t c m p x y z) b)) = live (sent b) @ [(i, Flow_add t c m p x y z)]"
  "live (sent (send i (Group_add g bs) b)) = live (sent b)"
  "live (sent (send i (Group_delete g) b)) = live (sent b)"
  "live (sent (send i (Flow_delete c k) b)) =
     filter (\<lambda>y. \<not> (fst y = i \<and> and (fm_cookie (snd y)) k = and c k)) (live (sent b))"
  by (simp_all add: send_def live_step_def)

lemma sel_updates [simp]:
  "sent (set_driver i d b) = sent b" "sent (store x b) = sent b" "storage (set_driver i d b) = storage b"
  "storage (send i m b) = storage b" "storage (store x b) = storage b @ [x]"
  "table (set_driver i d b) = table b" "table (send i m b) = table b" "table (store x b) = table b"
  by (simp_all add: set_driver_def store_def send_def)

text \<open>Every entry of a switch belongs to a stored rule object.\<close>

definition owned :: "backend \<Rightarrow> bool" where
  "owned b = (\<forall>i m. (i, m) \<in> set (live (sent b)) \<longrightarrow> Rule_obj i (fm_cookie m) \<in> set (storage b))"

lemma owned_init: "owned (backend_init ds t)"
  by (simp add: owned_def backend_init_def)

lemma owned_install_rule:
  assumes "owned b" "install_rule i d mt prio a b = (r, b1)"
  shows "owned (store r b1)" "owned (destroy r b1)"
  using assms by (auto simp: owned_def install_rule_def live_sends destroy_def)

lemma owned_install_group:
  assumes "owned b" "install_group i d bs b = (g, k, d', b1)"
  shows "owned (store g b1)"
  using assms by (auto simp: owned_def install_group_def live_sends Let_def)

lemma owned_install_on:
  assumes "owned b" "install_on i mt acts prio st b = Inr b'"
  shows "owned b'"
proof (cases "map_of (drivers b) i")
  case None
  with assms show ?thesis by (simp add: install_on_def)
next
  case (Some d)
  show ?thesis
  proof (cases "acts = []")
    case True
    with Some assms owned_install_rule show ?thesis
      by (auto simp: install_on_def split: prod.splits)
  next
    case False
    with Some assms(2) obtain bs where bs: "make_buckets st acts = Inr bs"
      by (auto simp: install_on_def rbind_eq_Inr)
    consider "bs = []" | a where "bs = [a]" | x y zs where "bs = x # y # zs"
      by (metis list.exhaust)
    then show ?thesis
    proof cases
      case 3
      obtain g k d' b1 where g: "install_group i d bs b = (g, k, d', b1)" by (metis prod_cases4)
      obtain r b2 where r: "install_rule i d' mt prio (no_actions\<lparr>group_id := k\<rparr>) (store g b1) = (r, b2)"
        by fastforce
      have "b' = store r b2" using Some False bs g r 3 assms(2) by (simp add: install_on_def Let_def)
      with owned_install_rule(1) [OF owned_install_group [OF assms(1) g] r] show ?thesis by simp
    qed (use Some False bs assms owned_install_rule(1) in \<open>auto simp: install_on_def split: prod.splits\<close>)
  qed
qed

lemma owned_rfold:
  assumes "owned b" "rfold f xs b = Inr b'" "\<And>x b b'. owned b \<Longrightarrow> f x b = Inr b' \<Longrightarrow> owned b'"
  shows "owned b'"
  using assms(1,2) by (induction xs arbitrary: b) (auto simp: rbind_eq_Inr dest: assms(3))

lemma owned_barrier: "owned b \<Longrightarrow> owned (barrier_on i mt prio b)"
  by (auto simp: barrier_on_def owned_install_rule(1) split: option.splits prod.splits)

lemma owned_call:
  assumes "owned b" "call_backend c b = Inr b'"
  shows "owned b'"
proof (cases c)
  case (Install mt acts prio st)
  with assms owned_rfold [OF assms(1) _ owned_install_on] show ?thesis
    by (auto simp: call_backend_def install_def rbind_eq_Inr split: if_splits prod.splits)
next
  case (Install_barrier mt prio)
  have "owned (fold (\<lambda>i. barrier_on i m prio) ids b)" for ids m
    using assms(1) by (induction ids arbitrary: b) (auto simp: owned_barrier)
  with Install_barrier assms show ?thesis
    by (auto simp: call_backend_def install_barrier_def rbind_eq_Inr split: prod.splits)
qed

lemma fold_destroy_live:
  "(i, m) \<in> set (live (sent (fold destroy xs b))) \<Longrightarrow>
    (i, m) \<in> set (live (sent b)) \<and> Rule_obj i (fm_cookie m) \<notin> set xs"
proof (induction xs arbitrary: b)
  case (Cons x xs)
  then have "(i, m) \<in> set (live (sent (destroy x b)))" "Rule_obj i (fm_cookie m) \<notin> set xs" by auto
  then show ?case by (cases x) (auto simp: destroy_def live_sends)
qed simp

lemma clear_rules_live: "owned b \<Longrightarrow> live (sent (clear_rules b)) = []"
proof -
  assume "owned b"
  then have "(i, m) \<notin> set (live (sent (fold destroy (storage b) b)))" for i m
    using fold_destroy_live [of i m "storage b" b] by (auto simp: owned_def)
  then have "live (sent (fold destroy (storage b) b)) = []"
    by (metis list.set_intros(1) neq_Nil_conv surj_pair)
  then show ?thesis by (simp add: clear_rules_def)
qed

section \<open>What an entry does to a packet\<close>

text \<open>The group table of a switch, and the copies a list of actions sends out of its ports.\<close>

definition group_step :: "64 word \<Rightarrow> (32 word \<Rightarrow> of_action list list option) \<Rightarrow> 64 word \<times> of_message \<Rightarrow>
  (32 word \<Rightarrow> of_action list list option)" where
  "group_step i g x = (if fst x \<noteq> i then g else case snd x of
     Group_add k bs \<Rightarrow> g(k := Some bs) | Group_delete k \<Rightarrow> g(k := None) | _ \<Rightarrow> g)"

definition groups :: "(64 word \<times> of_message) list \<Rightarrow> 64 word \<Rightarrow> 32 word \<Rightarrow> of_action list list option" where
  "groups ms i = foldl (group_step i) (\<lambda>_. None) ms"

fun exec_bucket :: "('p \<Rightarrow> oxm_field \<Rightarrow> 'p) \<Rightarrow> of_action list \<Rightarrow> 'p \<Rightarrow> ('p \<times> 32 word) multiset" where
  "exec_bucket md [] p = {#}"
| "exec_bucket md (Set_field f # as) p = exec_bucket md as (md p f)"
| "exec_bucket md (Output o' # as) p = add_mset (p, o') (exec_bucket md as p)"
| "exec_bucket md (Group_act k # as) p = exec_bucket md as p"

fun exec_actions :: "('p \<Rightarrow> oxm_field \<Rightarrow> 'p) \<Rightarrow> (32 word \<Rightarrow> of_action list list option) \<Rightarrow>
  of_action list \<Rightarrow> 'p \<Rightarrow> ('p \<times> 32 word) multiset" where
  "exec_actions md g [] p = {#}"
| "exec_actions md g (Set_field f # as) p = exec_actions md g as (md p f)"
| "exec_actions md g (Output o' # as) p = add_mset (p, o') (exec_actions md g as p)"
| "exec_actions md g (Group_act k # as) p =
     (case g k of None \<Rightarrow> {#} | Some bs \<Rightarrow> \<Sum>b \<in># mset bs. exec_bucket md b p) + exec_actions md g as p"

text \<open>What a set of rewrites means: the rewritten packet on the port it names, if it names one.\<close>

definition action_out :: "('p \<Rightarrow> oxm_field \<Rightarrow> 'p) \<Rightarrow> 'p \<Rightarrow> field_set \<Rightarrow> ('p \<times> 32 word) multiset" where
  "action_out md p a = (case fs_find a ofb_out_port of None \<Rightarrow> {#}
     | Some f \<Rightarrow> (let port = word_of_bits (f_value f) in
         if port = 0 then {#}
         else {#(apply_mods md p (fs_erase a (exact_mask ofb_out_port)), port)#}))"

definition bucket_out :: "('p \<Rightarrow> oxm_field \<Rightarrow> 'p) \<Rightarrow> 'p \<Rightarrow> of_actions \<Rightarrow> ('p \<times> 32 word) multiset" where
  "bucket_out md p x = (if out_port x = 0 then {#} else {#(apply_mods md p (set_fields x), out_port x)#})"

lemma exec_sets [simp]:
  "exec_bucket md (map Set_field fs @ as) p = exec_bucket md as (apply_mods md p fs)"
  "exec_actions md g (map Set_field fs @ as) p = exec_actions md g as (apply_mods md p fs)"
  by (induction fs arbitrary: p) auto

lemma exec_convert:
  "group_id x = 0 \<Longrightarrow> exec_bucket md (convert_actions x) p = bucket_out md p x"
  "group_id x = 0 \<Longrightarrow> exec_actions md g (convert_actions x) p = bucket_out md p x"
  by (auto simp: convert_actions_def bucket_out_def)

lemma load_number_exact:
  assumes "exact_fs (set known_types) a" "fs_find a ofb_out_port = Some f"
  shows "load_number a ofb_out_port = Inr (word_of_bits (f_value f))"
proof -
  have T: "ofb_out_port \<in> set known_types" by (simp add: known_types_def)
  have f: "in_types (set known_types) f" "f_type f = ofb_out_port"
    using assms fs_find_SomeD [OF assms(2)] fs_find_wf(2) [OF exact_fs_wf [OF assms(1)] assms(2) coherent_known T]
    by (auto simp: exact_fs_def list_all_iff)
  have "mask_of f = exact_mask ofb_out_port" using f by (simp add: mask_of_exact in_types_def)
  then have "and_mask f (exact_mask ofb_out_port) = f"
    using and_mask_exact [of f f] f by (simp add: in_types_def)
  moreover have "value_ctor ofb_out_port (f_value f) = Inr \<lparr>v_type = ofb_out_port, v_value = f_value f\<rparr>"
    using f by (simp add: value_ctor_def check_value_def in_types_def wf_field_length wf_exact_wf)
  ultimately show ?thesis
    using assms(2) f by (simp add: load_number_def load_exact_def fs_packet_def fs_load_def
        in_types_def wf_exact_def)
qed

lemma make_buckets_correct:
  assumes "list_all (exact_fs (set known_types)) acts"
  shows "\<exists>bs. make_buckets st acts = Inr bs \<and> list_all (\<lambda>x. group_id x = 0) bs \<and>
    (\<Sum>x \<in># mset bs. bucket_out md p x) = (\<Sum>a \<in># mset acts. action_out md p a)"
  using assms
proof (induction acts)
  case (Cons a acts)
  then obtain bs where bs: "make_buckets st acts = Inr bs" "list_all (\<lambda>x. group_id x = 0) bs"
    "(\<Sum>x \<in># mset bs. bucket_out md p x) = (\<Sum>a \<in># mset acts. action_out md p a)" by auto
  show ?case
  proof (cases "fs_find a ofb_out_port")
    case None
    with bs show ?thesis by (simp add: action_out_def)
  next
    case (Some f)
    with Cons.prems load_number_exact [of a f, where ?'a = 32] bs show ?thesis
      by (auto simp: action_out_def bucket_out_def Let_def)
  qed
qed simp

lemma groups_snoc: "groups (ms @ [x]) i = group_step i (groups ms i) x"
  by (simp add: groups_def)

lemma convert_to_group:
  "convert_actions (no_actions\<lparr>group_id := k\<rparr>) = (if k = 0 then [] else [Group_act k])"
  by (simp add: convert_actions_def no_actions_def)

lemma groups_after:
  "groups (sent (send i (Group_add k bs) b)) i = (groups (sent b) i)(k := Some bs)"
  "groups (sent (send i (Flow_add t c m p x y z) b)) i = groups (sent b) i"
  by (simp_all add: send_def groups_snoc group_step_def)

lemma install_on_correct:
  assumes "map_of (drivers b) i = Some d" "make_buckets st acts = Inr bs" "acts \<noteq> []"
    and "list_all (\<lambda>x. group_id x = 0) bs" "id_gen d \<noteq> 0"
  shows "\<exists>b' m. install_on i mt acts prio st b = Inr b' \<and> live (sent b') = live (sent b) @ [(i, m)] \<and>
    fm_match m = mt \<and> fm_prio m = prio \<and>
    exec_actions md (groups (sent b') i) (fm_actions m) p = (\<Sum>x \<in># mset bs. bucket_out md p x)"
proof -
  consider "bs = []" | a where "bs = [a]" | x y zs where "bs = x # y # zs" by (metis list.exhaust)
  then show ?thesis
  proof cases
    case 1
    with assms show ?thesis
      by (simp add: install_on_def install_rule_def live_sends no_actions_def convert_actions_def)
  next
    case 2
    with assms show ?thesis
      by (simp add: install_on_def install_rule_def live_sends exec_convert)
  next
    case 3
    have "(ucast (ucast w :: 32 word) :: 16 word) = w" for w :: "16 word"
      by (rule bit_word_eqI) (auto simp: bit_simps)
    then have nz: "(ucast (id_gen d) :: 32 word) \<noteq> 0" using assms(5) by (metis unsigned_0)
    have "(\<Sum>a \<in># mset (map convert_actions bs). exec_bucket md a p) = (\<Sum>x \<in># mset bs. bucket_out md p x)"
      using assms(4) by (induction bs) (auto simp: exec_convert)
    then show ?thesis
      using nz assms(1-3) 3
      by (simp add: install_on_def install_rule_def install_group_def live_sends groups_after Let_def
          convert_to_group del: mset_map mset.simps list.map)
  qed
qed

section \<open>Properties\<close>



text \<open>
  The drop rule for an empty list of action sets does not stay on the switch: the rule
  object is not stored, so its destructor deletes the entry as soon as it is added.
\<close>

lemma drop_rule_is_lost:
  assumes "map_of (drivers b) i = Some d"
  shows "\<exists>b'. install_on i mt [] prio st b = Inr b' \<and> set (live (sent b')) \<subseteq> set (live (sent b))"
  using assms by (auto simp: install_on_def install_rule_def destroy_def live_sends)

theorem drop_rule_is_lost_witness:
  "\<exists>b'. install_on 1 [] [] 5 default_settings (backend_init [(1, make_driver)] 0) = Inr b' \<and>
    live (sent b') = []"
  using drop_rule_is_lost [of "backend_init [(1, make_driver)] 0" 1 make_driver "[]" 5 default_settings]
  by (auto simp: backend_init_def)

text \<open>
  Whatever calls the translator made, destroying the backend removes every entry it left
  on any switch.
\<close>

lemma clear_rules_removes_all:
  assumes "rfold call_backend calls (backend_init ds t) = Inr b"
  shows "live (sent (clear_rules b)) = []"
proof -
  have "owned b'" if "owned a" "rfold call_backend calls a = Inr b'" for a b'
    using that by (rule owned_rfold) (rule owned_call)
  with assms owned_init clear_rules_live show ?thesis by blast
qed

theorem clear_rules_removes_all_witness:
  "\<exists>b. rfold call_backend [Install_barrier [] 7, Install [] [[], []] 5 default_settings]
      (backend_init [(1, make_driver), (2, make_driver)] 0) = Inr b \<and>
    length (live (sent b)) = 4 \<and> live (sent (clear_rules b)) = []"
proof -
  let ?r = "rfold call_backend [Install_barrier [] 7, Install [] [[], []] 5 default_settings]
      (backend_init [(1, make_driver), (2, make_driver)] 0)"
  have "case ?r of Inl _ \<Rightarrow> False | Inr b \<Rightarrow> length (live (sent b)) = 4" by code_simp
  then obtain b where "?r = Inr b" "length (live (sent b)) = 4" by (auto split: sum.splits)
  with clear_rules_removes_all [OF this(1)] show ?thesis by blast
qed

end
