(* ===== verification/Retic_App.thy ===== *)
theory Retic_App
  imports Traverse Of13_Backend
begin

text \<open>
  The application \<open>Retic\<close> of \<^verbatim>\<open>src/Retic.cc\<close>: the registered policies, the main policy,
  its diagram, the drivers of the connected switches and the backend that holds the installed
  rules. The main result is an invariant of all reachable states: every entry a switch holds
  belongs to the current backend, so clearing the rules removes all of them.
\<close>

section \<open>State and operations\<close>

text \<open>
  Drivers are shared between the application and its backends, so the counters of a driver
  survive its backends; while there is a backend, its copy of the driver map is the current
  one. \<open>app_sent\<close> are the messages sent by earlier backends.
\<close>

record app =
  policies :: "string \<rightharpoonup> policy"
  app_fdd :: diagram
  main_policy :: string
  app_drivers :: "(64 word \<times> driver) list"
  app_backend :: "backend option"
  app_table :: "8 word"
  app_sent :: "(64 word \<times> of_message) list"

definition donothing :: string where
  "donothing = ''__builtin_donothing__''"

definition app_init :: "string option \<Rightarrow> 8 word \<Rightarrow> app" where
  "app_init main t = \<lparr>policies = [donothing \<mapsto> Stop], app_fdd = Leaf stop_leaf,
     main_policy = (case main of None \<Rightarrow> donothing | Some m \<Rightarrow> m), app_drivers = [],
     app_backend = None, app_table = t, app_sent = []\<rparr>"

definition register_policy :: "string \<Rightarrow> policy \<Rightarrow> app \<Rightarrow> app" where
  "register_policy name p a = a\<lparr>policies := (policies a)(name \<mapsto> p)\<rparr>"

definition start_up :: "app \<Rightarrow> app res option" where
  "start_up a = (case policies a (main_policy a) of
     None \<Rightarrow> Some (Inl Runtime_error)
   | Some p \<Rightarrow> Option.bind (compile p) (\<lambda>d. Some (Inr (a\<lparr>app_fdd := d\<rparr>))))"

text \<open>Assigning to \<open>m_backend\<close> destroys the old backend with the objects it stores.\<close>

definition app_clear :: "app \<Rightarrow> app" where
  "app_clear a = (case app_backend a of
     None \<Rightarrow> a
   | Some b \<Rightarrow> (let b' = clear_rules b in
       a\<lparr>app_backend := None, app_drivers := drivers b', app_sent := sent b'\<rparr>))"

definition new_backend :: "app \<Rightarrow> backend" where
  "new_backend a = (backend_init (app_drivers a) (app_table a))\<lparr>sent := app_sent a\<rparr>"

definition app_reinstall :: "app \<Rightarrow> app res option" where
  "app_reinstall a = (let a1 = app_clear a in case policies a (main_policy a) of
     None \<Rightarrow> Some (Inl Out_of_range)
   | Some p \<Rightarrow> Option.bind (compile p) (\<lambda>d. case translate translator_default d of
       (_, calls, d') \<Rightarrow> Some (rbind (rfold call_backend calls (new_backend a1)) (\<lambda>b.
         Inr (a1\<lparr>app_fdd := d', app_backend := Some b\<rparr>)))))"

text \<open>\<open>operator[]\<close> inserts the first alternative of the variant, \<open>Stop\<close>, for an unknown name.\<close>

definition set_main :: "string \<Rightarrow> app \<Rightarrow> app res option" where
  "set_main name a =
     (let a1 = a\<lparr>main_policy := name,
        policies := (case policies a name of None \<Rightarrow> (policies a)(name \<mapsto> Stop) | Some _ \<Rightarrow> policies a)\<rparr>
      in Option.bind (compile (the (policies a1 name))) (\<lambda>d. app_reinstall (a1\<lparr>app_fdd := d\<rparr>)))"

definition put_driver :: "64 word \<Rightarrow> driver \<Rightarrow> (64 word \<times> driver) list \<Rightarrow> (64 word \<times> driver) list" where
  "put_driver i d ds = (if i \<in> fst ` set ds then map (\<lambda>(j, x). (j, if j = i then d else x)) ds else ds @ [(i, d)])"

definition on_switch_up :: "64 word \<Rightarrow> app \<Rightarrow> app res option" where
  "on_switch_up dpid a = (let a1 = app_clear a in
     app_reinstall (a1\<lparr>app_drivers := put_driver dpid make_driver (app_drivers a1)\<rparr>))"

text \<open>The \<open>PacketIn\<close> handler, over the operations of the packet.\<close>

definition packet_in :: "('p \<Rightarrow> oxm_mask \<Rightarrow> oxm_field) \<Rightarrow> ('p \<Rightarrow> oxm_field \<Rightarrow> bool) \<Rightarrow> ('p \<Rightarrow> oxm_field \<Rightarrow> 'p) \<Rightarrow>
  'p \<Rightarrow> byte list \<Rightarrow> 64 word \<Rightarrow> app \<Rightarrow> app res option" where
  "packet_in ld tst md p data dpid a =
     Option.bind (traverse (app_backend a \<noteq> None) ld tst md p (app_fdd a) []) (\<lambda>r. Some (rbind r (\<lambda>(l, d, mt, calls).
       if list_ex has_body (sets l) then Inl Runtime_error
       else case app_backend a of
         None \<Rightarrow> Inl Nullptr_dereference
       | Some b \<Rightarrow> rbind (rfold call_backend calls b) (\<lambda>b1.
           rbind (packet_outs data (map pred_actions (sets l)) dpid b1) (\<lambda>b2.
             Inr (a\<lparr>app_fdd := d, app_backend := Some b2\<rparr>))))))"

section \<open>Runs of the application\<close>

text \<open>
  The events of a run. An operation that throws or does not return ends the run; packets are
  field sets.
\<close>

inductive app_step :: "app \<Rightarrow> app \<Rightarrow> bool" where
  register: "app_step a (register_policy name p a)"
| start: "start_up a = Some (Inr a') \<Longrightarrow> app_step a a'"
| clear: "app_step a (app_clear a)"
| reinstall: "app_reinstall a = Some (Inr a') \<Longrightarrow> app_step a a'"
| main: "set_main name a = Some (Inr a') \<Longrightarrow> app_step a a'"
| switch_up: "on_switch_up dpid a = Some (Inr a') \<Longrightarrow> app_step a a'"
| packet: "packet_in fs_load fs_test fs_modify p data dpid a = Some (Inr a') \<Longrightarrow> app_step a a'"

inductive reachable :: "app \<Rightarrow> bool" where
  init: "reachable (app_init main t)"
| step: "reachable a \<Longrightarrow> app_step a a' \<Longrightarrow> reachable a'"

text \<open>Every entry of a switch belongs to an object of the current backend.\<close>

definition app_owned :: "app \<Rightarrow> bool" where
  "app_owned a = (case app_backend a of None \<Rightarrow> live (app_sent a) = [] | Some b \<Rightarrow> owned b)"

lemma app_clear_backend [simp]: "app_backend (app_clear a) = None"
  by (simp add: app_clear_def Let_def split: option.split)

lemma app_clear_live: "app_owned a \<Longrightarrow> live (app_sent (app_clear a)) = []"
  by (auto simp: app_owned_def app_clear_def Let_def clear_rules_live split: option.splits)

lemma owned_new_backend: "live (app_sent a) = [] \<Longrightarrow> owned (new_backend a)"
  by (simp add: new_backend_def owned_def)

lemma app_owned_update [simp]:
  "app_owned (a\<lparr>main_policy := m\<rparr>) = app_owned a" "app_owned (a\<lparr>policies := ps\<rparr>) = app_owned a"
  "app_owned (a\<lparr>app_fdd := d\<rparr>) = app_owned a" "app_owned (a\<lparr>app_drivers := ds\<rparr>) = app_owned a"
  by (simp_all add: app_owned_def split: option.split)

lemma owned_calls:
  assumes "owned b" "rfold call_backend cs b = Inr b'"
  shows "owned b'"
  by (rule owned_rfold [OF assms]) (rule owned_call)

lemma owned_packet_outs_loop:
  "owned b \<Longrightarrow> packet_outs_loop dpid data acts b = Inr b' \<Longrightarrow> owned b'"
proof (induction acts arbitrary: b)
  case (Cons x xs)
  have o: "owned (packet_out dpid data acts b)" for acts
    using Cons.prems(1) by (simp add: owned_def packet_out_def send_def live_step_def)
  show ?case using Cons.IH [OF o] Cons.IH [OF Cons.prems(1)] Cons.prems(2)
    by (auto simp: rbind_eq_Inr split: option.splits)
qed simp

lemma owned_packet_outs: "owned b \<Longrightarrow> packet_outs data acts dpid b = Inr b' \<Longrightarrow> owned b'"
  by (auto simp: packet_outs_def owned_packet_outs_loop split: option.splits)

lemma app_owned_reinstall:
  assumes "app_owned a" "app_reinstall a = Some (Inr a')"
  shows "app_owned a'"
proof -
  obtain b d calls where b: "rfold call_backend calls (new_backend (app_clear a)) = Inr b"
    "a' = (app_clear a)\<lparr>app_fdd := d, app_backend := Some b\<rparr>"
    using assms(2) by (auto simp: app_reinstall_def Let_def bind_eq_Some_conv rbind_eq_Inr split_beta
        split: option.splits)
  have "owned b" using owned_calls [OF owned_new_backend b(1)] app_clear_live [OF assms(1)] .
  then show ?thesis using b(2) by (simp add: app_owned_def)
qed

lemma app_owned_step: "app_step a a' \<Longrightarrow> app_owned a \<Longrightarrow> app_owned a'"
proof (induction rule: app_step.induct)
  case (main name a a')
  then show ?case
    by (auto simp: set_main_def Let_def bind_eq_Some_conv elim!: app_owned_reinstall [rotated])
next
  case (switch_up dpid a a')
  have "app_owned ((app_clear a)\<lparr>app_drivers := ds\<rparr>)" for ds
    using app_clear_live [OF switch_up.prems] by (simp add: app_owned_def)
  with switch_up show ?case by (auto simp: on_switch_up_def Let_def elim!: app_owned_reinstall [rotated])
next
  case (packet p data dpid a a')
  then show ?case
    by (auto simp: packet_in_def bind_eq_Some_conv rbind_eq_Inr app_owned_def split: option.splits if_splits
        intro: owned_packet_outs [OF owned_calls])
next
  case (clear a)
  then show ?case using app_clear_live by (simp add: app_owned_def)
next
  case (reinstall a a')
  then show ?case using app_owned_reinstall by blast
qed (auto simp: register_policy_def start_up_def bind_eq_Some_conv split: option.splits)

lemma app_owned_reachable: "reachable a \<Longrightarrow> app_owned a"
  by (induction rule: reachable.induct) (auto simp: app_owned_step, simp add: app_owned_def app_init_def)


text \<open>A run: a policy is registered and made the main policy, a switch connects, a packet comes.\<close>

definition run_start :: app where
  "run_start = register_policy ''p'' (Sequential (Filter (in_port_is 1)) (fwd 2)) (app_init (Some ''p'') 1)"


text \<open>
  The packet handler needs a backend. While no switch is connected, or after the rules were
  cleared, every packet that is not dropped by an exception before dereferences the null pointer.
\<close>

lemma packet_without_backend:
  assumes "app_backend a = None" "packet_in ld tst md p data dpid a = Some r"
  shows "\<exists>e. r = Inl e"
  using assms by (cases r) (auto simp: packet_in_def bind_eq_Some_conv rbind_eq_Inr split: if_splits)

theorem packet_without_backend_witness:
  "packet_in fs_load fs_test fs_modify zero_packet [] 7 (app_init None 1) = Some (Inl Nullptr_dereference)"
proof -
  have "packet_in fs_load fs_test fs_modify zero_packet [] 7 (app_init None 1) = Some (Inl Nullptr_dereference)"
    by (simp add: packet_in_def app_init_def traverse_static)
  moreover from this obtain e where "Inl Nullptr_dereference = (Inl e :: app res)"
    using packet_without_backend [of "app_init None 1" fs_load fs_test fs_modify zero_packet "[]" 7]
    by (auto simp: app_init_def)
  ultimately show ?thesis by simp
qed

end
