(* ===== verification/Addresses.thy ===== *)
theory Addresses
  imports Prelude
begin

text \<open>
  Network addresses: \<^verbatim>\<open>src/types/ethaddr.cc\<close>, \<^verbatim>\<open>src/types/ipv4addr.cc\<close> and
  \<^verbatim>\<open>src/types/IPv6Addr.cc\<close> with their headers. The static bit set inside an address is a
  word. The regular expressions are written out as functions on the string; in
  \<open>std::regex\<close> an unescaped dot matches every character except line terminators.
\<close>

unbundle bit_operations_syntax

section \<open>Characters and numbers\<close>

definition digit_val :: "char \<Rightarrow> nat option" where
  "digit_val c = (let n = of_char c :: nat in if 48 \<le> n \<and> n \<le> 57 then Some (n - 48) else None)"

definition xdigit_val :: "char \<Rightarrow> nat option" where
  "xdigit_val c = (let n = of_char c :: nat in
     if 48 \<le> n \<and> n \<le> 57 then Some (n - 48)
     else if 97 \<le> n \<and> n \<le> 102 then Some (n - 87)
     else if 65 \<le> n \<and> n \<le> 70 then Some (n - 55)
     else None)"

definition xdigit_char :: "nat \<Rightarrow> char" where
  "xdigit_char n = (if n < 10 then char_of (48 + n) else char_of (87 + n))"

definition is_digit :: "char \<Rightarrow> bool" where
  "is_digit c = (digit_val c \<noteq> None)"

definition is_xdigit :: "char \<Rightarrow> bool" where
  "is_xdigit c = (xdigit_val c \<noteq> None)"

definition any_char :: "char \<Rightarrow> bool" where
  "any_char c = (c \<noteq> CHR 0x0A \<and> c \<noteq> CHR 0x0D)"

text \<open>\<open>std::stoi\<close> on the digits a group matched.\<close>

definition number :: "nat \<Rightarrow> (char \<Rightarrow> nat option) \<Rightarrow> string \<Rightarrow> nat" where
  "number base v s = foldl (\<lambda>n c. base * n + (case v c of None \<Rightarrow> 0 | Some d \<Rightarrow> d)) 0 s"

lemma char_of_nat_cases: "n < 16 \<Longrightarrow> n \<in> {0,1,2,3,4,5,6,7,8,9,10,11,12,13,14,15 :: nat}"
  unfolding insert_iff empty_iff by presburger

lemma xdigit_val_char [simp]: "n < 16 \<Longrightarrow> xdigit_val (xdigit_char n) = Some n"
  by (auto simp: xdigit_val_def xdigit_char_def dest!: char_of_nat_cases)

lemma digit_val_char [simp]: "n < 10 \<Longrightarrow> digit_val (xdigit_char n) = Some n"
  by (simp add: digit_val_def xdigit_char_def)

section \<open>Ethernet addresses\<close>

type_synonym ethaddr = "48 word"

definition bits_text :: "8 word \<Rightarrow> string" where
  "bits_text w = [xdigit_char (unat w div 16), xdigit_char (unat w mod 16)]"

text \<open>Six or more hexadecimal pairs with a separator after each one, and the dotted form.\<close>

fun pairs :: "char \<Rightarrow> string \<Rightarrow> nat list option" where
  "pairs sep [a, b] = (if is_xdigit a \<and> is_xdigit b then Some [number 16 xdigit_val [a, b]] else None)"
| "pairs sep (a # b # c # s) = (if is_xdigit a \<and> is_xdigit b \<and> c = sep
     then map_option ((#) (number 16 xdigit_val [a, b])) (pairs sep s) else None)"
| "pairs sep s = None"

fun quads :: "string \<Rightarrow> nat list option" where
  "quads [a, b, c, d] = (if list_all is_xdigit [a, b, c, d]
     then Some [number 16 xdigit_val [a, b], number 16 xdigit_val [c, d]] else None)"
| "quads (a # b # c # d # e # s) = (if list_all is_xdigit [a, b, c, d] \<and> any_char e
     then map_option (\<lambda>ns. number 16 xdigit_val [a, b] # number 16 xdigit_val [c, d] # ns) (quads s) else None)"
| "quads s = None"

definition six :: "nat list option \<Rightarrow> nat list option" where
  "six r = (case r of None \<Rightarrow> None | Some ns \<Rightarrow> if length ns = 6 then Some ns else None)"

definition octets_value :: "nat list \<Rightarrow> 64 word" where
  "octets_value ns = foldl (\<lambda>r n. push_bit 8 r OR ucast (of_nat n :: 8 word)) 0 ns"

definition parse_mac :: "string \<Rightarrow> 64 word res" where
  "parse_mac s = (case six (pairs CHR '':'' s) of
     Some ns \<Rightarrow> Inr (octets_value ns)
   | None \<Rightarrow> (case six (pairs CHR ''-'' s) of
       Some ns \<Rightarrow> Inr (octets_value ns)
     | None \<Rightarrow> (case six (quads s) of
         Some ns \<Rightarrow> Inr (octets_value ns)
       | None \<Rightarrow> Inl Bad_representation)))"

text \<open>The constructors and conversions.\<close>

definition eth_of_string :: "string \<Rightarrow> ethaddr res" where
  "eth_of_string s = rbind (parse_mac s) (\<lambda>n. Inr (ucast n))"

definition eth_of_number :: "64 word \<Rightarrow> ethaddr res" where
  "eth_of_number n = (if n AND 0xffff000000000000 \<noteq> 0 then Inl Bad_representation else Inr (ucast n))"

definition eth_of_octets :: "8 word list \<Rightarrow> ethaddr" where
  "eth_of_octets os = (case os of
     [a, b, c, d, e, f] \<Rightarrow> ucast (push_bit 40 (ucast a) OR push_bit 32 (ucast b) OR push_bit 24 (ucast c) OR
       push_bit 16 (ucast d) OR push_bit 8 (ucast e) OR (ucast f :: 64 word))
   | _ \<Rightarrow> 0)"

definition eth_to_number :: "ethaddr \<Rightarrow> 64 word" where
  "eth_to_number a = ucast a"

definition eth_to_octets :: "ethaddr \<Rightarrow> 8 word list" where
  "eth_to_octets a = (let num = eth_to_number a in
     [ucast (drop_bit 40 (num AND 0xff0000000000)), ucast (drop_bit 32 (num AND 0xff00000000)),
      ucast (drop_bit 24 (num AND 0xff000000)), ucast (drop_bit 16 (num AND 0xff0000)),
      ucast (drop_bit 8 (num AND 0xff00)), ucast (num AND 0xff)])"

definition eth_is_broadcast :: "ethaddr \<Rightarrow> bool" where
  "eth_is_broadcast a = (a = - 1)"

definition eth_is_multicast :: "ethaddr \<Rightarrow> bool" where
  "eth_is_multicast a = bit a (48 - 8)"

definition eth_is_unicast :: "ethaddr \<Rightarrow> bool" where
  "eth_is_unicast a = (\<not> bit a (48 - 8))"

definition is_locally_administered :: "ethaddr \<Rightarrow> bool" where
  "is_locally_administered a = bit a (48 - 7)"

text \<open>The stream operators. Reading takes 17 characters, which are a string up to a null
  character; what a shorter stream leaves in the buffer is undefined, so it is not modelled.\<close>

fun join_with :: "string \<Rightarrow> string list \<Rightarrow> string" where
  "join_with sep [] = []"
| "join_with sep [s] = s"
| "join_with sep (s # t # ss) = s @ sep @ join_with sep (t # ss)"

definition eth_print :: "ethaddr \<Rightarrow> string" where
  "eth_print a = join_with '':'' (map bits_text (eth_to_octets a))"

definition eth_read :: "string \<Rightarrow> ethaddr res \<times> string" where
  "eth_read stream = (eth_of_string (takeWhile (\<lambda>c. c \<noteq> CHR 0x00) (take 17 stream)), drop 17 stream)"

section \<open>Properties of Ethernet addresses\<close>

lemma unat_byte: "unat (w :: 8 word) < 256"
  using unsigned_less [of w, where 'a = nat] by simp

lemma pair_value:
  "number 16 xdigit_val (bits_text w) = unat w" "list_all is_xdigit (bits_text w)"
  using unat_byte [of w] by (simp_all add: number_def bits_text_def is_xdigit_def less_mult_imp_div_less)

lemma pairs_text [simp]:
  "pairs sep (bits_text w) = Some [unat w]"
  "pairs sep (bits_text w @ sep # s) = map_option ((#) (unat w)) (pairs sep s)"
  using pair_value [of w] by (simp_all add: bits_text_def)

text \<open>The octet at a bit position.\<close>

definition octet :: "nat \<Rightarrow> 'a::len word \<Rightarrow> 8 word" where
  "octet k w = ucast (drop_bit k w)"

lemma octet_masked: "ucast (drop_bit k (w AND push_bit k (mask 8))) = octet k (w :: 64 word)"
  by (rule bit_word_eqI) (auto simp: octet_def bit_simps dest: bit_imp_le_length)

lemma ucast_back: "LENGTH('a) \<le> LENGTH('b) \<Longrightarrow> ucast (ucast (a :: 'a::len word) :: 'b::len word) = a"
  by (rule bit_word_eqI) (auto simp: bit_simps)

lemma octet_masks:
  "(0xff0000000000 :: 64 word) = push_bit 40 (mask 8)" "(0xff00000000 :: 64 word) = push_bit 32 (mask 8)"
  "(0xff000000 :: 64 word) = push_bit 24 (mask 8)" "(0xff0000 :: 64 word) = push_bit 16 (mask 8)"
  "(0xff00 :: 64 word) = push_bit 8 (mask 8)" "(0xff :: 64 word) = push_bit 0 (mask 8)"
  by (simp_all add: mask_numeral push_bit_eq_mult)

lemma eth_octets: "eth_to_octets a = map (\<lambda>k. octet k a) [40, 32, 24, 16, 8, 0]"
proof -
  have "octet k (ucast a :: 64 word) = octet k a" for k
    by (rule bit_word_eqI) (auto simp: octet_def bit_simps dest: bit_imp_le_length)
  moreover have "ucast (w AND 0xff :: 64 word) = octet 0 w" for w
    using octet_masked [of 0 w] by (simp add: mask_numeral)
  ultimately show ?thesis
    unfolding eth_to_octets_def eth_to_number_def Let_def list.map
    by (simp only: octet_masks(1-5) octet_masked)
qed

lemma join_octets:
  fixes a :: "48 word"
  shows "push_bit 40 (ucast (octet 40 a)) OR push_bit 32 (ucast (octet 32 a)) OR push_bit 24 (ucast (octet 24 a)) OR
    push_bit 16 (ucast (octet 16 a)) OR push_bit 8 (ucast (octet 8 a)) OR ucast (octet 0 a) = (ucast a :: 64 word)"
proof (rule bit_word_eqI)
  fix n assume "n < LENGTH(64)"
  then have n: "n < 64" by simp
  have b: "bit a n \<Longrightarrow> n < 48" using bit_imp_le_length [of a n] by simp
  consider "n < 8" | "8 \<le> n" "n < 16" | "16 \<le> n" "n < 24" | "24 \<le> n" "n < 32" | "32 \<le> n" "n < 40"
    | "40 \<le> n" "n < 48" | "48 \<le> n" by linarith
  then show "bit (push_bit 40 (ucast (octet 40 a)) OR push_bit 32 (ucast (octet 32 a)) OR push_bit 24 (ucast (octet 24 a)) OR
      push_bit 16 (ucast (octet 16 a)) OR push_bit 8 (ucast (octet 8 a)) OR ucast (octet 0 a) :: 64 word) n = bit (ucast a :: 64 word) n"
    by cases (use n b in \<open>auto simp: octet_def bit_simps\<close>)
qed

lemma eth_join: "eth_of_octets (eth_to_octets a) = a"
  by (simp add: eth_octets eth_of_octets_def join_octets ucast_back)

lemma eth_number_roundtrip: "eth_of_number (eth_to_number a) = Inr a"
proof -
  have "(0xffff000000000000 :: 64 word) = push_bit 48 (mask 16)" by (simp add: mask_numeral push_bit_eq_mult)
  moreover have "(ucast a :: 64 word) AND push_bit 48 (mask 16) = 0"
    by (rule bit_word_eqI) (auto simp: bit_simps dest: bit_imp_le_length)
  ultimately show ?thesis by (simp add: eth_of_number_def eth_to_number_def ucast_back)
qed

lemma octets_value_octets: "octets_value (map unat [a :: 8 word, b, c, d, e, f]) =
    push_bit 40 (ucast a) OR push_bit 32 (ucast b) OR push_bit 24 (ucast c) OR
    push_bit 16 (ucast d) OR push_bit 8 (ucast e) OR (ucast f :: 64 word)"
  by (simp add: octets_value_def push_bit_or or.assoc ucast_back)

text \<open>
  an Ethernet address survives printing and parsing, conversion to octets and back, and
  conversion to a number and back.
\<close>

lemma eth_roundtrip:
  "eth_of_string (eth_print a) = Inr a \<and> eth_of_octets (eth_to_octets a) = a \<and>
   eth_of_number (eth_to_number a) = Inr a"
proof -
  have "pairs CHR '':'' (eth_print a) = Some (map unat (eth_to_octets a))"
    by (simp add: eth_print_def eth_octets)
  then have "parse_mac (eth_print a) = Inr (octets_value (map unat (eth_to_octets a)))"
    by (simp add: parse_mac_def six_def eth_octets)
  then have "eth_of_string (eth_print a) = Inr a"
    unfolding eth_of_string_def
    using octets_value_octets [of "octet 40 a" "octet 32 a" "octet 24 a" "octet 16 a" "octet 8 a" "octet 0 a"]
    by (simp add: eth_octets join_octets ucast_back)
  then show ?thesis by (simp add: eth_join eth_number_roundtrip)
qed

end
