(* ===== verification/Ip_Addresses.thy ===== *)
theory Ip_Addresses
  imports Addresses
begin

text \<open>
  IPv4 and IPv6 addresses, \<^verbatim>\<open>src/types/ipv4addr.cc\<close> and
  \<^verbatim>\<open>src/types/IPv6Addr.cc\<close>. A function declared \<open>noexcept\<close> that throws ends the
  program, which is the error \<open>Terminated\<close>.
\<close>

definition noexcept :: "'a res \<Rightarrow> 'a res" where
  "noexcept r = (case r of Inl e \<Rightarrow> Inl Terminated | Inr a \<Rightarrow> Inr a)"

section \<open>IPv4\<close>

type_synonym ipv4addr = "32 word"

text \<open>
  The match of \<open>(d{1,3}).(d{1,3}).(d{1,3}).(d{1,3})\<close>: every group first takes as many digits
  as it can, and gives characters back when the rest does not match. The separators are
  unescaped dots.
\<close>

fun ip_groups :: "nat \<Rightarrow> string \<Rightarrow> string list option"
  and ip_group :: "nat \<Rightarrow> nat \<Rightarrow> string \<Rightarrow> string list option" where
  "ip_groups 0 s = None"
| "ip_groups (Suc k) s = (case ip_group k 3 s of Some gs \<Rightarrow> Some gs
     | None \<Rightarrow> (case ip_group k 2 s of Some gs \<Rightarrow> Some gs | None \<Rightarrow> ip_group k 1 s))"
| "ip_group k n s =
     (if length s < n \<or> \<not> list_all is_digit (take n s) then None
      else case k of
        0 \<Rightarrow> (if drop n s = [] then Some [take n s] else None)
      | Suc j \<Rightarrow> (case drop n s of
            [] \<Rightarrow> None
          | c # r \<Rightarrow> if any_char c then map_option ((#) (take n s)) (ip_groups (Suc j) r) else None))"

definition parse_ipv4 :: "string \<Rightarrow> 64 word res" where
  "parse_ipv4 s = (case ip_groups 4 s of
     None \<Rightarrow> Inl Bad_representation
   | Some gs \<Rightarrow> Inr (octets_value (map (number 10 digit_val) gs)))"

definition ipv4_of_string :: "string \<Rightarrow> ipv4addr res" where
  "ipv4_of_string s = rbind (parse_ipv4 s) (\<lambda>n. Inr (ucast n))"

definition ipv4_of_octets :: "8 word list \<Rightarrow> ipv4addr" where
  "ipv4_of_octets os = (case os of
     [a, b, c, d] \<Rightarrow> ucast (push_bit 24 (ucast a) OR push_bit 16 (ucast b) OR push_bit 8 (ucast c) OR (ucast d :: 64 word))
   | _ \<Rightarrow> 0)"

definition ipv4_to_octets :: "ipv4addr \<Rightarrow> 8 word list" where
  "ipv4_to_octets a = [ucast (drop_bit 24 (a AND 0xff000000)), ucast (drop_bit 16 (a AND 0xff0000)),
     ucast (drop_bit 8 (a AND 0xff00)), ucast (a AND 0xff)]"

text \<open>Decimal printing of an octet (\<open>%u\<close>).\<close>

definition dec_text :: "8 word \<Rightarrow> string" where
  "dec_text w = (let n = unat w in
     if n < 10 then [xdigit_char n]
     else if n < 100 then [xdigit_char (n div 10), xdigit_char (n mod 10)]
     else [xdigit_char (n div 100), xdigit_char (n div 10 mod 10), xdigit_char (n mod 10)])"

definition ipv4_print :: "ipv4addr \<Rightarrow> string" where
  "ipv4_print a = join_with ''.'' (map dec_text (ipv4_to_octets a))"

definition compare_prefix :: "string \<Rightarrow> ipv4addr \<Rightarrow> 8 word \<Rightarrow> bool res" where
  "compare_prefix pattern value subnet = rbind (parse_ipv4 pattern) (\<lambda>n.
     let shift = unat (32 - subnet) in Inr (drop_bit shift (ucast n :: ipv4addr) = drop_bit shift value))"

definition is_private :: "ipv4addr \<Rightarrow> bool res" where
  "is_private a = noexcept (rbind (compare_prefix ''10.0.0.0'' a 8) (\<lambda>x. if x then Inr True else
     rbind (compare_prefix ''172.16.0.0'' a 12) (\<lambda>y. if y then Inr True else
       compare_prefix ''192.168.0.0.'' a 16)))"

definition is_loopback :: "ipv4addr \<Rightarrow> bool res" where
  "is_loopback a = noexcept (compare_prefix ''127.0.0.0'' a 8)"

definition ipv4_is_multicast :: "ipv4addr \<Rightarrow> bool res" where
  "ipv4_is_multicast a = noexcept (compare_prefix ''224.0.0.0'' a 4)"

definition ipv4_is_broadcast :: "ipv4addr \<Rightarrow> bool" where
  "ipv4_is_broadcast a = (a = - 1)"

section \<open>What the IPv4 functions do\<close>

lemma three_digits: "10 * (10 * (n div 100) + n div 10 mod 10) + n mod 10 = (n :: nat)"
proof -
  have "n div 100 = n div 10 div 10" by (simp add: div_mult2_eq [symmetric])
  then have "10 * (n div 100) + n div 10 mod 10 = n div 10" by simp
  then show ?thesis by simp
qed

lemma dec_text_cases:
  obtains d where "dec_text w = [xdigit_char d]" "d < 10" "unat w = d"
  | d e where "dec_text w = [xdigit_char d, xdigit_char e]" "d < 10" "e < 10" "unat w = 10 * d + e"
  | d e f where "dec_text w = [xdigit_char d, xdigit_char e, xdigit_char f]" "d < 10" "e < 10" "f < 10"
      "unat w = 10 * (10 * d + e) + f"
proof -
  define n where "n = unat w"
  have n: "n < 256" by (simp add: n_def unat_byte)
  consider "n < 10" | "10 \<le> n" "n < 100" | "100 \<le> n" by linarith
  then show thesis
  proof cases
    case 1
    then show thesis by (intro that(1) [of n]) (simp_all add: dec_text_def n_def Let_def)
  next
    case 2
    then have "n div 10 < 10" "10 * (n div 10) + n mod 10 = n" by presburger+
    with 2 show thesis by (intro that(2) [of "n div 10" "n mod 10"]) (simp_all add: dec_text_def n_def Let_def)
  next
    case 3
    have d: "n div 100 < 10" "n div 10 mod 10 < 10" "n mod 10 < 10"
      using n by (simp_all add: less_mult_imp_div_less)
    have t: "dec_text w = [xdigit_char (n div 100), xdigit_char (n div 10 mod 10), xdigit_char (n mod 10)]"
      using 3 unfolding dec_text_def Let_def n_def [symmetric] by simp
    show thesis
      by (rule that(3) [OF t d]) (simp only: n_def three_digits)
  qed
qed

lemma dec_text_digits: "list_all is_digit (dec_text w)" "length (dec_text w) \<in> {1, 2, 3}"
  by (cases w rule: dec_text_cases; simp add: is_digit_def)+

lemma dec_text_number: "number 10 digit_val (dec_text w) = unat w"
  by (cases w rule: dec_text_cases) (simp_all add: number_def)

text \<open>A group that is followed by a dot, or by nothing, is taken whole.\<close>

lemma ip_group_longer:
  assumes "length g < n" "\<not> is_digit c"
  shows "ip_group k n (g @ c # r) = None" "ip_group k n g = None"
proof -
  have "c \<in> set (take n (g @ c # r))" using assms(1) by (simp add: take_Cons')
  then show "ip_group k n (g @ c # r) = None" using assms(2) by (auto simp: list_all_iff)
qed (use assms in simp)

lemma ip_groups_next:
  assumes "list_all is_digit g" "length g \<in> {1, 2, 3}" "\<not> is_digit c" "any_char c" "ip_groups (Suc k) r = Some gs"
  shows "ip_groups (Suc (Suc k)) (g @ c # r) = Some (g # gs)"
proof -
  have "ip_group (Suc k) (length g) (g @ c # r) = Some (g # gs)" using assms by simp
  then show ?thesis
    using assms(2) ip_group_longer(1) [of g 3 c "Suc k" r] ip_group_longer(1) [of g 2 c "Suc k" r] assms(3)
    by (auto simp del: ip_group.simps)
qed

lemma ip_groups_last:
  assumes "list_all is_digit g" "length g \<in> {1, 2, 3}"
  shows "ip_groups (Suc 0) g = Some [g]"
proof -
  have "ip_group 0 (length g) g = Some [g]" using assms by simp
  moreover have "length g < n \<Longrightarrow> ip_group 0 n g = None" for n by simp
  ultimately show ?thesis using assms(2) by (auto simp del: ip_group.simps)
qed

lemma dot_char: "\<not> is_digit CHR ''.''" "any_char CHR ''.''"
  by (simp_all add: is_digit_def digit_val_def any_char_def)

lemma parse_dotted:
  "parse_ipv4 (join_with ''.'' (map dec_text [a, b, c, d])) = Inr (octets_value (map unat [a, b, c, d]))"
proof -
  have four: "(4 :: nat) = Suc (Suc (Suc (Suc 0)))" by simp
  have "ip_groups 4 (dec_text a @ CHR ''.'' # dec_text b @ CHR ''.'' # dec_text c @ CHR ''.'' # dec_text d) =
      Some [dec_text a, dec_text b, dec_text c, dec_text d]"
    unfolding four by (intro ip_groups_next ip_groups_last dec_text_digits dot_char)
  then show ?thesis by (simp add: parse_ipv4_def dec_text_number del: ip_groups.simps)
qed

lemma ipv4_octets: "ipv4_to_octets a = map (\<lambda>k. octet k a) [24, 16, 8, 0]"
proof -
  have m: "(0xff000000 :: 32 word) = push_bit 24 (mask 8)" "(0xff0000 :: 32 word) = push_bit 16 (mask 8)"
    "(0xff00 :: 32 word) = push_bit 8 (mask 8)" "(0xff :: 32 word) = push_bit 0 (mask 8)"
    by (simp_all add: mask_numeral push_bit_eq_mult)
  have o: "ucast (drop_bit k (w AND push_bit k (mask 8))) = octet k w" for k and w :: "32 word"
    by (rule bit_word_eqI) (auto simp: octet_def bit_simps dest: bit_imp_le_length)
  have "ucast (w AND 0xff) = octet 0 w" for w :: "32 word" using o [of 0 w] by (simp add: mask_numeral)
  then show ?thesis unfolding ipv4_to_octets_def list.map by (simp only: m(1-3) o)
qed

lemma join_ipv4:
  fixes a :: "32 word"
  shows "push_bit 24 (ucast (octet 24 a)) OR push_bit 16 (ucast (octet 16 a)) OR push_bit 8 (ucast (octet 8 a)) OR
    ucast (octet 0 a) = (ucast a :: 64 word)"
proof (rule bit_word_eqI)
  fix n assume "n < LENGTH(64)"
  then have n: "n < 64" by simp
  have b: "bit a n \<Longrightarrow> n < 32" using bit_imp_le_length [of a n] by simp
  consider "n < 8" | "8 \<le> n" "n < 16" | "16 \<le> n" "n < 24" | "24 \<le> n" "n < 32" | "32 \<le> n" by linarith
  then show "bit (push_bit 24 (ucast (octet 24 a)) OR push_bit 16 (ucast (octet 16 a)) OR push_bit 8 (ucast (octet 8 a)) OR
      ucast (octet 0 a) :: 64 word) n = bit (ucast a :: 64 word) n"
    by cases (use n b in \<open>auto simp: octet_def bit_simps\<close>)
qed

lemma octets_value_four: "octets_value (map unat [a :: 8 word, b, c, d]) =
    push_bit 24 (ucast a) OR push_bit 16 (ucast b) OR push_bit 8 (ucast c) OR (ucast d :: 64 word)"
  by (simp add: octets_value_def push_bit_or or.assoc ucast_back)

text \<open>
  an IPv4 address survives printing and parsing, and conversion to octets and back.
\<close>

lemma ipv4_roundtrip:
  "ipv4_of_string (ipv4_print a) = Inr a \<and> ipv4_of_octets (ipv4_to_octets a) = a"
proof
  show "ipv4_of_string (ipv4_print a) = Inr a"
    using parse_dotted [of "octet 24 a" "octet 16 a" "octet 8 a" "octet 0 a"]
      octets_value_four [of "octet 24 a" "octet 16 a" "octet 8 a" "octet 0 a"]
    by (simp add: ipv4_of_string_def ipv4_print_def ipv4_octets join_ipv4 ucast_back)
  show "ipv4_of_octets (ipv4_to_octets a) = a"
    by (simp add: ipv4_octets ipv4_of_octets_def join_ipv4 ucast_back)
qed

text \<open>
  Asking whether an address is private ends the program unless the address lies in 10/8 or
  172.16/12: the third pattern has a dot too many, so parsing it throws inside a \<open>noexcept\<close>
  function. The address 192.168.0.1 is an example.
\<close>

lemma is_private_terminates:
  "is_private a = (if drop_bit 24 a = 10 \<or> drop_bit 20 a = 0xac1 then Inr True else Inl Terminated)"
proof -
  have "parse_ipv4 ''10.0.0.0'' = Inr 0x0a000000" "parse_ipv4 ''172.16.0.0'' = Inr 0xac100000"
    "parse_ipv4 ''192.168.0.0.'' = Inl Bad_representation" by code_simp+
  then show ?thesis
    by (auto simp: is_private_def compare_prefix_def noexcept_def Let_def)
qed

text \<open>
  The parser of dotted addresses accepts more than dotted addresses: octets above 255 lose
  their high bits, any character can stand for a dot, and digits can be separators.
\<close>

lemma ipv4_parser_accepts:
  "ipv4_of_string ''300.1.1.1'' = ipv4_of_string ''44.1.1.1'' \<and>
   ipv4_of_string ''1a2b3c4'' = ipv4_of_string ''1.2.3.4'' \<and>
   ipv4_of_string ''1234567'' = ipv4_of_string ''1.3.5.7'' \<and>
   ipv4_of_string ''1.2.3'' = Inl Bad_representation"
  by code_simp

section \<open>IPv6\<close>

type_synonym ipv6addr = "128 word"

text \<open>The parts of a text between colons.\<close>

fun split_colon :: "string \<Rightarrow> string list" where
  "split_colon [] = [[]]"
| "split_colon (c # s) = (if c = CHR '':'' then [] # split_colon s
     else (case split_colon s of p # ps \<Rightarrow> (c # p) # ps | [] \<Rightarrow> [[c]]))"

definition hextet :: "nat \<Rightarrow> string \<Rightarrow> bool" where
  "hextet lo p = (lo \<le> length p \<and> length p \<le> 4 \<and> list_all is_xdigit p)"

text \<open>
  The alternatives of the validating expression. \<open>compressed n lo hi ps\<close> is the form of one to
  \<open>n\<close> groups, an empty one, and \<open>lo\<close> to \<open>hi\<close> groups.
\<close>

definition compressed :: "nat \<Rightarrow> nat \<Rightarrow> nat \<Rightarrow> string list \<Rightarrow> bool" where
  "compressed n lo hi ps = (let front = takeWhile (\<lambda>p. p \<noteq> []) ps; rest = drop (length front) ps in
     rest \<noteq> [] \<and> 1 \<le> length front \<and> length front \<le> n \<and> list_all (hextet 1) front \<and>
     lo \<le> length (tl rest) \<and> length (tl rest) \<le> hi \<and> list_all (hextet 1) (tl rest))"

definition valid_ipv6 :: "string \<Rightarrow> bool" where
  "valid_ipv6 s = (let ps = split_colon s in
     length ps = 8 \<and> list_all (hextet 1) ps \<or>
     2 \<le> length ps \<and> drop (length ps - 2) ps = [[], []] \<and> 1 \<le> length ps - 2 \<and> length ps - 2 \<le> 7 \<and>
       list_all (hextet 1) (take (length ps - 2) ps) \<or>
     compressed 6 1 1 ps \<or> compressed 5 1 2 ps \<or> compressed 4 1 3 ps \<or> compressed 3 1 4 ps \<or>
     compressed 2 1 5 ps \<or> compressed 1 1 6 ps \<or>
     take 2 ps = [[], []] \<and> (list_all (hextet 1) (drop 2 ps) \<and> 1 \<le> length ps - 2 \<and> length ps - 2 \<le> 7 \<or> drop 2 ps = [[]]))"

definition colons :: "string \<Rightarrow> nat" where
  "colons s = length (filter (\<lambda>c. c = CHR '':'') s)"

text \<open>\<open>str.insert(str.find("::"), 7 - n, ':')\<close>\<close>

fun insert_colons :: "nat \<Rightarrow> string \<Rightarrow> string" where
  "insert_colons k (a # b # s) =
     (if a = CHR '':'' \<and> b = CHR '':'' then replicate k CHR '':'' @ a # b # s else a # insert_colons k (b # s))"
| "insert_colons k s = s"

definition parse_ipv6 :: "string \<Rightarrow> (64 word \<times> 64 word) res" where
  "parse_ipv6 s =
     (if \<not> valid_ipv6 s then Inl Bad_representation
      else let n = colons s; s' = (if n < 7 then insert_colons (7 - n) s else s); ps = split_colon s' in
        if length ps \<noteq> 8 \<or> \<not> list_all (hextet 0) ps then Inl Bad_representation
        else let join = foldl (\<lambda>r p. push_bit 16 r OR ucast (of_nat (number 16 xdigit_val p) :: 16 word)) 0
             in Inr (join (take 4 ps), join (drop 4 ps)))"

definition ipv6_of_numbers :: "64 word \<times> 64 word \<Rightarrow> ipv6addr" where
  "ipv6_of_numbers x = push_bit 64 (ucast (fst x)) OR ucast (snd x)"

definition ipv6_of_string :: "string \<Rightarrow> ipv6addr res" where
  "ipv6_of_string s = rbind (parse_ipv6 s) (\<lambda>x. Inr (ipv6_of_numbers x))"

text \<open>
  \<open>std::bitset<128>::to_ullong\<close> throws when a bit from 64 on is set; \<open>to_number\<close> is
  \<open>noexcept\<close>.
\<close>

definition to_ullong :: "128 word \<Rightarrow> 64 word res" where
  "to_ullong w = (if drop_bit 64 w \<noteq> 0 then Inl Overflow_error else Inr (ucast w))"

definition ipv6_to_number :: "ipv6addr \<Rightarrow> (64 word \<times> 64 word) res" where
  "ipv6_to_number a = noexcept (rbind (to_ullong a) (\<lambda>one. rbind (to_ullong (drop_bit 64 a)) (\<lambda>two. Inr (one, two))))"

definition four_hextets :: "64 word \<Rightarrow> 16 word list" where
  "four_hextets n = [ucast (drop_bit 48 (n AND 0xffff000000000000)), ucast (drop_bit 32 (n AND 0xffff00000000)),
     ucast (drop_bit 16 (n AND 0xffff0000)), ucast (n AND 0xffff)]"

definition ipv6_to_hextets :: "ipv6addr \<Rightarrow> 16 word list res" where
  "ipv6_to_hextets a = rbind (ipv6_to_number a) (\<lambda>(one, two). Inr (four_hextets one @ four_hextets two))"

text \<open>The first octet is shifted by 54 instead of 56.\<close>

definition eight_octets :: "64 word \<Rightarrow> 8 word list" where
  "eight_octets n = [ucast (drop_bit 54 (n AND 0xff00000000000000)), ucast (drop_bit 48 (n AND 0xff000000000000)),
     ucast (drop_bit 40 (n AND 0xff0000000000)), ucast (drop_bit 32 (n AND 0xff00000000)),
     ucast (drop_bit 24 (n AND 0xff000000)), ucast (drop_bit 16 (n AND 0xff0000)),
     ucast (drop_bit 8 (n AND 0xff00)), ucast (n AND 0xff)]"

definition ipv6_to_octets :: "ipv6addr \<Rightarrow> 8 word list res" where
  "ipv6_to_octets a = rbind (ipv6_to_number a) (\<lambda>(one, two). Inr (eight_octets one @ eight_octets two))"

text \<open>Hexadecimal printing without leading zeros (\<open>%x\<close>).\<close>

definition hex_text :: "16 word \<Rightarrow> string" where
  "hex_text w = (let n = unat w; all = map xdigit_char [n div 4096, n div 256 mod 16, n div 16 mod 16, n mod 16]
     in case dropWhile (\<lambda>c. c = CHR ''0'') all of [] \<Rightarrow> ''0'' | s \<Rightarrow> s)"

definition ipv6_print :: "ipv6addr \<Rightarrow> string res" where
  "ipv6_print a = rbind (ipv6_to_hextets a) (\<lambda>hs. Inr (join_with '':'' (map hex_text hs)))"

section \<open>What the IPv6 functions do\<close>

lemma ipv6_number: "ipv6_to_number a = (if drop_bit 64 a \<noteq> 0 then Inl Terminated else Inr (ucast a, 0))"
  by (simp add: ipv6_to_number_def to_ullong_def noexcept_def)

lemma ipv6_of_numbers_high: "drop_bit 64 (ipv6_of_numbers (x, y)) = ucast x"
  by (rule bit_word_eqI) (auto simp: ipv6_of_numbers_def bit_simps dest: bit_imp_le_length)

lemma ipv6_of_numbers_low: "ucast (ipv6_of_numbers (x, y)) = (y :: 64 word)"
  by (rule bit_word_eqI) (auto simp: ipv6_of_numbers_def bit_simps dest: bit_imp_le_length)

text \<open>
  C39: the numbers, hextets and text of an IPv6 address are not those it was built from: with
  anything in its upper half the conversion ends the program, otherwise the halves are exchanged.
\<close>

theorem ipv6_conversion_is_wrong:
  "(x \<noteq> 0 \<longrightarrow> ipv6_to_number (ipv6_of_numbers (x, y)) = Inl Terminated \<and>
      ipv6_print (ipv6_of_numbers (x, y)) = Inl Terminated) \<and>
   (x = 0 \<longrightarrow> ipv6_to_number (ipv6_of_numbers (x, y)) = Inr (y, x) \<and>
      ipv6_to_hextets (ipv6_of_numbers (x, y)) = Inr (four_hextets y @ four_hextets x))"
proof -
  have "(ucast x :: 128 word) = 0 \<longleftrightarrow> x = 0"
    using ucast_back [of x, where 'b = 128] by force
  then show ?thesis
    by (simp add: ipv6_number ipv6_of_numbers_high ipv6_of_numbers_low ipv6_print_def ipv6_to_hextets_def)
qed

theorem ipv6_conversion_is_wrong_witness:
  "ipv6_to_number (ipv6_of_numbers (1, 2)) = Inl Terminated \<and>
   ipv6_to_hextets (ipv6_of_numbers (0, 1)) = Inr [0, 0, 0, 1, 0, 0, 0, 0]"
proof -
  have "four_hextets 1 @ four_hextets 0 = [0, 0, 0, 1, 0, 0, 0, 0]" by code_simp
  then show ?thesis using ipv6_conversion_is_wrong [of 1 2] ipv6_conversion_is_wrong [of 0 1] by simp
qed

text \<open>
  The parser expands the empty group of a short address, but rejects the two forms in which an
  empty group at an end stands for one hextet, although the validating expression and its comments
  list them.
\<close>

lemma ipv6_parser_expands:
  "parse_ipv6 ''1:2:3:4:5:6:7:8'' = Inr (0x1000200030004, 0x5000600070008) \<and>
   parse_ipv6 ''a::1'' = Inr (0xa000000000000, 1) \<and> parse_ipv6 ''::'' = Inr (0, 0) \<and>
   valid_ipv6 ''1:2:3:4:5:6:7::'' \<and> parse_ipv6 ''1:2:3:4:5:6:7::'' = Inl Bad_representation \<and>
   valid_ipv6 ''::2:3:4:5:6:7:8'' \<and> parse_ipv6 ''::2:3:4:5:6:7:8'' = Inl Bad_representation"
  by code_simp

end
