(* ===== verification/Packet_Parser.thy ===== *)
theory Packet_Parser
  imports Tracer
begin

text \<open>
  Packets over a received frame: \<open>PacketParser\<close> of \<^verbatim>\<open>src/PacketParser.cc\<close> with the
  header layouts of \<^verbatim>\<open>src/types/packet_headers.hh\<close>. Parsing binds field ids to places in
  the frame; loading and modifying go through these places. The frames for which the packet is a
  faithful view of its headers are those whose bound places do not overlap.
\<close>

section \<open>Memory\<close>

text \<open>A pointer is a place in the frame or in one of the three numbers of the object.\<close>

datatype region = Frame | In_port_number | Out_port_number | Switch_id_number

type_synonym pointer = "region \<times> nat"

record parser =
  pk_data :: "byte list"
  pk_in_port :: "byte list"
  pk_out_port :: "byte list"
  pk_switch_id :: "byte list"
  ofb_bindings :: "nat \<rightharpoonup> pointer"
  nonof_bindings :: "nat \<rightharpoonup> pointer"

definition buffer :: "parser \<Rightarrow> region \<Rightarrow> byte list" where
  "buffer p r = (case r of Frame \<Rightarrow> pk_data p | In_port_number \<Rightarrow> pk_in_port p
     | Out_port_number \<Rightarrow> pk_out_port p | Switch_id_number \<Rightarrow> pk_switch_id p)"

definition set_buffer :: "parser \<Rightarrow> region \<Rightarrow> byte list \<Rightarrow> parser" where
  "set_buffer p r b = (case r of Frame \<Rightarrow> p\<lparr>pk_data := b\<rparr> | In_port_number \<Rightarrow> p\<lparr>pk_in_port := b\<rparr>
     | Out_port_number \<Rightarrow> p\<lparr>pk_out_port := b\<rparr> | Switch_id_number \<Rightarrow> p\<lparr>pk_switch_id := b\<rparr>)"

text \<open>Big-endian numbers in memory.\<close>

definition big_endian :: "byte list \<Rightarrow> nat" where
  "big_endian bs = foldl (\<lambda>n b. 256 * n + unat b) 0 bs"

definition read_be :: "nat \<Rightarrow> nat \<Rightarrow> byte list \<Rightarrow> nat" where
  "read_be n off data = big_endian (take n (drop off data))"

definition word_bytes :: "'a::len word \<Rightarrow> byte list" where
  "word_bytes w = to_buffer (bits_of_word w)"

section \<open>Bindings\<close>

definition ofb_id :: "basic_match_fields \<Rightarrow> nat" where
  "ofb_id f = unat (ofb_code f)"

definition nonof_id :: "non_openflow_fields \<Rightarrow> nat" where
  "nonof_id f = unat (nonof_code f)"

text \<open>\<open>bind\<close> and \<open>rebind\<close> on an array of \<open>n\<close> pointers.\<close>

definition bind_one :: "nat \<Rightarrow> nat \<times> pointer \<Rightarrow> (nat \<rightharpoonup> pointer) \<Rightarrow> (nat \<rightharpoonup> pointer) res" where
  "bind_one n b m = (if n \<le> fst b then Inl Out_of_range
     else if m (fst b) \<noteq> None then Inl Invalid_argument else Inr (m(fst b \<mapsto> snd b)))"

definition rebind_one :: "nat \<Rightarrow> nat \<times> pointer \<Rightarrow> (nat \<rightharpoonup> pointer) \<Rightarrow> (nat \<rightharpoonup> pointer) res" where
  "rebind_one n b m = (if n \<le> fst b then Inl Out_of_range
     else if m (fst b) = None then Inl Invalid_argument else Inr (m(fst b \<mapsto> snd b)))"

definition bind_ofb :: "(basic_match_fields \<times> nat) list \<Rightarrow> parser \<Rightarrow> parser res" where
  "bind_ofb bs p = rbind (rfold (bind_one 40) (map (\<lambda>(f, off). (ofb_id f, Frame, off)) bs) (ofb_bindings p))
     (\<lambda>m. Inr (p\<lparr>ofb_bindings := m\<rparr>))"

definition bind_in_port :: "parser \<Rightarrow> parser res" where
  "bind_in_port p = rbind (bind_one 40 (ofb_id IN_PORT, In_port_number, 0) (ofb_bindings p))
     (\<lambda>m. Inr (p\<lparr>ofb_bindings := m\<rparr>))"

definition bind_nonof :: "non_openflow_fields \<Rightarrow> region \<Rightarrow> parser \<Rightarrow> parser res" where
  "bind_nonof f r p = rbind (bind_one 20 (nonof_id f, r, 0) (nonof_bindings p))
     (\<lambda>m. Inr (p\<lparr>nonof_bindings := m\<rparr>))"

section \<open>Parsing\<close>

text \<open>The pointer into the frame is its offset \<open>at\<close>; \<open>len\<close> is what is left of the frame.\<close>

definition parse_l4 :: "nat \<Rightarrow> nat \<Rightarrow> nat \<Rightarrow> parser \<Rightarrow> parser res" where
  "parse_l4 protocol at len p =
     (if protocol = 0x06 then
        (if 20 \<le> len then bind_ofb [(TCP_SRC, at), (TCP_DST, at + 2)] p else Inr p)
      else if protocol = 0x11 then
        (if 8 \<le> len then bind_ofb [(UDP_SRC, at), (UDP_DST, at + 2)] p else Inr p)
      else if protocol = 0x01 then
        (if 4 \<le> len then bind_ofb [(ICMPV4_TYPE, at), (ICMPV4_CODE, at + 1)] p else Inr p)
      else Inr p)"

definition ipv4_header_length :: "byte list \<Rightarrow> nat \<Rightarrow> nat" where
  "ipv4_header_length data at = read_be 1 at data mod 16 * 4"

definition parse_ipv4_header :: "nat \<Rightarrow> nat \<Rightarrow> parser \<Rightarrow> parser res" where
  "parse_ipv4_header at len p =
     (if 20 \<le> len then
        rbind (bind_ofb [(IP_PROTO, at + 9), (IPV4_SRC, at + 12), (IPV4_DST, at + 16)] p) (\<lambda>p1.
          let h = ipv4_header_length (pk_data p) at in
          if h < len then parse_l4 (read_be 1 (at + 9) (pk_data p)) (at + h) (len - h) p1 else Inr p1)
      else Inr p)"

definition parse_arp :: "nat \<Rightarrow> nat \<Rightarrow> parser \<Rightarrow> parser res" where
  "parse_arp at len p =
     (if 28 \<le> len \<and> read_be 2 at (pk_data p) = 1 \<and> read_be 2 (at + 2) (pk_data p) = 0x0800 \<and>
         read_be 1 (at + 4) (pk_data p) = 6 \<and> read_be 1 (at + 5) (pk_data p) = 4
      then bind_ofb [(ARP_OP, at + 6), (ARP_SHA, at + 8), (ARP_THA, at + 18), (ARP_SPA, at + 14), (ARP_TPA, at + 24)] p
      else Inr p)"

text \<open>The length of the IPv6 header is asked of the checked pointer also when no header fits.\<close>

definition parse_ipv6_header :: "nat \<Rightarrow> nat \<Rightarrow> parser \<Rightarrow> parser res" where
  "parse_ipv6_header at len p =
     (if \<not> 40 \<le> len then Inl Nullptr_dereference
      else rbind (bind_ofb [(IPV6_SRC, at + 8), (IPV6_DST, at + 24), (IP_PROTO, at + 6)] p) (\<lambda>p1.
        if 40 < len then parse_l4 (read_be 1 (at + 6) (pk_data p)) (at + 40) (len - 40) p1 else Inr p1))"

definition parse_l3 :: "nat \<Rightarrow> nat \<Rightarrow> nat \<Rightarrow> parser \<Rightarrow> parser res" where
  "parse_l3 eth_type at len p =
     (if eth_type = 0x0800 then parse_ipv4_header at len p
      else if eth_type = 0x0806 then parse_arp at len p
      else if eth_type = 0x86dd then parse_ipv6_header at len p
      else Inr p)"

definition parse_l2 :: "parser \<Rightarrow> parser res" where
  "parse_l2 p = (let data = pk_data p; n = length data in
     if 14 \<le> n then
       (if read_be 2 12 data = 0x8100 then
          (if 18 \<le> n then
             rbind (bind_ofb [(ETH_TYPE, 16), (ETH_SRC, 6), (ETH_DST, 0), (VLAN_VID, 14)] p) (\<lambda>p1.
               parse_l3 (read_be 2 16 data) 18 (n - 18) p1)
           else parse_l3 0 0 n p)
        else
          rbind (bind_ofb [(ETH_TYPE, 12), (ETH_SRC, 6), (ETH_DST, 0)] p) (\<lambda>p1.
            parse_l3 (read_be 2 12 data) 14 (n - 14) p1))
     else Inr p)"

definition packet_parser :: "byte list \<Rightarrow> 32 word \<Rightarrow> 64 word \<Rightarrow> 32 word \<Rightarrow> parser res" where
  "packet_parser data in_port dpid out =
     rbind (bind_in_port \<lparr>pk_data = data, pk_in_port = word_bytes in_port, pk_out_port = word_bytes out,
         pk_switch_id = word_bytes dpid, ofb_bindings = Map.empty, nonof_bindings = Map.empty\<rparr>) (\<lambda>p1.
     rbind (bind_nonof SWITCH_ID Switch_id_number p1) (\<lambda>p2.
     rbind (bind_nonof OUT_PORT Out_port_number p2) parse_l2))"

section \<open>Access\<close>

definition access :: "parser \<Rightarrow> oxm_type \<Rightarrow> pointer res" where
  "access p t = (let id = unat (ty_id t) in
     if ty_ns t = ns_code OPENFLOW_BASIC then
       (if 40 \<le> id then Inl Out_of_range
        else case ofb_bindings p id of None \<Rightarrow> Inl Out_of_range | Some ptr \<Rightarrow> Inr ptr)
     else if ty_ns t = ns_code NON_OPENFLOW then
       (if 20 \<le> id then Inl Out_of_range
        else case nonof_bindings p id of None \<Rightarrow> Inl Out_of_range | Some ptr \<Rightarrow> Inr ptr)
     else Inl Out_of_range)"

definition byte_before :: "parser \<Rightarrow> pointer \<Rightarrow> byte" where
  "byte_before p ptr = (if snd ptr = 0 then 0 else buffer p (fst ptr) ! (snd ptr - 1))"

definition read_bits :: "parser \<Rightarrow> nat \<Rightarrow> pointer \<Rightarrow> bits" where
  "read_bits p n ptr = from_buffer n (byte_before p ptr) (drop (snd ptr) (buffer p (fst ptr)))"

definition write_bits :: "parser \<Rightarrow> pointer \<Rightarrow> bits \<Rightarrow> parser" where
  "write_bits p ptr b = (let old = buffer p (fst ptr); new = to_buffer b in
     set_buffer p (fst ptr) (take (snd ptr) old @ new @ drop (snd ptr + length new) old))"

definition pk_load :: "parser \<Rightarrow> oxm_mask \<Rightarrow> oxm_field res" where
  "pk_load p m = rbind (access p (m_type m)) (\<lambda>ptr.
     rbind (value_ctor (m_type m) (read_bits p (nbits (m_type m)) ptr)) (\<lambda>v. value_and_mask v m))"

definition pk_modify :: "parser \<Rightarrow> oxm_field \<Rightarrow> parser res" where
  "pk_modify p patch =
     rbind (pk_load p (exact_mask (f_type patch))) (\<lambda>f.
     rbind (field_rewrite f patch) (\<lambda>updated.
     rbind (access p (f_type patch)) (\<lambda>ptr. Inr (write_bits p ptr (f_value updated)))))"

definition serialize_to :: "parser \<Rightarrow> nat \<Rightarrow> byte list" where
  "serialize_to p buffer_size = take (min (length (pk_data p)) buffer_size) (pk_data p)"

text \<open>\<open>clone\<close> parses the frame again, as it is now.\<close>

definition pk_clone :: "parser \<Rightarrow> parser res" where
  "pk_clone p = packet_parser (pk_data p) (word_of_bits (from_buffer 32 0 (pk_in_port p)))
     (word_of_bits (from_buffer 64 0 (pk_switch_id p))) (word_of_bits (from_buffer 32 0 (pk_out_port p)))"

end
