(* ===== verification/Packet_Layout.thy ===== *)
theory Packet_Layout
  imports Packet_Parser
begin

text \<open>
  Where the parser of \<^verbatim>\<open>src/PacketParser.cc\<close> binds the fields: parsing succeeds on every frame but
  one kind, binds no field twice and none outside the frame.
\<close>

section \<open>Ids and widths\<close>

definition ofb_bytes :: "nat \<Rightarrow> nat" where
  "ofb_bytes i = (case find (\<lambda>t. ty_ns t = ns_code OPENFLOW_BASIC \<and> unat (ty_id t) = i) known_types of
     Some t \<Rightarrow> nbytes t | None \<Rightarrow> 0)"

lemma ofb_id_simps [simp]:
  "ofb_id IN_PORT = 0" "ofb_id ETH_DST = 3" "ofb_id ETH_SRC = 4" "ofb_id ETH_TYPE = 5" "ofb_id VLAN_VID = 6"
  "ofb_id IP_PROTO = 10" "ofb_id IPV4_SRC = 11" "ofb_id IPV4_DST = 12" "ofb_id TCP_SRC = 13" "ofb_id TCP_DST = 14"
  "ofb_id UDP_SRC = 15" "ofb_id UDP_DST = 16" "ofb_id ICMPV4_TYPE = 19" "ofb_id ICMPV4_CODE = 20" "ofb_id ARP_OP = 21"
  "ofb_id ARP_SPA = 22" "ofb_id ARP_TPA = 23" "ofb_id ARP_SHA = 24" "ofb_id ARP_THA = 25" "ofb_id IPV6_SRC = 26"
  "ofb_id IPV6_DST = 27"
  by (simp_all add: ofb_id_def)

lemma ofb_bytes_simps:
  "ofb_bytes 0 = 4" "ofb_bytes 3 = 6" "ofb_bytes 4 = 6" "ofb_bytes 5 = 2" "ofb_bytes 6 = 2" "ofb_bytes 10 = 1"
  "ofb_bytes 11 = 4" "ofb_bytes 12 = 4" "ofb_bytes 13 = 2" "ofb_bytes 14 = 2" "ofb_bytes 15 = 2" "ofb_bytes 16 = 2"
  "ofb_bytes 19 = 1" "ofb_bytes 20 = 1" "ofb_bytes 21 = 2" "ofb_bytes 22 = 4" "ofb_bytes 23 = 4" "ofb_bytes 24 = 6"
  "ofb_bytes 25 = 6" "ofb_bytes 26 = 16" "ofb_bytes 27 = 16"
  by code_simp+

text \<open>The parser with these ids unbound and every binding inside its region.\<close>

definition unbound :: "nat set \<Rightarrow> parser \<Rightarrow> bool" where
  "unbound ids p = (\<forall>i \<in> ids. ofb_bindings p i = None)"

definition inside :: "parser \<Rightarrow> bool" where
  "inside p = (\<forall>i ptr. ofb_bindings p i = Some ptr \<longrightarrow> snd ptr + ofb_bytes i \<le> length (buffer p (fst ptr)))"

lemma bind_one_free: "i < n \<Longrightarrow> m i = None \<Longrightarrow> bind_one n (i, ptr) m = Inr (m(i \<mapsto> ptr))"
  by (simp add: bind_one_def)

lemma rfold_bind_one:
  "distinct (map fst bs) \<Longrightarrow> \<forall>b \<in> set bs. fst b < n \<and> m (fst b) = None \<Longrightarrow>
    rfold (bind_one n) bs m = Inr (m ++ map_of bs)"
proof (induction bs arbitrary: m)
  case (Cons b bs)
  obtain i ptr where b: "b = (i, ptr)" by (cases b)
  have "rfold (bind_one n) bs (m(i \<mapsto> ptr)) = Inr (m(i \<mapsto> ptr) ++ map_of bs)"
    by (rule Cons.IH) (use Cons.prems in \<open>auto simp: b image_iff\<close>)
  moreover have "i \<notin> dom (map_of bs)" using Cons.prems by (simp add: b dom_map_of_conv_image_fst)
  then have "m(i \<mapsto> ptr) ++ map_of bs = m ++ map_of (b # bs)"
    by (intro ext) (auto simp: b map_add_def domIff split: option.split)
  ultimately show ?case using Cons.prems by (simp add: b bind_one_free del: map_of.simps)
qed simp

text \<open>The parser \<open>p\<close> with more ids bound, all of them inside.\<close>

definition binds :: "nat set \<Rightarrow> parser \<Rightarrow> parser res \<Rightarrow> bool" where
  "binds ids p r = (\<exists>m. r = Inr (p\<lparr>ofb_bindings := m\<rparr>) \<and> inside (p\<lparr>ofb_bindings := m\<rparr>) \<and>
     dom m \<subseteq> dom (ofb_bindings p) \<union> ids)"

lemma bindsI:
  "r = Inr (p\<lparr>ofb_bindings := m\<rparr>) \<Longrightarrow> inside (p\<lparr>ofb_bindings := m\<rparr>) \<Longrightarrow>
    dom m \<subseteq> dom (ofb_bindings p) \<union> ids \<Longrightarrow> binds ids p r"
  by (auto simp: binds_def)

lemma binds_refl: "inside p \<Longrightarrow> binds ids p (Inr p)"
  by (auto simp: binds_def intro!: exI [of _ "ofb_bindings p"])

lemma binds_ofb:
  assumes "distinct (map (ofb_id \<circ> fst) bs)" "set (map (ofb_id \<circ> fst) bs) \<subseteq> ids" "unbound ids p" "inside p"
    and "list_all (\<lambda>(f, off). off + ofb_bytes (ofb_id f) \<le> length (pk_data p) \<and> ofb_id f < 40) bs"
  shows "binds ids p (bind_ofb bs p)"
proof -
  let ?bs = "map (\<lambda>(f, off). (ofb_id f, Frame, off)) bs"
  let ?m = "ofb_bindings p ++ map_of ?bs"
  have ids: "map fst ?bs = map (ofb_id \<circ> fst) bs" by auto
  have r: "rfold (bind_one 40) ?bs (ofb_bindings p) = Inr ?m"
  proof (rule rfold_bind_one)
    show "distinct (map fst ?bs)" using assms(1) unfolding ids .
    show "\<forall>b \<in> set ?bs. fst b < 40 \<and> ofb_bindings p (fst b) = None"
      using assms(2,3,5) by (fastforce simp: unbound_def list_all_iff)
  qed
  have "inside (p\<lparr>ofb_bindings := ?m\<rparr>)"
    using assms(4,5)
    by (fastforce simp: inside_def buffer_def map_add_Some_iff list_all_iff dest!: map_of_SomeD split: region.splits)
  moreover have "dom ?m \<subseteq> dom (ofb_bindings p) \<union> ids"
    using assms(2) unfolding dom_map_add dom_map_of_conv_image_fst set_map [symmetric] ids by blast
  ultimately show ?thesis by (intro bindsI [where m = ?m]) (simp_all only: bind_ofb_def r rbind_simps)
qed

lemma binds_seq:
  assumes "binds A p r" "\<And>q. pk_data q = pk_data p \<Longrightarrow> inside q \<Longrightarrow> unbound B q \<Longrightarrow> binds B q (f q)"
    and "unbound B p" "A \<inter> B = {}"
  shows "binds (A \<union> B) p (rbind r f)"
proof -
  obtain m where m: "r = Inr (p\<lparr>ofb_bindings := m\<rparr>)" "inside (p\<lparr>ofb_bindings := m\<rparr>)"
    "dom m \<subseteq> dom (ofb_bindings p) \<union> A" using assms(1) by (auto simp: binds_def)
  moreover have "unbound B (p\<lparr>ofb_bindings := m\<rparr>)"
    using m(3) assms(3,4) by (fastforce simp: unbound_def)
  ultimately have "binds B (p\<lparr>ofb_bindings := m\<rparr>) (f (p\<lparr>ofb_bindings := m\<rparr>))" using assms(2) by simp
  then obtain m' where "f (p\<lparr>ofb_bindings := m\<rparr>) = Inr (p\<lparr>ofb_bindings := m'\<rparr>)"
    "inside (p\<lparr>ofb_bindings := m'\<rparr>)" "dom m' \<subseteq> dom m \<union> B"
    by (auto simp: binds_def)
  moreover from this m(3) have "dom m' \<subseteq> dom (ofb_bindings p) \<union> (A \<union> B)" by blast
  ultimately show ?thesis using m(1) by (intro bindsI [where m = m']) simp_all
qed

lemma binds_mono: "binds A p r \<Longrightarrow> A \<subseteq> B \<Longrightarrow> binds B p r"
  by (fastforce simp: binds_def)

lemma unbound_mono: "unbound B p \<Longrightarrow> A \<subseteq> B \<Longrightarrow> unbound A p"
  by (auto simp: unbound_def)

definition "l4_ids = {13, 14, 15, 16, 19, 20 :: nat}"
definition "l3_ids = {10, 11, 12, 21, 22, 23, 24, 25, 26, 27 :: nat}"
definition "l2_ids = {3, 4, 5, 6 :: nat}"

lemma layers_disjoint: "l3_ids \<inter> l4_ids = {}" "l2_ids \<inter> (l3_ids \<union> l4_ids) = {}"
  by (simp_all add: l4_ids_def l3_ids_def l2_ids_def)

lemma binds_l4: "inside p \<Longrightarrow> unbound l4_ids p \<Longrightarrow> at + len \<le> length (pk_data p) \<Longrightarrow>
    binds l4_ids p (parse_l4 protocol at len p)"
  unfolding parse_l4_def by (auto intro!: binds_ofb binds_refl simp: ofb_bytes_simps l4_ids_def)

lemma binds_l4_after:
  assumes "inside p" "unbound (l3_ids \<union> l4_ids) p" "binds l3_ids p r" "at + len \<le> length (pk_data p)"
  shows "binds (l3_ids \<union> l4_ids) p (rbind r (\<lambda>q. if c then parse_l4 protocol at len q else Inr q))"
  by (rule binds_seq [OF assms(3) _ unbound_mono [OF assms(2)] layers_disjoint(1)])
    (use assms(4) in \<open>auto intro: binds_l4 binds_refl\<close>)

lemma binds_l3_ofb:
  assumes "distinct (map (ofb_id \<circ> fst) bs)" "set (map (ofb_id \<circ> fst) bs) \<subseteq> l3_ids"
    and "unbound (l3_ids \<union> l4_ids) p" "inside p"
    and "list_all (\<lambda>(f, off). off + ofb_bytes (ofb_id f) \<le> length (pk_data p) \<and> ofb_id f < 40) bs"
  shows "binds l3_ids p (bind_ofb bs p)"
  by (rule binds_ofb [OF assms(1,2) unbound_mono [OF assms(3)] assms(4,5)]) auto

lemma binds_ipv4:
  assumes "inside p" "unbound (l3_ids \<union> l4_ids) p" "at + len \<le> length (pk_data p)"
  shows "binds (l3_ids \<union> l4_ids) p (parse_ipv4_header at len p)"
proof (cases "20 \<le> len")
  case True
  let ?h = "ipv4_header_length (pk_data p) at"
  have "binds l3_ids p (bind_ofb [(IP_PROTO, at + 9), (IPV4_SRC, at + 12), (IPV4_DST, at + 16)] p)"
    by (rule binds_l3_ofb) (use assms True in \<open>auto simp: ofb_bytes_simps l3_ids_def\<close>)
  then have "?h < len \<Longrightarrow> ?thesis" "\<not> ?h < len \<Longrightarrow> ?thesis"
    using True assms binds_l4_after [OF assms(1,2), of _ "at + ?h" "len - ?h" True]
      binds_l4_after [OF assms(1,2), of _ 0 0 False]
    by (simp_all add: parse_ipv4_header_def Let_def)
  then show ?thesis by blast
qed (simp add: parse_ipv4_header_def binds_refl assms)

lemma binds_arp:
  assumes "inside p" "unbound (l3_ids \<union> l4_ids) p" "at + len \<le> length (pk_data p)"
  shows "binds (l3_ids \<union> l4_ids) p (parse_arp at len p)"
proof -
  have "binds l3_ids p (parse_arp at len p)"
    using assms binds_l3_ofb [OF _ _ assms(2,1)] binds_refl [OF assms(1)]
    by (simp add: parse_arp_def ofb_bytes_simps l3_ids_def)
  then show ?thesis by (rule binds_mono) auto
qed

lemma binds_ipv6:
  assumes "inside p" "unbound (l3_ids \<union> l4_ids) p" "at + len \<le> length (pk_data p)" "40 \<le> len"
  shows "binds (l3_ids \<union> l4_ids) p (parse_ipv6_header at len p)"
proof -
  have "binds l3_ids p (bind_ofb [(IPV6_SRC, at + 8), (IPV6_DST, at + 24), (IP_PROTO, at + 6)] p)"
    by (rule binds_l3_ofb) (use assms in \<open>auto simp: ofb_bytes_simps l3_ids_def\<close>)
  from binds_l4_after [OF assms(1,2) this, of "at + 40" "len - 40" "40 < len"] assms
  show ?thesis by (simp add: parse_ipv6_header_def)
qed

lemma binds_l3:
  assumes "inside p" "unbound (l3_ids \<union> l4_ids) p" "at + len \<le> length (pk_data p)" "eth_type = 0x86dd \<longrightarrow> 40 \<le> len"
  shows "binds (l3_ids \<union> l4_ids) p (parse_l3 eth_type at len p)"
  using assms by (auto simp: parse_l3_def intro: binds_ipv4 binds_arp binds_ipv6 binds_refl)

text \<open>A frame that claims to carry IPv6 with fewer than 40 bytes left.\<close>

definition short_ipv6 :: "byte list \<Rightarrow> bool" where
  "short_ipv6 data = (let n = length data in 14 \<le> n \<and>
     (if read_be 2 12 data = 0x8100 then 18 \<le> n \<and> read_be 2 16 data = 0x86dd \<and> n < 58
      else read_be 2 12 data = 0x86dd \<and> n < 54))"

lemma binds_l2_l3:
  assumes "inside p" "unbound (l2_ids \<union> (l3_ids \<union> l4_ids)) p"
    and "distinct (map (ofb_id \<circ> fst) bs)" "set (map (ofb_id \<circ> fst) bs) \<subseteq> l2_ids"
    and "list_all (\<lambda>(f, off). off + ofb_bytes (ofb_id f) \<le> length (pk_data p) \<and> ofb_id f < 40) bs"
    and "at + len \<le> length (pk_data p)"
  shows "binds (l2_ids \<union> (l3_ids \<union> l4_ids)) p
    (rbind (bind_ofb bs p) (\<lambda>q. parse_l3 eth_type at len q)) \<or> eth_type = 0x86dd \<and> len < 40"
proof (cases "eth_type = 0x86dd \<and> len < 40")
  case False
  have "binds l2_ids p (bind_ofb bs p)"
    by (rule binds_ofb [OF assms(3,4) unbound_mono [OF assms(2)] assms(1,5)]) blast
  then have "binds (l2_ids \<union> (l3_ids \<union> l4_ids)) p (rbind (bind_ofb bs p) (\<lambda>q. parse_l3 eth_type at len q))"
    by (rule binds_seq [OF _ _ unbound_mono [OF assms(2)] layers_disjoint(2)])
      (use False assms(6) in \<open>auto intro: binds_l3\<close>)
  then show ?thesis ..
qed simp

lemma l3_short:
  "bind_ofb bs p = Inr q \<Longrightarrow> len < 40 \<Longrightarrow> rbind (bind_ofb bs p) (parse_l3 0x86dd at len) = Inl Nullptr_dereference"
  by (simp add: parse_l3_def parse_ipv6_header_def)

lemma bind_l2_total:
  assumes "inside p" "unbound (l2_ids \<union> (l3_ids \<union> l4_ids)) p"
    and "distinct (map (ofb_id \<circ> fst) bs)" "set (map (ofb_id \<circ> fst) bs) \<subseteq> l2_ids"
    and "list_all (\<lambda>(f, off). off + ofb_bytes (ofb_id f) \<le> length (pk_data p) \<and> ofb_id f < 40) bs"
  shows "\<exists>q. bind_ofb bs p = Inr q"
  using binds_ofb [OF assms(3,4) unbound_mono [OF assms(2)] assms(1,5)] by (auto simp: binds_def)

lemma parse_l2_cases:
  assumes "inside p" "unbound (l2_ids \<union> (l3_ids \<union> l4_ids)) p"
  shows "if short_ipv6 (pk_data p) then parse_l2 p = Inl Nullptr_dereference
    else binds (l2_ids \<union> (l3_ids \<union> l4_ids)) p (parse_l2 p)"
proof -
  let ?d = "pk_data p" and ?n = "length (pk_data p)"
  let ?v = "[(ETH_TYPE, 16), (ETH_SRC, 6), (ETH_DST, 0), (VLAN_VID, 14)]"
  let ?u = "[(ETH_TYPE, 12), (ETH_SRC, 6), (ETH_DST, 0)]"
  consider "\<not> 14 \<le> ?n" | (short) "14 \<le> ?n" "read_be 2 12 ?d = 0x8100" "\<not> 18 \<le> ?n"
    | (vlan) "18 \<le> ?n" "read_be 2 12 ?d = 0x8100" | (untagged) "14 \<le> ?n" "read_be 2 12 ?d \<noteq> 0x8100"
    by linarith
  then show ?thesis
  proof cases
    case vlan
    have a: "distinct (map (ofb_id \<circ> fst) ?v)" "set (map (ofb_id \<circ> fst) ?v) \<subseteq> l2_ids"
      "list_all (\<lambda>(f, off). off + ofb_bytes (ofb_id f) \<le> length ?d \<and> ofb_id f < 40) ?v"
      using vlan by (simp_all add: ofb_bytes_simps l2_ids_def)
    show ?thesis
      using binds_l2_l3 [OF assms a, of 18 "?n - 18" "read_be 2 16 ?d"] bind_l2_total [OF assms a] vlan l3_short
      by (auto simp: short_ipv6_def parse_l2_def Let_def)
  next
    case untagged
    have a: "distinct (map (ofb_id \<circ> fst) ?u)" "set (map (ofb_id \<circ> fst) ?u) \<subseteq> l2_ids"
      "list_all (\<lambda>(f, off). off + ofb_bytes (ofb_id f) \<le> length ?d \<and> ofb_id f < 40) ?u"
      using untagged by (simp_all add: ofb_bytes_simps l2_ids_def)
    show ?thesis
      using binds_l2_l3 [OF assms a, of 14 "?n - 14" "read_be 2 12 ?d"] bind_l2_total [OF assms a] untagged l3_short
      by (auto simp: short_ipv6_def parse_l2_def Let_def)
  qed (simp_all add: parse_l2_def short_ipv6_def Let_def binds_refl assms parse_l3_def)
qed

definition parser_init :: "byte list \<Rightarrow> 32 word \<Rightarrow> 64 word \<Rightarrow> 32 word \<Rightarrow> parser" where
  "parser_init data in_port dpid out = \<lparr>pk_data = data, pk_in_port = word_bytes in_port, pk_out_port = word_bytes out,
     pk_switch_id = word_bytes dpid, ofb_bindings = [0 \<mapsto> (In_port_number, 0)],
     nonof_bindings = [1 \<mapsto> (Switch_id_number, 0), 2 \<mapsto> (Out_port_number, 0)]\<rparr>"

lemma pk_data_init [simp]: "pk_data (parser_init data i d out) = data"
  by (simp add: parser_init_def)

lemma packet_parser_init: "packet_parser data i d out = parse_l2 (parser_init data i d out)"
  by (simp add: packet_parser_def bind_in_port_def bind_nonof_def bind_one_def parser_init_def nonof_id_def
      fun_upd_twist)

lemma word_bytes_length: "length (word_bytes (w :: 'a::len word)) = num_blocks LENGTH('a)"
  by (simp add: word_bytes_def to_buffer_def blocks_length bits_of_word_def)

lemma parser_init_inside: "inside (parser_init data i d out)"
  by (simp add: inside_def parser_init_def buffer_def ofb_bytes_simps word_bytes_length num_blocks_def)

lemma parser_init_unbound: "unbound (l2_ids \<union> (l3_ids \<union> l4_ids)) (parser_init data i d out)"
  by (simp add: unbound_def parser_init_def l2_ids_def l3_ids_def l4_ids_def)

lemma packet_parser_cases:
  "if short_ipv6 data then packet_parser data i d out = Inl Nullptr_dereference
   else binds (l2_ids \<union> (l3_ids \<union> l4_ids)) (parser_init data i d out) (packet_parser data i d out)"
  using parse_l2_cases [OF parser_init_inside parser_init_unbound, of data i d out]
  by (simp add: packet_parser_init)

definition bound_inside :: "parser \<Rightarrow> bool" where
  "bound_inside p = list_all (\<lambda>t. case access p t of Inl e \<Rightarrow> True
     | Inr ptr \<Rightarrow> snd ptr + nbytes t \<le> length (buffer p (fst ptr))) known_types"

lemma known_type_cases:
  "t \<in> set known_types \<Longrightarrow> ty_ns t = ns_code OPENFLOW_BASIC \<Longrightarrow> ofb_bytes (unat (ty_id t)) = nbytes t"
  "t \<in> set known_types \<Longrightarrow> ty_ns t = ns_code OPENFLOW_BASIC \<or> t = ofb_switch_id \<or> t = ofb_out_port"
proof -
  have "list_all (\<lambda>t. (ty_ns t = ns_code OPENFLOW_BASIC \<longrightarrow> ofb_bytes (unat (ty_id t)) = nbytes t) \<and>
    (ty_ns t = ns_code OPENFLOW_BASIC \<or> t = ofb_switch_id \<or> t = ofb_out_port)) known_types" by code_simp
  then show "t \<in> set known_types \<Longrightarrow> ty_ns t = ns_code OPENFLOW_BASIC \<Longrightarrow> ofb_bytes (unat (ty_id t)) = nbytes t"
    "t \<in> set known_types \<Longrightarrow> ty_ns t = ns_code OPENFLOW_BASIC \<or> t = ofb_switch_id \<or> t = ofb_out_port"
    by (auto simp: list_all_iff)
qed

lemma nonof_types:
  "nbytes ofb_switch_id = 8" "nbytes ofb_out_port = 4"
  "ty_ns ofb_switch_id = ns_code NON_OPENFLOW" "ty_ns ofb_out_port = ns_code NON_OPENFLOW"
  "unat (ty_id ofb_switch_id) = 1" "unat (ty_id ofb_out_port) = 2"
  "ns_code NON_OPENFLOW \<noteq> ns_code OPENFLOW_BASIC"
  by code_simp+

text \<open>
  C36: parsing a frame fails in one case only, and no place outside the frame is bound. The constructor throws exactly
  on a frame that claims to carry IPv6 with fewer than 40 bytes left, by asking the header it did not find for its
  length; every other frame, of any length and content, is parsed, and each known field is then either unbound or bound
  to as many bytes as it has, inside the frame or inside the numbers of the object.
\<close>

theorem parser_stays_inside:
  "case packet_parser data in_port dpid out of
     Inl e \<Rightarrow> e = Nullptr_dereference \<and> short_ipv6 data
   | Inr p \<Rightarrow> \<not> short_ipv6 data \<and> pk_data p = data \<and> bound_inside p"
proof (cases "short_ipv6 data")
  case True
  then show ?thesis using packet_parser_cases [of data in_port dpid out] by simp
next
  case False
  let ?p = "parser_init data in_port dpid out"
  obtain m where m: "packet_parser data in_port dpid out = Inr (?p\<lparr>ofb_bindings := m\<rparr>)" "inside (?p\<lparr>ofb_bindings := m\<rparr>)"
    using False packet_parser_cases [of data in_port dpid out] by (auto simp: binds_def)
  have "case access (?p\<lparr>ofb_bindings := m\<rparr>) t of Inl e \<Rightarrow> True
     | Inr ptr \<Rightarrow> snd ptr + nbytes t \<le> length (buffer (?p\<lparr>ofb_bindings := m\<rparr>) (fst ptr))"
    if t: "t \<in> set known_types" for t
  proof (cases "ty_ns t = ns_code OPENFLOW_BASIC")
    case True
    have "m (unat (ty_id t)) = Some ptr \<Longrightarrow> snd ptr + nbytes t \<le> length (buffer (?p\<lparr>ofb_bindings := m\<rparr>) (fst ptr))" for ptr
      using m(2) known_type_cases(1) [OF t True] unfolding inside_def by fastforce
    with True show ?thesis by (simp add: access_def Let_def split: option.split)
  next
    case False
    then show ?thesis using known_type_cases(2) [OF t]
      by (auto simp: access_def nonof_types parser_init_def buffer_def word_bytes_length num_blocks_def)
  qed
  then have "bound_inside (?p\<lparr>ofb_bindings := m\<rparr>)" by (simp add: bound_inside_def list_all_iff)
  with m(1) False show ?thesis by (simp add: parser_init_def)
qed

end
