(* ===== verification/Packet_View.thy ===== *)
theory Packet_View
  imports Packet_Layout
begin

text \<open>
  A parsed frame as a packet: loads and rewrites through the bindings of
  \<^verbatim>\<open>src/PacketParser.cc\<close> are those of a packet (\<open>packet_view\<close>) for the fields of whole
  bytes, because their places do not overlap; what tracing shows then holds of real frames.
\<close>

section \<open>Reading and writing\<close>

text \<open>A field of whole bytes is what its bytes hold, whatever lies before them.\<close>

lemma concat_bytes_length: "length (concat (map byte_bits ws)) = 8 * length ws"
  by (induction ws) auto

lemma from_buffer_piece:
  assumes "8 dvd n" "n div 8 \<le> length buf"
  shows "from_buffer n prev buf = concat (map byte_bits (rev (take (n div 8) buf)))"
proof -
  have "num_blocks n = n div 8" using assms(1) by (simp add: num_blocks_def)
  moreover have "length (concat (map byte_bits (rev (take (n div 8) buf)))) = n"
    using assms unfolding concat_bytes_length by simp
  ultimately show ?thesis by (simp add: from_buffer_def)
qed

definition width :: "oxm_type \<Rightarrow> nat" where "width t = nbits t div 8"

definition place :: "parser \<Rightarrow> oxm_type \<Rightarrow> pointer" where
  "place p t = (case access p t of Inl e \<Rightarrow> (Frame, 0) | Inr ptr \<Rightarrow> ptr)"

definition apart :: "pointer \<Rightarrow> nat \<Rightarrow> pointer \<Rightarrow> nat \<Rightarrow> bool" where
  "apart a n b k = (fst a \<noteq> fst b \<or> snd a + n \<le> snd b \<or> snd b + k \<le> snd a)"

text \<open>The fields of \<open>T\<close> are bound to places of whole bytes inside the buffers, no two overlapping.\<close>

definition clear_view :: "oxm_type set \<Rightarrow> parser \<Rightarrow> bool" where
  "clear_view T p = (\<forall>t \<in> T. returns (access p t) \<and> 8 dvd nbits t \<and>
     snd (place p t) + width t \<le> length (buffer p (fst (place p t))) \<and>
     (\<forall>u \<in> T. t \<noteq> u \<longrightarrow> apart (place p t) (width t) (place p u) (width u)))"

definition pk_val :: "parser \<Rightarrow> oxm_type \<Rightarrow> oxm_field" where
  "pk_val p t = \<lparr>f_type = t, f_value = read_bits p (nbits t) (place p t), f_mask = bits_set (bits_zero (nbits t))\<rparr>"

definition pk_ld :: "parser \<Rightarrow> oxm_mask \<Rightarrow> oxm_field" where
  "pk_ld p m = (case pk_load p m of Inl e \<Rightarrow> wildcard_field (m_type m) | Inr f \<Rightarrow> f)"

definition pk_md :: "parser \<Rightarrow> oxm_field \<Rightarrow> parser" where
  "pk_md p f = (case pk_modify p f of Inl e \<Rightarrow> p | Inr q \<Rightarrow> q)"

lemma clear_viewD:
  assumes "clear_view T p" "t \<in> T"
  shows "access p t = Inr (place p t)" "8 dvd nbits t" "snd (place p t) + width t \<le> length (buffer p (fst (place p t)))"
    "u \<in> T \<Longrightarrow> t \<noteq> u \<Longrightarrow> apart (place p t) (width t) (place p u) (width u)"
  using assms by (auto simp: clear_view_def place_def split: sum.splits)

lemma clear_view_mono: "clear_view T p \<Longrightarrow> S \<subseteq> T \<Longrightarrow> clear_view S p"
  unfolding clear_view_def by blast

lemma read_bits_eq:
  assumes "clear_view T p" "t \<in> T"
  shows "read_bits p (nbits t) (place p t) =
    concat (map byte_bits (rev (take (width t) (drop (snd (place p t)) (buffer p (fst (place p t)))))))"
  using clear_viewD(2,3) [OF assms] unfolding read_bits_def width_def by (subst from_buffer_piece) auto

lemma read_bits_length: "clear_view T p \<Longrightarrow> t \<in> T \<Longrightarrow> length (read_bits p (nbits t) (place p t)) = nbits t"
  using clear_viewD(2,3) [of T p t] by (simp add: read_bits_eq concat_bytes_length width_def)

lemma pk_val_exact: "clear_view T p \<Longrightarrow> t \<in> T \<Longrightarrow> wf_exact (pk_val p t)"
  using read_bits_length [of T p t] by (auto simp: wf_exact_def exact_def pk_val_def bits_simps intro!: wf_fieldI)

lemma and_mask_exact_mask: "wf_exact f \<Longrightarrow> and_mask f (exact_mask (f_type f)) = f"
  using and_mask_exact [of f f] by (simp add: mask_of_def exact_mask_def exact_mask_eq wf_exact_def)

lemma pk_val_type [simp]: "f_type (pk_val p t) = t"
  by (simp add: pk_val_def)

lemma pk_load_eq:
  assumes "clear_view T p" "wf_mask m" "m_type m \<in> T"
  shows "pk_load p m = Inr (and_mask (pk_val p (m_type m)) m)"
proof -
  let ?t = "m_type m"
  have l: "length (read_bits p (nbits ?t) (place p ?t)) = nbits ?t" by (rule read_bits_length [OF assms(1,3)])
  have "bits_and (bits_set (bits_zero (nbits ?t))) (m_mask m) = m_mask m"
    using assms(2) by (intro list_eqI2) (auto simp: wf_mask_def bits_simps)
  with assms l show ?thesis
    by (simp add: pk_load_def clear_viewD(1) [OF assms(1,3)] value_ctor_def check_value_def value_and_mask_def
        binop_type_def field_ctor_masked wf_mask_def and_mask_def pk_val_def)
qed

lemma pk_modify_eq:
  assumes "clear_view T p" "wf_field f" "f_type f \<in> T"
  shows "pk_modify p f = Inr (write_bits p (place p (f_type f)) (f_value (rewrite (pk_val p (f_type f)) f)))"
proof -
  let ?t = "f_type f"
  have w: "wf_field (pk_val p ?t)" by (rule wf_exact_wf [OF pk_val_exact [OF assms(1,3)]])
  have "and_mask (pk_val p ?t) (exact_mask ?t) = pk_val p ?t"
    using and_mask_exact_mask [OF pk_val_exact [OF assms(1,3)]] by simp
  then have "pk_load p (exact_mask ?t) = Inr (pk_val p ?t)"
    using pk_load_eq [OF assms(1) wf_exact_mask, of ?t] assms(3) by (simp add: exact_mask_def)
  then show ?thesis
    by (simp add: pk_modify_def field_rewrite_eq [OF w assms(2)] clear_viewD(1) [OF assms(1,3)])
qed

subsection \<open>Writing to one place\<close>

definition patched :: "'a list \<Rightarrow> nat \<Rightarrow> 'a list \<Rightarrow> 'a list" where
  "patched old off new = take off old @ new @ drop (off + length new) old"

lemma patched_same: "off + length new \<le> length old \<Longrightarrow> take (length new) (drop off (patched old off new)) = new"
  by (simp add: patched_def)

lemma patched_length: "off + length new \<le> length old \<Longrightarrow> length (patched old off new) = length old"
  by (simp add: patched_def)

lemma patched_other:
  assumes "off + length new \<le> length old" "off' + k \<le> off \<or> off + length new \<le> off'"
  shows "take k (drop off' (patched old off new)) = take k (drop off' old)"
  using assms(2)
proof
  assume "off' + k \<le> off"
  then have "take k (drop off' (take off old)) = take k (drop off' old)" by (simp add: drop_take)
  moreover have "off' + k \<le> length (take off old)" using \<open>off' + k \<le> off\<close> assms(1) by simp
  ultimately show ?thesis by (simp add: patched_def)
next
  assume "off + length new \<le> off'"
  then have "drop off' (patched old off new) = drop (off' - (off + length new)) (drop (off + length new) old)"
    using assms(1) by (simp add: patched_def)
  then show ?thesis using \<open>off + length new \<le> off'\<close> by simp
qed

lemma set_buffer_simps [simp]:
  "buffer (set_buffer p r b) r' = (if r' = r then b else buffer p r')"
  "access (set_buffer p r b) t = access p t" "place (set_buffer p r b) t = place p t"
  by (auto simp: buffer_def set_buffer_def access_def place_def Let_def split: region.splits)

lemma write_bits_eq: "write_bits p ptr b = set_buffer p (fst ptr) (patched (buffer p (fst ptr)) (snd ptr) (to_buffer b))"
  by (simp add: write_bits_def patched_def Let_def)

lemma to_buffer_width: "8 dvd nbits t \<Longrightarrow> length b = nbits t \<Longrightarrow> length (to_buffer b) = width t"
  by (simp add: to_buffer_def blocks_length num_blocks_def width_def)

lemma write_view:
  assumes "clear_view T p" "t \<in> T" "length b = nbits t"
  shows "clear_view T (write_bits p (place p t) b)"
    and "u \<in> T \<Longrightarrow> read_bits (write_bits p (place p t) b) (nbits u) (place p u) =
      (if u = t then b else read_bits p (nbits u) (place p u))"
proof -
  let ?q = "write_bits p (place p t) b"
  note v = clear_viewD [OF assms(1)]
  have new: "length (to_buffer b) = width t" using to_buffer_width v(2) assms by blast
  note fits = v(3) [OF assms(2)]
  have len: "length (buffer ?q r) = length (buffer p r)" for r
    using fits by (simp add: write_bits_eq patched_length new)
  have pl: "place ?q u = place p u" "access ?q u = access p u" for u by (simp_all add: write_bits_eq)
  show q: "clear_view T ?q" using assms(1) unfolding clear_view_def len pl .
  assume u: "u \<in> T"
  have "read_bits ?q (nbits u) (place p u) =
      concat (map byte_bits (rev (take (width u) (drop (snd (place p u)) (buffer ?q (fst (place p u)))))))"
    using read_bits_eq [OF q u] unfolding pl .
  also have "\<dots> = (if u = t then b else read_bits p (nbits u) (place p u))"
  proof (cases "u = t")
    case True
    have "take (width t) (drop (snd (place p t)) (buffer ?q (fst (place p t)))) = to_buffer b"
      using fits patched_same [of "snd (place p t)" "to_buffer b"] by (simp add: write_bits_eq new)
    moreover have "concat (map byte_bits (rev (to_buffer b))) = b"
      using from_to_buffer [of b 0 "[]"] from_buffer_piece [of "nbits t" "to_buffer b" 0] v(2) [OF assms(2)] assms(3) new
      by (simp add: width_def)
    ultimately show ?thesis using True by simp
  next
    case False
    have "take (width u) (drop (snd (place p u)) (buffer ?q (fst (place p u)))) =
      take (width u) (drop (snd (place p u)) (buffer p (fst (place p u))))"
      using v(4) [OF assms(2) u] False fits patched_other [of "snd (place p t)" "to_buffer b" _ "snd (place p u)" "width u"]
      by (auto simp: write_bits_eq new apart_def)
    then show ?thesis using False read_bits_eq [OF assms(1) u] by simp
  qed
  finally show "read_bits ?q (nbits u) (place p u) = (if u = t then b else read_bits p (nbits u) (place p u))" .
qed

lemma pk_md_view:
  assumes "clear_view T p" "wf_field f" "f_type f \<in> T"
  shows "pk_modify p f = Inr (pk_md p f)" "clear_view T (pk_md p f)"
    "t \<in> T \<Longrightarrow> pk_val (pk_md p f) t = (if t = f_type f then rewrite (pk_val p t) f else pk_val p t)"
proof -
  let ?v = "rewrite (pk_val p (f_type f)) f"
  note e = pk_modify_eq [OF assms]
  then show "pk_modify p f = Inr (pk_md p f)" by (simp add: pk_md_def)
  have md: "pk_md p f = write_bits p (place p (f_type f)) (f_value ?v)" using e by (simp add: pk_md_def)
  have x: "wf_exact ?v" using wf_exact_rewrite [OF pk_val_exact [OF assms(1,3)] assms(2)] by simp
  have l: "length (f_value ?v) = nbits (f_type f)" using wf_field_length(1) [OF wf_exact_wf [OF x]] by simp
  show "clear_view T (pk_md p f)" unfolding md by (rule write_view(1) [OF assms(1,3) l])
  have "place (pk_md p f) t = place p t" for t by (simp add: md write_bits_eq)
  then show "t \<in> T \<Longrightarrow> pk_val (pk_md p f) t = (if t = f_type f then rewrite (pk_val p t) f else pk_val p t)"
    using write_view(2) [OF assms(1,3) l] exact_mask_eq [of ?v] x
    by (auto simp: pk_val_def md wf_exact_def intro!: wf_exact_eqI)
qed

lemma packet_view_parser:
  assumes "coherent T"
  shows "packet_view T (clear_view T) pk_val pk_ld pk_md"
  by unfold_locales
    (use assms in \<open>auto simp: pk_val_exact pk_ld_def pk_load_eq pk_md_view\<close>)

section \<open>Headers do not overlap\<close>

text \<open>Every bound place of the frame ends at \<open>hi\<close> or before, and no two bound places overlap.\<close>

definition laid :: "nat \<Rightarrow> parser \<Rightarrow> bool" where
  "laid hi p = ((\<forall>i ptr. ofb_bindings p i = Some ptr \<longrightarrow>
       fst ptr = In_port_number \<or> fst ptr = Frame \<and> snd ptr + ofb_bytes i \<le> hi) \<and>
     (\<forall>i j a b. ofb_bindings p i = Some a \<longrightarrow> ofb_bindings p j = Some b \<longrightarrow> i \<noteq> j \<longrightarrow>
       apart a (ofb_bytes i) b (ofb_bytes j)))"

lemma laidD:
  "laid hi p \<Longrightarrow> ofb_bindings p i = Some ptr \<Longrightarrow>
    fst ptr = In_port_number \<or> fst ptr = Frame \<and> snd ptr + ofb_bytes i \<le> hi"
  "laid hi p \<Longrightarrow> ofb_bindings p i = Some a \<Longrightarrow> ofb_bindings p j = Some b \<Longrightarrow> i \<noteq> j \<Longrightarrow>
    apart a (ofb_bytes i) b (ofb_bytes j)"
  unfolding laid_def by blast+

lemma laid_mono: "laid hi p \<Longrightarrow> hi \<le> hi' \<Longrightarrow> laid hi' p"
  by (fastforce simp: laid_def)

lemma rfold_bind_one_from:
  "rfold (bind_one n) bs m = Inr m' \<Longrightarrow> m' i = Some ptr \<Longrightarrow> m i = Some ptr \<or> (i, ptr) \<in> set bs"
proof (induction bs arbitrary: m)
  case (Cons b bs)
  then obtain m1 where m1: "bind_one n b m = Inr m1" "rfold (bind_one n) bs m1 = Inr m'" by (auto simp: rbind_eq_Inr)
  from Cons.IH [OF this(2) Cons.prems(2)] m1(1) show ?case
    by (cases b) (auto simp: bind_one_def split: if_splits)
qed simp

definition sections_fit :: "nat \<Rightarrow> nat \<Rightarrow> (basic_match_fields \<times> nat) list \<Rightarrow> bool" where
  "sections_fit lo hi bs = (list_all (\<lambda>(f, off). lo \<le> off \<and> off + ofb_bytes (ofb_id f) \<le> hi) bs \<and>
     list_all (\<lambda>(f, a). list_all (\<lambda>(g, b). ofb_id f \<noteq> ofb_id g \<longrightarrow>
       a + ofb_bytes (ofb_id f) \<le> b \<or> b + ofb_bytes (ofb_id g) \<le> a) bs) bs)"

lemma laid_bind_ofb:
  assumes "bind_ofb bs p = Inr q" "laid lo p" "sections_fit lo hi bs" "lo \<le> hi"
  shows "laid hi q \<and> pk_data q = pk_data p"
proof -
  let ?bs = "map (\<lambda>(f, off). (ofb_id f, Frame, off)) bs"
  obtain m where m: "rfold (bind_one 40) ?bs (ofb_bindings p) = Inr m" "q = p\<lparr>ofb_bindings := m\<rparr>"
    using assms(1) by (auto simp: bind_ofb_def rbind_eq_Inr)
  have new: "ofb_bindings p i = Some ptr \<or> (\<exists>f. (f, snd ptr) \<in> set bs \<and> i = ofb_id f \<and> fst ptr = Frame)"
    if "m i = Some ptr" for i ptr
    using rfold_bind_one_from [OF m(1) that] by auto
  have fit: "lo \<le> a \<and> a + ofb_bytes (ofb_id f) \<le> hi" if "(f, a) \<in> set bs" for f a
    using assms(3) that by (auto simp: sections_fit_def list_all_iff)
  have two: "a + ofb_bytes (ofb_id f) \<le> b \<or> b + ofb_bytes (ofb_id g) \<le> a"
    if "(f, a) \<in> set bs" "(g, b) \<in> set bs" "ofb_id f \<noteq> ofb_id g" for f a g b
    using assms(3) that by (fastforce simp: sections_fit_def list_all_iff)
  have old: "fst ptr = In_port_number \<or> fst ptr = Frame \<and> snd ptr + ofb_bytes i \<le> lo"
    if "ofb_bindings p i = Some ptr" for i ptr
    using laidD(1) [OF assms(2) that] .
  have "fst ptr = In_port_number \<or> fst ptr = Frame \<and> snd ptr + ofb_bytes i \<le> hi" if "m i = Some ptr" for i ptr
    using new [OF that] old [of i ptr] fit assms(4) by fastforce
  moreover have "apart a (ofb_bytes i) b (ofb_bytes j)" if "m i = Some a" "m j = Some b" "i \<noteq> j" for i j a b
    using new [OF that(1)]
  proof
    assume i: "ofb_bindings p i = Some a"
    from new [OF that(2)] show ?thesis
    proof
      assume "ofb_bindings p j = Some b"
      then show ?thesis using laidD(2) [OF assms(2) i] that(3) by simp
    next
      assume "\<exists>f. (f, snd b) \<in> set bs \<and> j = ofb_id f \<and> fst b = Frame"
      then show ?thesis using old [OF i] fit by (fastforce simp: apart_def)
    qed
  next
    assume i: "\<exists>f. (f, snd a) \<in> set bs \<and> i = ofb_id f \<and> fst a = Frame"
    from new [OF that(2)] show ?thesis
    proof
      assume "ofb_bindings p j = Some b"
      then show ?thesis using old [of j b] fit i by (fastforce simp: apart_def)
    next
      assume "\<exists>f. (f, snd b) \<in> set bs \<and> j = ofb_id f \<and> fst b = Frame"
      then show ?thesis using two i that(3) by (fastforce simp: apart_def)
    qed
  qed
  ultimately show ?thesis by (simp add: laid_def m(2))
qed

lemma laid_l4:
  assumes "parse_l4 protocol at len p = Inr q" "laid at p"
  shows "laid (at + len) q"
  using assms laid_bind_ofb [OF _ assms(2), of _ q "at + len"] laid_mono [OF assms(2), of "at + len"]
  by (auto simp: parse_l4_def sections_fit_def ofb_bytes_simps split: if_splits)

lemma laid_ipv4:
  assumes "parse_ipv4_header at len p = Inr q" "laid at p" "20 \<le> ipv4_header_length (pk_data p) at"
  shows "laid (at + len) q"
proof (cases "20 \<le> len")
  case True
  let ?h = "ipv4_header_length (pk_data p) at"
  obtain p1 where p1: "bind_ofb [(IP_PROTO, at + 9), (IPV4_SRC, at + 12), (IPV4_DST, at + 16)] p = Inr p1"
    and q: "(if ?h < len then parse_l4 (read_be 1 (at + 9) (pk_data p)) (at + ?h) (len - ?h) p1 else Inr p1) = Inr q"
    using assms(1) True by (auto simp: parse_ipv4_header_def Let_def rbind_eq_Inr)
  have l: "laid (at + 20) p1"
    using laid_bind_ofb [OF p1 assms(2), of "at + 20"] by (simp add: sections_fit_def ofb_bytes_simps)
  show ?thesis
  proof (cases "?h < len")
    case True
    with q laid_l4 [of _ "at + ?h" "len - ?h" p1 q] laid_mono [OF l, of "at + ?h"] assms(3) show ?thesis by simp
  next
    case False
    with q laid_mono [OF l, of "at + len"] True show ?thesis by simp
  qed
next
  case False
  with assms laid_mono [OF assms(2), of "at + len"] show ?thesis by (simp add: parse_ipv4_header_def)
qed

lemma laid_arp: "parse_arp at len p = Inr q \<Longrightarrow> laid at p \<Longrightarrow> laid (at + len) q"
  using laid_bind_ofb [of "[(ARP_OP, at + 6), (ARP_SHA, at + 8), (ARP_THA, at + 18), (ARP_SPA, at + 14), (ARP_TPA, at + 24)]"
      p q at "at + len"] laid_mono [of at p "at + len"]
  by (auto simp: parse_arp_def sections_fit_def ofb_bytes_simps split: if_splits)

lemma laid_ipv6:
  assumes "parse_ipv6_header at len p = Inr q" "laid at p"
  shows "laid (at + len) q"
proof -
  obtain p1 where p1: "40 \<le> len" "bind_ofb [(IPV6_SRC, at + 8), (IPV6_DST, at + 24), (IP_PROTO, at + 6)] p = Inr p1"
    and q: "(if 40 < len then parse_l4 (read_be 1 (at + 6) (pk_data p)) (at + 40) (len - 40) p1 else Inr p1) = Inr q"
    using assms(1) by (auto simp: parse_ipv6_header_def rbind_eq_Inr split: if_splits)
  have l: "laid (at + 40) p1"
    using laid_bind_ofb [OF p1(2) assms(2), of "at + 40"] by (simp add: sections_fit_def ofb_bytes_simps)
  show ?thesis
    using q laid_l4 [of _ "at + 40" "len - 40" p1 q] laid_mono [OF l, of "at + len"] l p1(1)
    by (auto split: if_splits)
qed

lemma laid_l3:
  assumes "parse_l3 eth_type at len p = Inr q" "laid at p" "eth_type = 0x0800 \<longrightarrow> 20 \<le> ipv4_header_length (pk_data p) at"
  shows "laid (at + len) q"
  using assms laid_mono [OF assms(2), of "at + len"]
  by (auto simp: parse_l3_def intro: laid_ipv4 laid_arp laid_ipv6 split: if_splits)

text \<open>An IPv4 header counts itself: its length field is at least 5.\<close>

definition counts_header :: "byte list \<Rightarrow> bool" where
  "counts_header data = (if read_be 2 12 data = 0x8100
     then read_be 2 16 data = 0x0800 \<longrightarrow> 20 \<le> ipv4_header_length data 18
     else read_be 2 12 data = 0x0800 \<longrightarrow> 20 \<le> ipv4_header_length data 14)"

lemma laid_init: "laid 0 (parser_init data i d out)"
  by (simp add: laid_def parser_init_def)

lemma laid_l2:
  assumes "parse_l2 p = Inr q" "laid 0 p" "counts_header (pk_data p)"
  shows "laid (length (pk_data p)) q"
proof -
  let ?d = "pk_data p" and ?n = "length (pk_data p)"
  consider "\<not> 14 \<le> ?n" | (short) "14 \<le> ?n" "read_be 2 12 ?d = 0x8100" "\<not> 18 \<le> ?n"
    | (vlan) "18 \<le> ?n" "read_be 2 12 ?d = 0x8100" | (untagged) "14 \<le> ?n" "read_be 2 12 ?d \<noteq> 0x8100"
    by linarith
  then show ?thesis
  proof cases
    case vlan
    then obtain p1 where p1: "bind_ofb [(ETH_TYPE, 16), (ETH_SRC, 6), (ETH_DST, 0), (VLAN_VID, 14)] p = Inr p1"
      "parse_l3 (read_be 2 16 ?d) 18 (?n - 18) p1 = Inr q"
      using assms(1) by (auto simp: parse_l2_def Let_def rbind_eq_Inr)
    from laid_bind_ofb [OF p1(1) assms(2), of 18] laid_l3 [OF p1(2)] vlan assms(3) show ?thesis
      by (simp add: sections_fit_def ofb_bytes_simps counts_header_def)
  next
    case untagged
    then obtain p1 where p1: "bind_ofb [(ETH_TYPE, 12), (ETH_SRC, 6), (ETH_DST, 0)] p = Inr p1"
      "parse_l3 (read_be 2 12 ?d) 14 (?n - 14) p1 = Inr q"
      using assms(1) by (auto simp: parse_l2_def Let_def rbind_eq_Inr)
    from laid_bind_ofb [OF p1(1) assms(2), of 14] laid_l3 [OF p1(2)] untagged assms(3) show ?thesis
      by (simp add: sections_fit_def ofb_bytes_simps counts_header_def)
  qed (use assms laid_mono [OF assms(2)] in \<open>auto simp: parse_l2_def Let_def parse_l3_def\<close>)
qed

text \<open>The fields of a parsed packet that are made of whole bytes.\<close>

definition byte_fields :: "parser \<Rightarrow> oxm_type set" where
  "byte_fields p = {t \<in> set known_types. returns (access p t) \<and> t \<noteq> ofb_vlan_vid}"

lemma coherent_byte_fields: "coherent (byte_fields p)"
  using coherent_known by (auto simp: byte_fields_def coherent_def)

lemma known_bytes:
  "t \<in> set known_types \<Longrightarrow> t \<noteq> ofb_vlan_vid \<Longrightarrow> 8 dvd nbits t"
  "t \<in> set known_types \<Longrightarrow> t \<noteq> ofb_vlan_vid \<Longrightarrow> nbytes t = width t"
proof -
  have "list_all (\<lambda>t. t \<noteq> ofb_vlan_vid \<longrightarrow> nbits t mod 8 = 0) known_types" by code_simp
  then show "t \<in> set known_types \<Longrightarrow> t \<noteq> ofb_vlan_vid \<Longrightarrow> 8 dvd nbits t"
    "t \<in> set known_types \<Longrightarrow> t \<noteq> ofb_vlan_vid \<Longrightarrow> nbytes t = width t"
    by (auto simp: list_all_iff nbytes_def width_def)
qed

lemma parsed_clear_view:
  assumes "packet_parser data i d out = Inr p" "counts_header data"
  shows "clear_view (byte_fields p) p"
proof -
  have ns: "\<not> short_ipv6 data" using assms(1) packet_parser_cases [of data i d out] by (auto split: if_splits)
  then obtain m where p: "p = parser_init data i d out\<lparr>ofb_bindings := m\<rparr>" and ins: "inside p"
    using assms(1) packet_parser_cases [of data i d out] by (auto simp: binds_def)
  have laid: "laid (length data) p"
    using laid_l2 [of "parser_init data i d out" p] assms laid_init by (simp add: packet_parser_init)
  have ofb: "ofb_bindings p (unat (ty_id t)) = Some (place p t)" "ofb_bytes (unat (ty_id t)) = width t"
    if "t \<in> byte_fields p" "ty_ns t = ns_code OPENFLOW_BASIC" for t
    using that known_type_cases(1) [of t] known_bytes(2) [of t]
    by (auto simp: byte_fields_def place_def access_def Let_def split: option.splits if_splits)
  have nonof: "place p ofb_switch_id = (Switch_id_number, 0)" "place p ofb_out_port = (Out_port_number, 0)"
    by (auto simp: p place_def access_def nonof_types parser_init_def)
  have ty: "ty_ns t = ns_code OPENFLOW_BASIC \<or> t = ofb_switch_id \<or> t = ofb_out_port" if "t \<in> byte_fields p" for t
    using known_type_cases(2) [of t] that by (simp add: byte_fields_def)
  have regions: "fst (place p t) = In_port_number \<or> fst (place p t) = Frame"
    if "t \<in> byte_fields p" "ty_ns t = ns_code OPENFLOW_BASIC" for t
    using laidD(1) [OF laid ofb(1) [OF that]] by blast
  have fits: "snd (place p t) + width t \<le> length (buffer p (fst (place p t)))" if t: "t \<in> byte_fields p" for t
    using ty [OF t]
  proof (elim disjE)
    assume "ty_ns t = ns_code OPENFLOW_BASIC"
    then show ?thesis using ins ofb [OF t] unfolding inside_def by fastforce
  qed (simp_all add: nonof, simp_all add: p buffer_def parser_init_def word_bytes_length num_blocks_def width_def)
  have sep: "apart (place p t) (width t) (place p u) (width u)"
    if t: "t \<in> byte_fields p" and u: "u \<in> byte_fields p" and ne: "t \<noteq> u" for t u
  proof (cases "ty_ns t = ns_code OPENFLOW_BASIC \<and> ty_ns u = ns_code OPENFLOW_BASIC")
    case True
    then have "\<not> type_eq t u" using coherentD [OF coherent_byte_fields t u] ne by blast
    then have "unat (ty_id t) \<noteq> unat (ty_id u)" using True by (auto simp: type_eq_def word_unat_eq_iff)
    then show ?thesis using laidD(2) [OF laid, of _ "place p t" _ "place p u"] ofb [OF t] ofb [OF u] True by metis
  next
    case False
    then show ?thesis using ty [OF t] ty [OF u] regions [OF t] regions [OF u] nonof ne by (auto simp: apart_def)
  qed
  show ?thesis
    unfolding clear_view_def using fits sep known_bytes(1) by (simp add: byte_fields_def)
qed

section \<open>Properties\<close>

text \<open>A TCP segment from port 4660 to port 80 in an IPv4 packet without options.\<close>

definition tcp_frame :: "byte list" where
  "tcp_frame = [0, 0, 0, 0, 0, 2, 0, 0, 0, 0, 0, 1, 0x08, 0x00] @
     [0x45, 0, 0, 40, 0, 0, 0, 0, 64, 6, 0, 0, 10, 0, 0, 1, 10, 0, 0, 2] @
     [0x12, 0x34, 0, 80, 0, 0, 0, 0, 0, 0, 0, 0, 0x50, 0, 0, 0, 0, 0, 0, 0]"

lemma coherent_clear: "clear_view T p \<Longrightarrow> T \<subseteq> set known_types \<Longrightarrow> packet_view T (clear_view T) pk_val pk_ld pk_md"
  using coherent_known by (intro packet_view_parser) (auto simp: coherent_def)

text \<open>
  C37: a parsed frame behaves as a packet. After parsing a frame whose IPv4 header, if it has one, counts itself,
  rewriting any bound field of whole bytes succeeds, loading that field then gives the rewritten field, and loading any
  other such field gives what it gave before.
\<close>

theorem parsed_packet_rewrites:
  assumes "packet_parser data in_port dpid out = Inr p" "counts_header data"
    and "wf_field f" "f_type f \<in> byte_fields p" "wf_mask m" "m_type m \<in> byte_fields p"
  shows "\<exists>q. pk_modify p f = Inr q \<and> pk_load q m =
    (if m_type m = f_type f then
       rbind (pk_load p (exact_mask (f_type f))) (\<lambda>g. rbind (field_rewrite g f) (\<lambda>h. field_and_mask h m))
     else pk_load p m)"
proof -
  have v: "clear_view (byte_fields p) p" by (rule parsed_clear_view [OF assms(1,2)])
  note md = pk_md_view [OF v assms(3,4)]
  have x: "wf_exact (pk_val p (f_type f))" by (rule pk_val_exact [OF v assms(4)])
  then have w: "wf_field (pk_val p (f_type f))" by (rule wf_exact_wf)
  have "wf_mask (exact_mask (f_type f))" "m_type (exact_mask (f_type f)) = f_type f"
    by (simp_all add: wf_exact_mask) (simp add: exact_mask_def)
  then have e: "pk_load p (exact_mask (f_type f)) = Inr (pk_val p (f_type f))"
    using pk_load_eq [OF v] and_mask_exact_mask [OF x] assms(4) by simp
  show ?thesis
    using md(1,3) pk_load_eq [OF md(2) assms(5,6)] pk_load_eq [OF v assms(5,6)] e assms(5,6)
      field_rewrite_eq [OF w assms(3)] field_and_mask_eq [OF wf_rewrite [OF w assms(3)] assms(5)]
    by (cases "m_type m = f_type f") simp_all
qed

text \<open>The same segment from another port.\<close>

definition other_frame :: "byte list" where
  "other_frame = tcp_frame[35 := 0x35]"

definition tcp_bindings :: "nat \<rightharpoonup> pointer" where
  "tcp_bindings = [0 \<mapsto> (In_port_number, 0), 5 \<mapsto> (Frame, 12), 4 \<mapsto> (Frame, 6), 3 \<mapsto> (Frame, 0),
     10 \<mapsto> (Frame, 23), 11 \<mapsto> (Frame, 26), 12 \<mapsto> (Frame, 30), 13 \<mapsto> (Frame, 34), 14 \<mapsto> (Frame, 36)]"

lemma parse_tcp:
  assumes "length data = 54" "read_be 2 12 data = 0x0800" "ipv4_header_length data 14 = 20" "read_be 1 23 data = 6"
  shows "packet_parser data i d out = Inr (parser_init data i d out\<lparr>ofb_bindings := tcp_bindings\<rparr>)"
  using assms
  by (simp add: packet_parser_init parse_l2_def Let_def bind_ofb_def bind_one_def parse_l3_def parse_ipv4_header_def
      parse_l4_def parser_init_def tcp_bindings_def)

lemma sample_bindings:
  "length tcp_frame = 54 \<and> read_be 2 12 tcp_frame = 0x0800 \<and> ipv4_header_length tcp_frame 14 = 20 \<and> read_be 1 23 tcp_frame = 6"
  "length other_frame = 54 \<and> read_be 2 12 other_frame = 0x0800 \<and> ipv4_header_length other_frame 14 = 20 \<and> read_be 1 23 other_frame = 6"
  "counts_header tcp_frame" "counts_header other_frame"
  by code_simp+

lemma tcp_ports_known: "ofb_tcp_src \<in> set known_types" "ofb_tcp_dst \<in> set known_types"
  "ofb_tcp_src \<noteq> ofb_vlan_vid" "ofb_tcp_dst \<noteq> ofb_vlan_vid" "ofb_tcp_src \<noteq> ofb_tcp_dst"
  by (simp_all add: known_types_def) (simp_all add: ofb_type_defs)

definition sample_parser :: "byte list \<Rightarrow> parser" where
  "sample_parser data = parser_init data 1 7 0\<lparr>ofb_bindings := tcp_bindings\<rparr>"

lemma sample_parsed:
  "packet_parser tcp_frame 1 7 0 = Inr (sample_parser tcp_frame)"
  "packet_parser other_frame 1 7 0 = Inr (sample_parser other_frame)"
  using sample_bindings(1,2) by (simp_all add: parse_tcp sample_parser_def)

lemma sample_access: "access (sample_parser data') t = access (sample_parser data) t"
  by (simp add: access_def sample_parser_def parser_init_def Let_def)

lemma sample_fields:
  "byte_fields (sample_parser data') = byte_fields (sample_parser data)"
  "ofb_tcp_dst \<in> byte_fields (sample_parser data)" "ofb_tcp_src \<in> byte_fields (sample_parser data)"
proof -
  have b: "ofb_bindings (sample_parser data) = tcp_bindings" by (simp add: sample_parser_def)
  have t: "ty_ns ofb_tcp_src = ns_code OPENFLOW_BASIC" "unat (ty_id ofb_tcp_src) = 13"
    "ty_ns ofb_tcp_dst = ns_code OPENFLOW_BASIC" "unat (ty_id ofb_tcp_dst) = 14"
    by (simp_all add: ofb_type_defs)
  have "tcp_bindings 13 = Some (Frame, 34)" "tcp_bindings 14 = Some (Frame, 36)" by (simp_all add: tcp_bindings_def)
  then have "returns (access (sample_parser data) ofb_tcp_src)" "returns (access (sample_parser data) ofb_tcp_dst)"
    by (simp_all only: access_def Let_def b t) simp_all
  then show "ofb_tcp_dst \<in> byte_fields (sample_parser data)" "ofb_tcp_src \<in> byte_fields (sample_parser data)"
    using tcp_ports_known by (simp_all add: byte_fields_def)
  show "byte_fields (sample_parser data') = byte_fields (sample_parser data)"
    by (simp add: byte_fields_def sample_access [of data' _ data])
qed

theorem parsed_packet_rewrites_witness:
  "\<exists>p q. packet_parser tcp_frame 1 7 0 = Inr p \<and> pk_modify p (num_field ofb_tcp_dst 8080) = Inr q \<and>
     pk_load q (exact_mask ofb_tcp_src) = pk_load p (exact_mask ofb_tcp_src)"
proof -
  let ?p = "sample_parser tcp_frame"
  have "in_types (byte_fields ?p) (num_field ofb_tcp_dst 8080)" using sample_fields by simp
  then have f: "wf_field (num_field ofb_tcp_dst 8080)" "f_type (num_field ofb_tcp_dst 8080) \<in> byte_fields ?p"
    by (simp_all add: in_types_def wf_exact_wf)
  have "m_type (exact_mask t) = t" "f_type (num_field t v) = t" for t v by (simp_all add: exact_mask_def num_field_def)
  then show ?thesis
    using parsed_packet_rewrites [OF sample_parsed(1) sample_bindings(3) f wf_exact_mask [of ofb_tcp_src]]
      sample_parsed sample_fields tcp_ports_known by auto
qed


definition web_handler :: handler where
  "web_handler = Test (num_field ofb_tcp_dst 80) (\<lambda>b. Return (if b then fwd 2 else Stop))"

lemma sample_agrees:
  "agrees pk_val (sample_parser other_frame) (trace_values (tracer_trace pk_ld pk_md web_handler (sample_parser tcp_frame)))"
  by code_simp


section \<open>VLAN tags\<close>

text \<open>The 12 bits of \<open>VLAN_VID\<close> are written with the two bytes of the tag control information.\<close>

lemma to_buffer_12: "length b = 12 \<Longrightarrow> to_buffer b = [bits_byte (drop 8 b), bits_byte (take 8 b)]"
proof -
  assume l: "length b = 12"
  then have b: "blocks b = bits_byte (take 8 b) # blocks (drop 8 b)" by (cases b) auto
  have "length (drop 8 b) = 4" using l by simp
  then have "blocks (drop 8 b) = bits_byte (drop 8 b) # []" by (cases "drop 8 b") auto
  with b show ?thesis by (simp add: to_buffer_def)
qed

text \<open>Rewriting the VLAN id clears the priority and the drop eligible bit, the high half of the first byte.\<close>

lemma vid_rewrite_clears_priority:
  assumes "pk_modify p f = Inr q" "f_type f = ofb_vlan_vid" "access p ofb_vlan_vid = Inr ptr"
    and "snd ptr + 2 \<le> length (buffer p (fst ptr))"
  shows "unat (buffer q (fst ptr) ! snd ptr) < 16"
proof -
  obtain g h where g: "pk_load p (exact_mask ofb_vlan_vid) = Inr g" "field_rewrite g f = Inr h" "q = write_bits p ptr (f_value h)"
    using assms(1-3) by (auto simp: pk_modify_def rbind_eq_Inr)
  have "wf_field h"
    using g(2) by (auto simp: field_rewrite_def rbind_eq_Inr value_and_mask_def dest: field_ctor_wf)
  moreover have "f_type g = ofb_vlan_vid"
    using g(1) by (auto simp: pk_load_def value_ctor_def value_and_mask_def binop_type_def field_ctor_def
        exact_mask_def rbind_eq_Inr split: if_splits)
  then have "f_type h = ofb_vlan_vid"
    using g(2) by (auto simp: field_rewrite_def value_rewrite_def value_ctor_def value_and_mask_def binop_type_def
        mask_or_def mask_ctor_def field_ctor_def rbind_eq_Inr split: if_splits)
  ultimately have l: "length (f_value h) = 12" using wf_field_length(1) [of h] by simp
  then have "length (drop 8 (f_value h)) = 4" by simp
  then have v: "bits_val (drop 8 (f_value h)) < 16" using bits_val_less [of "drop 8 (f_value h)"] by simp
  have "buffer q (fst ptr) ! snd ptr = bits_byte (drop 8 (f_value h))"
    using assms(4) by (simp add: g(3) write_bits_eq patched_def to_buffer_12 [OF l] nth_append)
  with v show ?thesis by (simp add: bits_byte_def unat_of_nat)
qed

end
