(* ===== verification/Topology.thy ===== *)
theory Topology
  imports Policies Sample_Packets
begin

text \<open>
  The network graph of \<^verbatim>\<open>src/Topology.cc\<close>: links between switch ports, the updates on
  discovered and broken links, and routes along a shortest-path tree. The tree itself is computed
  by the Boost graph library; it is a parameter with the laws of a shortest-path tree.
\<close>

section \<open>Ports of switches\<close>

record switch_and_port =
  sp_dpid :: "64 word"
  sp_port :: "32 word"

abbreviation "sp d p \<equiv> \<lparr>sp_dpid = d, sp_port = p\<rparr>"

definition sp_eq :: "switch_and_port \<Rightarrow> switch_and_port \<Rightarrow> bool" where
  "sp_eq a b = (sp_dpid a = sp_dpid b \<and> sp_port a = sp_port b)"

definition sp_less :: "switch_and_port \<Rightarrow> switch_and_port \<Rightarrow> bool" where
  "sp_less a b = (sp_dpid a < sp_dpid b \<or> sp_dpid a = sp_dpid b \<and> sp_port a < sp_port b)"

lemma sp_eq_iff [simp]: "sp_eq a b \<longleftrightarrow> a = b"
  by (cases a; cases b) (auto simp: sp_eq_def)

lemma sp_less_total: "sp_less a b \<or> a = b \<or> sp_less b a"
  by (cases a; cases b) (auto simp: sp_less_def)

lemma sp_less_asym: "sp_less a b \<Longrightarrow> \<not> sp_less b a"
  by (auto simp: sp_less_def)

lemma sp_less_irrefl [simp]: "\<not> sp_less a a"
  by (simp add: sp_less_def)

section \<open>The graph\<close>

text \<open>
  An undirected multigraph. A vertex is known by its datapath id; the ends of an edge are the
  vertices of the two switches its link property names, in the order the edges were added.
\<close>

record link_property =
  lp_source :: switch_and_port
  lp_target :: switch_and_port
  lp_weight :: int

record graph =
  vertices :: "64 word list"
  edges :: "link_property list"

record link =
  l_source :: switch_and_port
  l_target :: switch_and_port
  l_weight :: int
  l_id :: nat

datatype event = Add link | Delete "link option"

record topology =
  t_graph :: graph
  t_links :: "link list"
  t_events :: "event list"

definition topology_init :: topology where
  "topology_init = \<lparr>t_graph = \<lparr>vertices = [], edges = []\<rparr>, t_links = [], t_events = []\<rparr>"

definition vertex :: "64 word \<Rightarrow> graph \<Rightarrow> graph" where
  "vertex d g = (if d \<in> set (vertices g) then g else g\<lparr>vertices := vertices g @ [d]\<rparr>)"

definition joins :: "link_property \<Rightarrow> 64 word \<Rightarrow> 64 word \<Rightarrow> bool" where
  "joins e u v = (sp_dpid (lp_source e) = u \<and> sp_dpid (lp_target e) = v \<or>
     sp_dpid (lp_source e) = v \<and> sp_dpid (lp_target e) = u)"

definition get_link :: "topology \<Rightarrow> switch_and_port \<Rightarrow> switch_and_port \<Rightarrow> link option" where
  "get_link t a b = find (\<lambda>l. sp_eq (l_source l) a \<and> sp_eq (l_target l) b \<or>
     sp_eq (l_source l) b \<and> sp_eq (l_target l) a) (t_links t)"

text \<open>\<open>rnd\<close> is the random id of the link object; \<open>remove_edge(u, v, g)\<close> removes all edges between \<open>u\<close> and \<open>v\<close>.\<close>

definition link_discovered :: "switch_and_port \<Rightarrow> switch_and_port \<Rightarrow> nat \<Rightarrow> topology \<Rightarrow> topology" where
  "link_discovered a b rnd t =
     (if sp_dpid a = sp_dpid b then t
      else let g = vertex (sp_dpid b) (vertex (sp_dpid a) (t_graph t));
               l = \<lparr>l_source = a, l_target = b, l_weight = 5, l_id = rnd\<rparr>
           in t\<lparr>t_graph := g\<lparr>edges := edges g @ [\<lparr>lp_source = a, lp_target = b, lp_weight = 1\<rparr>]\<rparr>,
                t_links := t_links t @ [l], t_events := t_events t @ [Add l]\<rparr>)"

definition link_broken :: "switch_and_port \<Rightarrow> switch_and_port \<Rightarrow> topology \<Rightarrow> topology" where
  "link_broken a b t =
     (let g = vertex (sp_dpid b) (vertex (sp_dpid a) (t_graph t));
          g' = g\<lparr>edges := filter (\<lambda>e. \<not> joins e (sp_dpid a) (sp_dpid b)) (edges g)\<rparr>;
          l = get_link t a b
      in t\<lparr>t_graph := g', t_links := (case l of None \<Rightarrow> t_links t | Some x \<Rightarrow> remove1 x (t_links t)),
           t_events := t_events t @ [Delete l]\<rparr>)"

section \<open>Routes\<close>

definition edge_between :: "graph \<Rightarrow> 64 word \<Rightarrow> 64 word \<Rightarrow> link_property option" where
  "edge_between g u v = find (\<lambda>e. joins e u v) (edges g)"

text \<open>
  The loop of \<open>computeRoute\<close> over the predecessor map \<open>p\<close>. \<open>None\<close> is a loop that never ends,
  a failed \<open>BOOST_ASSERT\<close> is an error.
\<close>

partial_function (option) route_loop ::
  "(64 word \<Rightarrow> 64 word) \<Rightarrow> graph \<Rightarrow> 64 word \<Rightarrow> switch_and_port list \<Rightarrow> switch_and_port list res option" where
  "route_loop p g v ret =
     (if p v = v then Some (Inr ret)
      else case edge_between g v (p v) of
        None \<Rightarrow> Some (Inl Assertion_failure)
      | Some l \<Rightarrow>
          (if sp_dpid (lp_source l) = v
           then (if sp_dpid (lp_target l) \<noteq> p v then Some (Inl Assertion_failure)
                 else route_loop p g (p v) (ret @ [lp_source l, lp_target l]))
           else if sp_dpid (lp_target l) \<noteq> v \<or> sp_dpid (lp_source l) \<noteq> p v then Some (Inl Assertion_failure)
           else route_loop p g (p v) (ret @ [lp_target l, lp_source l])))"

lemmas [code] = route_loop.simps

text \<open>\<open>vertex\<close> adds vertices that are missing, so the topology may change.\<close>

definition compute_route :: "(graph \<Rightarrow> 64 word \<Rightarrow> 64 word \<Rightarrow> 64 word) \<Rightarrow> 64 word \<Rightarrow> 64 word \<Rightarrow> topology \<Rightarrow>
  switch_and_port list res option \<times> topology" where
  "compute_route pred from_dpid to_dpid t =
     (let g = vertex to_dpid (vertex from_dpid (t_graph t))
      in (route_loop (pred g to_dpid) g from_dpid [], t\<lparr>t_graph := g\<rparr>))"

section \<open>Walks and distances\<close>

definition neighbours :: "graph \<Rightarrow> 64 word \<Rightarrow> 64 word list" where
  "neighbours g u = concat (map (\<lambda>e. (if sp_dpid (lp_source e) = u then [sp_dpid (lp_target e)] else []) @
     (if sp_dpid (lp_target e) = u then [sp_dpid (lp_source e)] else [])) (edges g))"

fun hops :: "nat \<Rightarrow> graph \<Rightarrow> 64 word \<Rightarrow> 64 word \<Rightarrow> bool" where
  "hops 0 g u v = (u = v)"
| "hops (Suc n) g u v = list_ex (\<lambda>w. hops n g w v) (neighbours g u)"

definition connected :: "graph \<Rightarrow> 64 word \<Rightarrow> 64 word \<Rightarrow> bool" where
  "connected g u v = (\<exists>n. hops n g u v)"

definition distance :: "graph \<Rightarrow> 64 word \<Rightarrow> 64 word \<Rightarrow> nat" where
  "distance g u v = (LEAST n. hops n g u v)"

lemma neighbours_joins: "w \<in> set (neighbours g u) \<longleftrightarrow> (\<exists>e \<in> set (edges g). joins e u w)"
  by (auto simp: neighbours_def joins_def)

lemma distance_hops: "connected g u v \<Longrightarrow> hops (distance g u v) g u v"
  unfolding connected_def distance_def by (rule LeastI_ex)

lemma distance_le: "hops n g u v \<Longrightarrow> distance g u v \<le> n"
  unfolding distance_def by (rule Least_le)

lemma distance_0: "connected g u v \<Longrightarrow> distance g u v = 0 \<Longrightarrow> u = v"
  using distance_hops [of g u v] by simp

text \<open>A vertex at distance \<open>n + 1\<close> has a neighbour at distance \<open>n\<close>.\<close>

lemma distance_step:
  assumes "connected g u v" "distance g u v = Suc n"
  obtains w where "w \<in> set (neighbours g u)" "connected g w v" "distance g w v = n"
proof -
  obtain w where w: "w \<in> set (neighbours g u)" "hops n g w v"
    using distance_hops [OF assms(1)] assms(2) by (auto simp: list_ex_iff)
  then have c: "connected g w v" by (auto simp: connected_def)
  have "hops (Suc (distance g w v)) g u v" using distance_hops [OF c] w(1) by (auto simp: list_ex_iff)
  from distance_le [OF this] distance_le [OF w(2)] assms(2) have "distance g w v = n" by simp
  with that w(1) c show thesis by blast
qed

section \<open>What the routes rely on\<close>

text \<open>
  \<open>dijkstra_shortest_paths\<close> from \<open>s\<close> with weights 1 gives a predecessor map: the source and the
  unreachable vertices are their own predecessors, every other vertex has a neighbour that is one
  edge closer to the source.
\<close>

locale shortest_path_tree =
  fixes pred :: "graph \<Rightarrow> 64 word \<Rightarrow> 64 word \<Rightarrow> 64 word"
  assumes pred_root: "pred g s s = s"
    and pred_unreachable: "\<not> connected g v s \<Longrightarrow> pred g s v = v"
    and pred_neighbour: "connected g v s \<Longrightarrow> v \<noteq> s \<Longrightarrow> pred g s v \<in> set (neighbours g v)"
    and pred_closer: "connected g v s \<Longrightarrow> v \<noteq> s \<Longrightarrow> connected g (pred g s v) s \<and>
      Suc (distance g (pred g s v) s) = distance g v s"

text \<open>The hops of a route: the switch, the port a packet comes in by and the one it leaves by.\<close>

definition loop_free :: "graph \<Rightarrow> bool" where
  "loop_free g = list_all (\<lambda>e. sp_dpid (lp_source e) \<noteq> sp_dpid (lp_target e)) (edges g)"

text \<open>The two ends of a cable.\<close>

definition wired :: "graph \<Rightarrow> switch_and_port \<Rightarrow> switch_and_port \<Rightarrow> bool" where
  "wired g a b = list_ex (\<lambda>e. lp_source e = a \<and> lp_target e = b \<or> lp_source e = b \<and> lp_target e = a) (edges g)"

text \<open>A route from \<open>u\<close> to \<open>v\<close>: cables that lead from switch to switch, each one closer to \<open>v\<close>.\<close>

fun leads :: "graph \<Rightarrow> 64 word \<Rightarrow> 64 word \<Rightarrow> switch_and_port list \<Rightarrow> bool" where
  "leads g u v [] = (u = v)"
| "leads g u v [x] = False"
| "leads g u v (a # b # r) = (sp_dpid a = u \<and> wired g a b \<and> distance g u v = Suc (distance g (sp_dpid b) v) \<and>
     leads g (sp_dpid b) v r)"

context shortest_path_tree
begin

lemma route_leads:
  assumes "loop_free g" "connected g v s"
  shows "\<exists>r. route_loop (pred g s) g v ret = Some (Inr (ret @ r)) \<and> leads g v s r \<and>
    length r = 2 * distance g v s"
  using assms(2)
proof (induction "distance g v s" arbitrary: v ret)
  case 0
  then have "v = s" using distance_0 by simp
  then show ?case using 0 by (intro exI [of _ "[]"]) (simp add: route_loop.simps pred_root)
next
  case (Suc n)
  have ne: "v \<noteq> s" using Suc.hyps(2) distance_le [of 0 g v s] by auto
  let ?w = "pred g s v"
  have w: "?w \<in> set (neighbours g v)" "connected g ?w s" "Suc (distance g ?w s) = distance g v s"
    using pred_neighbour pred_closer ne Suc.prems by auto
  then have pv: "?w \<noteq> v" by auto
  obtain l where l: "edge_between g v ?w = Some l" "l \<in> set (edges g)" "joins l v ?w"
    using w(1) by (auto simp: neighbours_joins edge_between_def dest!: find_SomeD split: option.splits)
      (metis find_NoneD find_SomeD option.exhaust)
  define a b where "a = (if sp_dpid (lp_source l) = v then lp_source l else lp_target l)"
    and "b = (if sp_dpid (lp_source l) = v then lp_target l else lp_source l)"
  have ab: "sp_dpid a = v" "sp_dpid b = ?w" "wired g a b"
    using l pv by (auto simp: a_def b_def joins_def wired_def list_ex_iff)
  have step: "route_loop (pred g s) g v ret = route_loop (pred g s) g ?w (ret @ [a, b])"
    using pv l ab by (subst route_loop.simps) (auto simp: a_def b_def joins_def)
  obtain r where "route_loop (pred g s) g ?w (ret @ [a, b]) = Some (Inr ((ret @ [a, b]) @ r))"
    "leads g ?w s r" "length r = 2 * distance g ?w s"
    using Suc.hyps(1) [of ?w "ret @ [a, b]"] Suc.hyps(2) w by auto
  with step ab w(3) show ?case by (intro exI [of _ "a # b # r"]) simp
qed

lemma route_unreachable: "\<not> connected g v s \<Longrightarrow> route_loop (pred g s) g v ret = Some (Inr ret)"
  by (simp add: route_loop.simps pred_unreachable)

end

section \<open>Breadth-first search\<close>

text \<open>A concrete tree: the first neighbour that is one edge closer to the source.\<close>

definition find_distance :: "graph \<Rightarrow> 64 word \<Rightarrow> 64 word \<Rightarrow> nat option" where
  "find_distance g u v = find (\<lambda>n. hops n g u v) [0..<Suc (length (edges g) + length (edges g))]"

definition bfs_pred :: "graph \<Rightarrow> 64 word \<Rightarrow> 64 word \<Rightarrow> 64 word" where
  "bfs_pred g s v = (case find_distance g v s of
     None \<Rightarrow> v
   | Some 0 \<Rightarrow> v
   | Some (Suc n) \<Rightarrow> (case find (\<lambda>w. hops n g w s) (neighbours g v) of None \<Rightarrow> v | Some w \<Rightarrow> w))"

text \<open>Distances are below twice the number of edges, because the vertices on a shortest walk differ.\<close>

lemma distance_levels:
  "connected g u v \<Longrightarrow> k \<le> distance g u v \<Longrightarrow> \<exists>w. connected g w v \<and> distance g w v = k"
proof (induction "distance g u v" arbitrary: u)
  case (Suc n)
  show ?case
  proof (cases "k = Suc n")
    case True
    then show ?thesis using Suc by metis
  next
    case False
    obtain w where "connected g w v" "distance g w v = n" using distance_step [OF Suc.prems(1)] Suc.hyps(2) by metis
    then show ?thesis using Suc.hyps(1) [of w] False Suc.prems(2) Suc.hyps(2) by auto
  qed
qed auto

definition ends :: "graph \<Rightarrow> 64 word list" where
  "ends g = concat (map (\<lambda>e. [sp_dpid (lp_source e), sp_dpid (lp_target e)]) (edges g))"

lemma distance_bound:
  assumes "connected g u v"
  shows "distance g u v \<le> length (edges g) + length (edges g)"
proof -
  define f where "f k = (SOME w. connected g w v \<and> distance g w v = k)" for k
  have f: "connected g (f k) v \<and> distance g (f k) v = k" if "k \<le> distance g u v" for k
    unfolding f_def by (rule someI_ex [OF distance_levels [OF assms that]])
  have inj: "inj_on f {1..distance g u v}" by (rule inj_onI) (metis atLeastAtMost_iff f)
  have "f k \<in> set (ends g)" if k: "k \<in> {1..distance g u v}" for k
  proof -
    from k obtain n where "k = Suc n" by (cases k) auto
    then obtain w where "w \<in> set (neighbours g (f k))" using distance_step [of g "f k" v n] f [of k] k by auto
    then obtain e where "e \<in> set (edges g)" "f k \<in> {sp_dpid (lp_source e), sp_dpid (lp_target e)}"
      by (auto simp: neighbours_joins joins_def)
    then show ?thesis unfolding ends_def by force
  qed
  then have "card (f ` {1..distance g u v}) \<le> card (set (ends g))" by (intro card_mono) auto
  then have "distance g u v \<le> card (set (ends g))" using card_image [OF inj] by simp
  also have "\<dots> \<le> length (ends g)" by (rule card_length)
  also have "length (ends g) = length (edges g) + length (edges g)"
  proof -
    have "length (concat (map (\<lambda>e. [sp_dpid (lp_source e), sp_dpid (lp_target e)]) es)) = length es + length es" for es
      by (induction es) auto
    then show ?thesis by (simp add: ends_def)
  qed
  finally show ?thesis .
qed

lemma find_upt: "find P [0..<n] = (if \<exists>k < n. P k then Some (LEAST k. P k) else None)"
proof (induction n)
  case (Suc n)
  show ?case
  proof (cases "\<exists>k < n. P k")
    case True
    then have "\<exists>k < Suc n. P k" using less_SucI by blast
    with True show ?thesis using Suc by (simp add: find_append)
  next
    case False
    then have "P n \<Longrightarrow> (LEAST k. P k) = n" by (metis Least_equality leI)
    then show ?thesis using Suc False by (auto simp: find_append less_Suc_eq)
  qed
qed simp

lemma find_distance_eq:
  "find_distance g u v = (if connected g u v then Some (distance g u v) else None)"
proof -
  have "(\<exists>k < Suc (length (edges g) + length (edges g)). hops k g u v) \<longleftrightarrow> connected g u v"
    using distance_bound [of g u v] distance_hops [of g u v] by (auto simp: connected_def less_Suc_eq_le)
  then show ?thesis unfolding find_distance_def find_upt distance_def by simp
qed

interpretation bfs: shortest_path_tree bfs_pred
proof
  fix g s v
  show "bfs_pred g s s = s"
    using distance_le [of 0 g s s] by (auto simp: bfs_pred_def find_distance_eq)
  show "\<not> connected g v s \<Longrightarrow> bfs_pred g s v = v" by (simp add: bfs_pred_def find_distance_eq)
  assume c: "connected g v s" and ne: "v \<noteq> s"
  then obtain n where n: "distance g v s = Suc n" using distance_0 by (cases "distance g v s") auto
  obtain w where "w \<in> set (neighbours g v)" "connected g w s" "distance g w s = n"
    using distance_step [OF c n] by blast
  then obtain x where x: "find (\<lambda>w. hops n g w s) (neighbours g v) = Some x"
    using distance_hops [of g w s] find_NoneD [of "\<lambda>w. hops n g w s" "neighbours g v" w]
    by (cases "find (\<lambda>w. hops n g w s) (neighbours g v)") auto
  then have b: "bfs_pred g s v = x" using c n by (simp add: bfs_pred_def find_distance_eq)
  have x': "x \<in> set (neighbours g v)" "hops n g x s" using find_SomeD [OF x] by auto
  then show "bfs_pred g s v \<in> set (neighbours g v)" by (simp add: b)
  have cx: "connected g x s" using x' by (auto simp: connected_def)
  have "hops (Suc (distance g x s)) g v s" using distance_hops [OF cx] x'(1) by (auto simp: list_ex_iff)
  from distance_le [OF this] distance_le [OF x'(2)] n cx
  show "connected g (bfs_pred g s v) s \<and> Suc (distance g (bfs_pred g s v) s) = distance g v s"
    by (simp add: b)
qed

end
