(* ===== verification/Forwarding_Packets.thy ===== *)
theory Forwarding_Packets
  imports Topology Retic_Pipeline
begin

text \<open>
  Packets on their way through the network, for the applications that return policies: the packet
  at a port of a switch, and what filters, sums and sequences of filters do to it.
\<close>

definition switch_id_is :: "64 word \<Rightarrow> oxm_field" where
  "switch_id_is d = num_field ofb_switch_id (unat d)"

definition port_is :: "32 word \<Rightarrow> oxm_field" where
  "port_is i = num_field ofb_in_port (unat i)"

definition out_is :: "32 word \<Rightarrow> oxm_field" where
  "out_is i = num_field ofb_out_port (unat i)"

lemma fwd_out: "fwd w = Modify (out_is w)"
  by (simp add: fwd_def out_is_def num_field_def)

lemma num_field_inj: "num_field t v = num_field t w \<longleftrightarrow> v mod 2 ^ nbits t = w mod 2 ^ nbits t"
proof
  assume "num_field t v = num_field t w"
  then have "bits_val (bits_of (nbits t) v) = bits_val (bits_of (nbits t) w)" by (simp add: num_field_def)
  then show "v mod 2 ^ nbits t = w mod 2 ^ nbits t" by simp
next
  assume a: "v mod 2 ^ nbits t = w mod 2 ^ nbits t"
  have "bits_of (nbits t) v = bits_of (nbits t) w" by (rule bits_val_inj) (simp_all add: a)
  then show "num_field t v = num_field t w" by (simp add: num_field_def)
qed

lemma header_inj [simp]:
  "switch_id_is d = switch_id_is d' \<longleftrightarrow> d = d'" "port_is i = port_is i' \<longleftrightarrow> i = i'" "out_is i = out_is i' \<longleftrightarrow> i = i'"
  using unsigned_less [of d, where 'a = nat] unsigned_less [of d', where 'a = nat]
    unsigned_less [of i, where 'a = nat] unsigned_less [of i', where 'a = nat]
  by (auto simp: switch_id_is_def port_is_def out_is_def num_field_inj word_unat_eq_iff)

lemma switch_id_known [simp]: "ofb_switch_id \<in> set known_types"
  by (simp add: known_types_def)

lemma header_types [simp]:
  "in_types (set known_types) (switch_id_is d)" "in_types (set known_types) (port_is i)" "in_types (set known_types) (out_is i)"
  by (simp_all add: switch_id_is_def port_is_def out_is_def)

lemma header_field_types [simp]:
  "f_type (switch_id_is d) = ofb_switch_id" "f_type (port_is i) = ofb_in_port" "f_type (out_is i) = ofb_out_port"
  by (simp_all add: switch_id_is_def port_is_def out_is_def num_field_def)

lemma header_types_differ [simp]: "ofb_switch_id \<noteq> ofb_in_port" "ofb_in_port \<noteq> ofb_switch_id"
  "\<not> type_eq ofb_switch_id ofb_in_port" "\<not> type_eq ofb_in_port ofb_switch_id"
  by (simp_all add: ofb_type_defs type_eq_def)

text \<open>A packet that has come in by a port of a switch.\<close>

definition located :: "field_set \<Rightarrow> switch_and_port \<Rightarrow> bool" where
  "located p a = (full_fs (set known_types) p \<and> fs_test p (switch_id_is (sp_dpid a)) \<and> fs_test p (port_is (sp_port a)))"

definition arrive :: "field_set \<Rightarrow> switch_and_port \<Rightarrow> field_set" where
  "arrive p a = fs_modify (fs_modify p (switch_id_is (sp_dpid a))) (port_is (sp_port a))"

lemma located_test:
  assumes "located p a"
  shows "fs_test p (switch_id_is d) \<longleftrightarrow> d = sp_dpid a" "fs_test p (port_is i) \<longleftrightarrow> i = sp_port a"
proof -
  have p: "full_fs (set known_types) p" using assms by (simp add: located_def)
  have "fs_test p g \<longleftrightarrow> fs_find p (f_type g) = Some g" if "in_types (set known_types) g" for g
    using fs_test_full [OF coherent_known p that] .
  then show "fs_test p (switch_id_is d) \<longleftrightarrow> d = sp_dpid a" "fs_test p (port_is i) \<longleftrightarrow> i = sp_port a"
    using assms by (auto simp: located_def)
qed

lemma located_arrive: "full_fs (set known_types) p \<Longrightarrow> located (arrive p a) a"
proof -
  assume p: "full_fs (set known_types) p"
  let ?q = "fs_modify p (switch_id_is (sp_dpid a))"
  have q: "full_fs (set known_types) ?q" by (rule full_fs_modify(2) [OF coherent_known p header_types(1)])
  have r: "full_fs (set known_types) (fs_modify ?q (port_is (sp_port a)))"
    by (rule full_fs_modify(2) [OF coherent_known q header_types(2)])
  have "fs_find (fs_modify ?q (port_is (sp_port a))) ofb_switch_id = Some (switch_id_is (sp_dpid a))"
    "fs_find (fs_modify ?q (port_is (sp_port a))) ofb_in_port = Some (port_is (sp_port a))"
    using full_fs_modify_find [OF coherent_known q header_types(2)]
      full_fs_modify_find [OF coherent_known p header_types(1)] by simp_all
  then show "located (arrive p a) a"
    using r fs_test_full [OF coherent_known r] by (simp add: located_def arrive_def)
qed

text \<open>A filter in front, sums in a loop.\<close>

lemma sem_filter_seq:
  "sem tst md (Sequential (Filter f) q) p = (if tst p f then sem tst md q p else {#})"
  by simp

definition policy_sum :: "('a \<Rightarrow> policy) \<Rightarrow> 'a list \<Rightarrow> policy" where
  "policy_sum f xs = foldl (\<lambda>p x. policy_plus p (f x)) Stop xs"

lemma sem_policy_sum: "sem tst md (policy_sum f xs) p = (\<Sum>x \<leftarrow> xs. sem tst md (f x) p)"
  by (induction xs rule: rev_induct) (simp_all add: policy_sum_def sem_plus)

lemma policy_plus_parts:
  "handler_free (policy_plus a b) \<longleftrightarrow> handler_free a \<and> handler_free b"
  "mset (policy_fields (policy_plus a b)) = mset (policy_fields a) + mset (policy_fields b)"
  by (cases a; cases b; simp add: policy_plus_def)+

lemma policy_sum_parts:
  "handler_free (policy_sum f xs) \<longleftrightarrow> list_all (\<lambda>x. handler_free (f x)) xs"
  "set (policy_fields (policy_sum f xs)) = (\<Union>x \<in> set xs. set (policy_fields (f x)))"
proof -
  have set_plus: "set (policy_fields (policy_plus a b)) = set (policy_fields a) \<union> set (policy_fields b)" for a b
    using arg_cong [OF policy_plus_parts(2), of set_mset a b] by simp
  show "handler_free (policy_sum f xs) \<longleftrightarrow> list_all (\<lambda>x. handler_free (f x)) xs"
    "set (policy_fields (policy_sum f xs)) = (\<Union>x \<in> set xs. set (policy_fields (f x)))"
    by (induction xs rule: rev_induct) (auto simp: policy_sum_def policy_plus_parts(1) set_plus)
qed

lemma sum_list_single:
  assumes "distinct xs" "\<And>y. y \<in> set xs \<Longrightarrow> y \<noteq> x \<Longrightarrow> f y = {#}"
  shows "(\<Sum>y \<leftarrow> xs. f y) = (if x \<in> set xs then f x else {#})"
  using assms by (induction xs) auto

text \<open>The copies a packet is sent out as.\<close>

definition sent_out :: "field_set \<Rightarrow> 32 word list \<Rightarrow> field_set outcome multiset" where
  "sent_out p os = mset (map (\<lambda>o'. (fs_modify p (out_is o'), None)) os)"

lemma sem_fwd_sum: "sem fs_test fs_modify (policy_sum (\<lambda>o'. fwd o') os) p = sent_out p os"
  by (simp add: sem_policy_sum fwd_out sent_out_def)

end
