(* ===== verification/Spanning_Tree.thy ===== *)
theory Spanning_Tree
  imports Forwarding_Packets
begin

text \<open>
  Flooding over a spanning tree, \<^verbatim>\<open>src/STP.cc\<close>: the ports of the switches, which of them
  take part in floods, the group messages, and the policy that floods. The tree is computed by the
  Boost graph library; its edges are an argument.
\<close>

section \<open>State\<close>

record port =
  port_no :: "32 word"
  broadcast :: bool
  to_switch :: bool
  next_switch :: "64 word option"

definition new_port :: "32 word \<Rightarrow> port" where
  "new_port n = \<lparr>port_no = n, broadcast = True, to_switch = False, next_switch = None\<rparr>"

text \<open>The maps of the code are association lists; a null pointer in \<open>switch_list\<close> is \<open>None\<close>.\<close>

type_synonym switch_stp = "(32 word \<times> port) list"

datatype group_command = Group_modify | Group_delete_all | Group_install

record stp =
  switch_list :: "(64 word \<times> switch_stp option) list"
  spanning_tree :: "(64 word \<times> 32 word list) list"
  computed :: bool
  stp_sent :: "(64 word \<times> group_command \<times> 32 word list) list"

definition stp_init :: stp where
  "stp_init = \<lparr>switch_list = [], spanning_tree = [], computed = False, stp_sent = []\<rparr>"

section \<open>One switch\<close>

definition exists_port :: "switch_stp \<Rightarrow> 32 word \<Rightarrow> bool" where
  "exists_port sw n = (map_of sw n \<noteq> None)"

text \<open>\<open>ports.at(n)->...\<close> throws when the port is unknown.\<close>

definition update_port :: "32 word \<Rightarrow> (port \<Rightarrow> port) \<Rightarrow> switch_stp \<Rightarrow> switch_stp res" where
  "update_port n f sw = (case map_of sw n of None \<Rightarrow> Inl Out_of_range | Some p \<Rightarrow> Inr (put n (f p) sw))"

definition unset_broadcast :: "32 word \<Rightarrow> switch_stp \<Rightarrow> switch_stp res" where
  "unset_broadcast n = update_port n (\<lambda>p. p\<lparr>broadcast := False\<rparr>)"

definition set_broadcast :: "32 word \<Rightarrow> switch_stp \<Rightarrow> switch_stp res" where
  "set_broadcast n = update_port n (\<lambda>p. p\<lparr>broadcast := True\<rparr>)"

definition set_switch_port :: "32 word \<Rightarrow> 64 word \<Rightarrow> switch_stp \<Rightarrow> switch_stp res" where
  "set_switch_port n d = update_port n (\<lambda>p. p\<lparr>to_switch := True, next_switch := Some d\<rparr>)"

definition reset_broadcast :: "switch_stp \<Rightarrow> switch_stp res" where
  "reset_broadcast sw = rfold (\<lambda>(k, p) s. if to_switch p then unset_broadcast (port_no p) s else Inr s) sw sw"

definition enabled_ports :: "switch_stp \<Rightarrow> 32 word list" where
  "enabled_ports sw = map (\<lambda>(k, p). port_no p) (filter (\<lambda>(k, p). broadcast p) sw)"

section \<open>Events\<close>

definition deref :: "'a option \<Rightarrow> 'a res" where
  "deref x = (case x of None \<Rightarrow> Inl Nullptr_dereference | Some a \<Rightarrow> Inr a)"

definition has_switch :: "64 word \<Rightarrow> stp \<Rightarrow> bool" where
  "has_switch d st = (map_of (switch_list st) d \<noteq> None)"

definition send_group :: "64 word \<Rightarrow> group_command \<Rightarrow> 32 word list \<Rightarrow> stp \<Rightarrow> stp" where
  "send_group d c ports st = st\<lparr>stp_sent := stp_sent st @ [(d, c, ports)]\<rparr>"

definition update_group :: "64 word \<Rightarrow> stp \<Rightarrow> stp res" where
  "update_group d st = (case map_of (switch_list st) d of
     Some (Some sw) \<Rightarrow> Inr (send_group d Group_modify (enabled_ports sw) st)
   | _ \<Rightarrow> Inl Nullptr_dereference)"

definition new_switch :: "64 word \<Rightarrow> stp \<Rightarrow> stp" where
  "new_switch d st = send_group d Group_install [] (send_group d Group_delete_all [] st)\<lparr>switch_list := put d (Some []) (switch_list st)\<rparr>"

definition on_switch_discovered :: "64 word \<Rightarrow> stp \<Rightarrow> stp" where
  "on_switch_discovered d st = new_switch d st"

definition on_switch_down :: "64 word \<Rightarrow> stp \<Rightarrow> stp" where
  "on_switch_down d st = (if has_switch d st then st\<lparr>switch_list := remove_key d (switch_list st)\<rparr> else st)"

definition on_switch_up_stp :: "64 word \<Rightarrow> stp \<Rightarrow> stp" where
  "on_switch_up_stp d st = (if has_switch d st then st else new_switch d st)"

definition ofpp_max :: "32 word" where
  "ofpp_max = 0xffffff00"

definition on_port_up :: "64 word \<Rightarrow> 32 word \<Rightarrow> stp \<Rightarrow> stp res" where
  "on_port_up d n st = (case map_of (switch_list st) d of
     None \<Rightarrow> Inr st
   | Some p \<Rightarrow> rbind (deref p) (\<lambda>sw.
       update_group d (if \<not> exists_port sw n \<and> n < ofpp_max
         then st\<lparr>switch_list := put d (Some (put n (new_port n) sw)) (switch_list st)\<rparr> else st)))"

text \<open>One end of a discovered link.\<close>

definition link_end :: "switch_and_port \<Rightarrow> 64 word \<Rightarrow> stp \<Rightarrow> stp res" where
  "link_end a other st = (case map_of (switch_list st) (sp_dpid a) of
     None \<Rightarrow> Inl Nullptr_dereference
   | Some p \<Rightarrow> rbind (deref p) (\<lambda>sw.
       rbind (unset_broadcast (sp_port a) (if exists_port sw (sp_port a) then sw else put (sp_port a) (new_port (sp_port a)) sw)) (\<lambda>sw1.
       rbind (update_group (sp_dpid a) (st\<lparr>switch_list := put (sp_dpid a) (Some sw1) (switch_list st)\<rparr>)) (\<lambda>st1.
       rbind (set_switch_port (sp_port a) other sw1) (\<lambda>sw2.
         Inr (st1\<lparr>switch_list := put (sp_dpid a) (Some sw2) (switch_list st1)\<rparr>))))))"

definition on_link_discovered :: "switch_and_port \<Rightarrow> switch_and_port \<Rightarrow> stp \<Rightarrow> stp res" where
  "on_link_discovered a b st =
     (if \<not> has_switch (sp_dpid a) st \<or> \<not> has_switch (sp_dpid b) st then Inr st
      else rbind (link_end a (sp_dpid b) st) (\<lambda>st1. rbind (link_end b (sp_dpid a) st1) (\<lambda>st2.
        Inr (st2\<lparr>computed := False\<rparr>))))"

definition on_link_broken :: "switch_and_port \<Rightarrow> switch_and_port \<Rightarrow> stp \<Rightarrow> stp" where
  "on_link_broken a b st = st\<lparr>computed := False\<rparr>"

section \<open>The spanning tree\<close>

text \<open>\<open>spanning_tree[d].push_back(n)\<close>, for both ends of the edges \<open>kruskal_minimum_spanning_tree\<close> chose.\<close>

definition tree_add :: "switch_and_port \<Rightarrow> (64 word \<times> 32 word list) list \<Rightarrow> (64 word \<times> 32 word list) list" where
  "tree_add a tr = put (sp_dpid a) ((case map_of tr (sp_dpid a) of None \<Rightarrow> [] | Some ns \<Rightarrow> ns) @ [sp_port a]) tr"

definition build_tree :: "link_property list \<Rightarrow> (64 word \<times> 32 word list) list" where
  "build_tree es = foldl (\<lambda>tr e. tree_add (lp_target e) (tree_add (lp_source e) tr)) [] es"

definition reset_all :: "stp \<Rightarrow> stp res" where
  "reset_all st = rfold (\<lambda>(d, p) s. rbind (deref p) (\<lambda>sw. rbind (reset_broadcast sw) (\<lambda>sw'.
     Inr (s\<lparr>switch_list := put d (Some sw') (switch_list s)\<rparr>)))) (switch_list st) st"

text \<open>\<open>switch_list[d]\<close> puts a null pointer into the map when the switch is unknown.\<close>

definition enable_switch :: "64 word \<times> 32 word list \<Rightarrow> stp \<Rightarrow> stp res" where
  "enable_switch x st = (case x of (d, ns) \<Rightarrow>
     let st1 = (if has_switch d st then st else st\<lparr>switch_list := put d None (switch_list st)\<rparr>) in
     case map_of (switch_list st1) d of
       Some (Some sw) \<Rightarrow>
         rbind (rfold (\<lambda>n s. if exists_port s n then set_broadcast n s else Inr s) ns sw) (\<lambda>sw'.
           update_group d (st1\<lparr>switch_list := put d (Some sw') (switch_list st1)\<rparr>))
     | _ \<Rightarrow> Inl Nullptr_dereference)"

definition compute_spanning_tree :: "link_property list \<Rightarrow> stp \<Rightarrow> stp res" where
  "compute_spanning_tree kruskal st =
     (if computed st then Inr st
      else rbind (reset_all st) (\<lambda>st1.
        let st2 = st1\<lparr>spanning_tree := build_tree kruskal\<rparr> in
        rbind (rfold enable_switch (spanning_tree st2) st2) (\<lambda>st3. Inr (st3\<lparr>computed := True\<rparr>))))"

definition get_stp :: "64 word \<Rightarrow> stp \<Rightarrow> 32 word list res" where
  "get_stp d st = (if \<not> has_switch d st \<or> \<not> computed st then Inr []
     else (case map_of (switch_list st) d of Some (Some sw) \<Rightarrow> Inr (enabled_ports sw) | _ \<Rightarrow> Inl Nullptr_dereference))"

section \<open>The flooding policy\<close>

definition spawn :: "32 word list \<Rightarrow> 32 word \<Rightarrow> policy" where
  "spawn ports i = policy_sum fwd (filter (\<lambda>o'. o' \<noteq> i) ports)"

definition flood_switch :: "32 word list \<Rightarrow> policy" where
  "flood_switch ports = policy_sum (\<lambda>i. policy_seq (Filter (port_is i)) (spawn ports i)) ports"

definition broadcast_policy :: "stp \<Rightarrow> policy res" where
  "broadcast_policy st = rbind (rmap (\<lambda>(d, p). rbind (deref p) (\<lambda>sw. Inr (d, enabled_ports sw))) (switch_list st))
     (\<lambda>xs. Inr (policy_sum (\<lambda>(d, ports). policy_seq (Filter (switch_id_is d)) (flood_switch ports)) xs))"

end
