(* ===== verification/Spanning_Tree_Correct.thy ===== *)
theory Spanning_Tree_Correct
  imports Spanning_Tree
begin

text \<open>
  What the flooding of \<^verbatim>\<open>src/STP.cc\<close> does: the invariant of its state in every reachable state,
  the ports a recomputed spanning tree enables, and the meaning of the flooding policy.
\<close>

section \<open>Reachable states\<close>

inductive stp_step :: "stp \<Rightarrow> stp \<Rightarrow> bool" where
  discovered: "stp_step st (on_switch_discovered d st)"
| down: "stp_step st (on_switch_down d st)"
| up: "stp_step st (on_switch_up_stp d st)"
| port_up: "on_port_up d n st = Inr st' \<Longrightarrow> stp_step st st'"
| link: "on_link_discovered a b st = Inr st' \<Longrightarrow> stp_step st st'"
| broken: "stp_step st (on_link_broken a b st)"
| tree: "compute_spanning_tree es st = Inr st' \<Longrightarrow> stp_step st st'"

inductive stp_reachable :: "stp \<Rightarrow> bool" where
  init: "stp_reachable stp_init"
| step: "stp_reachable st \<Longrightarrow> stp_step st st' \<Longrightarrow> stp_reachable st'"

text \<open>Keys are unique, ports carry their key, and only ports to switches are kept out of floods.\<close>

definition switch_ok :: "switch_stp \<Rightarrow> bool" where
  "switch_ok sw = (distinct (map fst sw) \<and>
     (\<forall>n p. map_of sw n = Some p \<longrightarrow> port_no p = n \<and> (broadcast p \<or> to_switch p)))"

definition stp_ok :: "stp \<Rightarrow> bool" where
  "stp_ok st = (distinct (map fst (switch_list st)) \<and>
     (\<forall>d x. map_of (switch_list st) d = Some x \<longrightarrow> (\<exists>sw. x = Some sw \<and> switch_ok sw)))"

lemma switch_ok_put:
  "switch_ok sw \<Longrightarrow> port_no p = n \<Longrightarrow> broadcast p \<or> to_switch p \<Longrightarrow> switch_ok (put n p sw)"
  by (auto simp: switch_ok_def distinct_put)

lemma switch_ok_Nil [simp]: "switch_ok []"
  by (simp add: switch_ok_def)

lemma switch_okD: "switch_ok sw \<Longrightarrow> map_of sw n = Some p \<Longrightarrow> port_no p = n \<and> (broadcast p \<or> to_switch p)"
  by (simp add: switch_ok_def)

lemma stp_ok_put:
  "stp_ok st \<Longrightarrow> switch_ok sw \<Longrightarrow> stp_ok (st\<lparr>switch_list := put d (Some sw) (switch_list st)\<rparr>)"
  by (simp add: stp_ok_def distinct_put)

lemma stp_okD: "stp_ok st \<Longrightarrow> map_of (switch_list st) d = Some x \<Longrightarrow> \<exists>sw. x = Some sw \<and> switch_ok sw"
  by (simp add: stp_ok_def)

lemma stp_ok_fields [simp]:
  "stp_ok (st\<lparr>computed := c\<rparr>) = stp_ok st" "stp_ok (st\<lparr>spanning_tree := tr\<rparr>) = stp_ok st"
  "stp_ok (st\<lparr>stp_sent := ms\<rparr>) = stp_ok st" "stp_ok (send_group d c' ports st) = stp_ok st"
  by (simp_all add: stp_ok_def send_group_def)

lemma stp_ok_new_switch: "stp_ok st \<Longrightarrow> stp_ok (new_switch d st)"
proof -
  assume "stp_ok st"
  from stp_ok_put [OF this switch_ok_Nil, of d] show ?thesis
    by (simp add: new_switch_def send_group_def stp_ok_def)
qed

lemma update_group_Inr:
  "update_group d st = Inr st' \<longleftrightarrow> (\<exists>sw. map_of (switch_list st) d = Some (Some sw) \<and>
     st' = send_group d Group_modify (enabled_ports sw) st)"
  by (auto simp: update_group_def split: option.splits)

lemma stp_ok_port_up:
  assumes "stp_ok st" "on_port_up d n st = Inr st'"
  shows "stp_ok st'"
proof (cases "map_of (switch_list st) d")
  case None
  with assms show ?thesis by (simp add: on_port_up_def)
next
  case (Some x)
  with stp_okD [OF assms(1)] obtain sw where sw: "map_of (switch_list st) d = Some (Some sw)" "switch_ok sw" by blast
  have "switch_ok (put n (new_port n) sw)" by (rule switch_ok_put [OF sw(2)]) (simp_all add: new_port_def)
  from stp_ok_put [OF assms(1) this, of d] assms sw show ?thesis
    by (auto simp: on_port_up_def deref_def update_group_Inr split: if_splits)
qed

lemma put_put [simp]: "put k v (put k w xs) = put k v xs"
  by (induction xs) auto

definition port_at :: "switch_stp \<Rightarrow> 32 word \<Rightarrow> port" where
  "port_at sw n = (case map_of sw n of None \<Rightarrow> new_port n | Some p \<Rightarrow> p)"

lemma port_at_no: "switch_ok sw \<Longrightarrow> port_no (port_at sw n) = n"
  by (auto simp: port_at_def new_port_def switch_okD split: option.split)

lemma link_end_eq:
  assumes "map_of (switch_list st) (sp_dpid a) = Some (Some sw)"
  shows "\<exists>ms. link_end a d st = Inr (st\<lparr>switch_list := put (sp_dpid a) (Some (put (sp_port a)
    ((port_at sw (sp_port a))\<lparr>broadcast := False, to_switch := True, next_switch := Some d\<rparr>) sw)) (switch_list st),
    stp_sent := ms\<rparr>)"
  using assms
proof (cases st)
  case (fields sl tr c ms)
  let ?n = "sp_port a" and ?p = "port_at sw (sp_port a)"
  let ?sw0 = "if exists_port sw ?n then sw else put ?n (new_port ?n) sw"
  have p: "map_of ?sw0 ?n = Some ?p" by (auto simp: exists_port_def port_at_def)
  have w: "put ?n x ?sw0 = put ?n x sw" for x by simp
  have "unset_broadcast ?n ?sw0 = Inr (put ?n (?p\<lparr>broadcast := False\<rparr>) sw)"
    by (simp only: unset_broadcast_def update_port_def p w option.case)
  then show ?thesis
    using assms
    by (simp add: fields link_end_def deref_def update_group_def send_group_def set_switch_port_def
      update_port_def)
qed

lemma stp_ok_link_end:
  assumes "stp_ok st" "link_end a d st = Inr st'"
  shows "stp_ok st'" "has_switch x st' = has_switch x st"
proof -
  obtain sw where sw: "map_of (switch_list st) (sp_dpid a) = Some (Some sw)" "switch_ok sw"
    using assms stp_okD [OF assms(1)] by (fastforce simp: link_end_def split: option.splits)
  obtain ms where st': "st' = st\<lparr>switch_list := put (sp_dpid a) (Some (put (sp_port a)
      ((port_at sw (sp_port a))\<lparr>broadcast := False, to_switch := True, next_switch := Some d\<rparr>) sw)) (switch_list st),
      stp_sent := ms\<rparr>"
    using link_end_eq [OF sw(1), of d] assms(2) by auto
  have "switch_ok (put (sp_port a) ((port_at sw (sp_port a))\<lparr>broadcast := False, to_switch := True, next_switch := Some d\<rparr>) sw)"
    by (rule switch_ok_put [OF sw(2)]) (simp_all add: port_at_no [OF sw(2)])
  from stp_ok_put [OF assms(1) this] show "stp_ok st'" by (simp add: st')
  show "has_switch x st' = has_switch x st" using sw(1) by (auto simp: st' has_switch_def)
qed

lemma stp_ok_link: "stp_ok st \<Longrightarrow> on_link_discovered a b st = Inr st' \<Longrightarrow> stp_ok st'"
  by (auto simp: on_link_discovered_def rbind_eq_Inr intro: stp_ok_link_end(1) [OF stp_ok_link_end(1)] split: if_splits)

section \<open>Computing the tree\<close>

text \<open>What resetting and enabling do to the ports of a switch.\<close>

definition same_but_broadcast :: "switch_stp \<Rightarrow> switch_stp \<Rightarrow> (32 word \<Rightarrow> port \<Rightarrow> bool) \<Rightarrow> bool" where
  "same_but_broadcast sw sw' f = (map fst sw' = map fst sw \<and>
     (\<forall>n. map_of sw' n = map_option (\<lambda>p. p\<lparr>broadcast := f n p\<rparr>) (map_of sw n)))"

lemma map_fst_put: "k \<in> set (map fst xs) \<Longrightarrow> map fst (put k v xs) = map fst xs"
  by (induction xs) auto

lemma reset_broadcast_eq:
  assumes "switch_ok sw"
  shows "\<exists>sw'. reset_broadcast sw = Inr sw' \<and> same_but_broadcast sw sw' (\<lambda>n p. broadcast p \<and> \<not> to_switch p)"
proof -
  have "\<exists>sw'. rfold (\<lambda>(k, p) s. if to_switch p then unset_broadcast (port_no p) s else Inr s) xs s = Inr sw' \<and>
      map fst sw' = map fst s \<and> (\<forall>n. map_of sw' n = (case map_of s n of None \<Rightarrow> None
        | Some p \<Rightarrow> Some (if n \<in> fst ` set (filter (\<lambda>x. to_switch (snd x)) xs) then p\<lparr>broadcast := False\<rparr> else p)))"
    if "set xs \<subseteq> set sw" "map fst s = map fst sw" for xs s
    using that
  proof (induction xs arbitrary: s)
    case Nil
    then show ?case by (auto split: option.split)
  next
    case (Cons x xs)
    obtain k p where x: "x = (k, p)" by (cases x)
    have k: "map_of sw k = Some p" using Cons.prems(1) assms x by (auto simp: switch_ok_def)
    then have no: "port_no p = k" using switch_okD [OF assms] by blast
    have "k \<in> set (map fst sw)" using Cons.prems(1) x by force
    then have ks: "k \<in> set (map fst s)" using Cons.prems(2) by simp
    then obtain q where q: "map_of s k = Some q" using map_of_eq_None_iff [of s k] by (cases "map_of s k") auto
    show ?case
    proof (cases "to_switch p")
      case False
      then have "set (filter (\<lambda>x. to_switch (snd x)) (x # xs)) = set (filter (\<lambda>x. to_switch (snd x)) xs)" by (simp add: x)
      moreover have "set xs \<subseteq> set sw" using Cons.prems(1) by simp
      ultimately show ?thesis using Cons.IH [OF _ Cons.prems(2)] False by (simp only: x rfold.simps prod.case if_False rbind_simps)
    next
      case True
      let ?s = "put k (q\<lparr>broadcast := False\<rparr>) s"
      have "map fst ?s = map fst sw" by (rule trans [OF map_fst_put [OF ks] Cons.prems(2)])
      with Cons.IH [of ?s] Cons.prems(1) obtain sw' where
        "rfold (\<lambda>(k, p) s. if to_switch p then unset_broadcast (port_no p) s else Inr s) xs ?s = Inr sw'"
        "map fst sw' = map fst ?s" "\<forall>n. map_of sw' n = (case map_of ?s n of None \<Rightarrow> None
          | Some p \<Rightarrow> Some (if n \<in> fst ` set (filter (\<lambda>x. to_switch (snd x)) xs) then p\<lparr>broadcast := False\<rparr> else p))"
        by auto
      then show ?thesis using True x no q \<open>map fst ?s = map fst sw\<close> Cons.prems(2)
        by (auto simp: unset_broadcast_def update_port_def split: option.splits)
    qed
  qed
  from this [of sw sw] obtain sw' where r: "reset_broadcast sw = Inr sw'" "map fst sw' = map fst sw"
    and m: "\<forall>n. map_of sw' n = (case map_of sw n of None \<Rightarrow> None
        | Some p \<Rightarrow> Some (if n \<in> fst ` set (filter (\<lambda>x. to_switch (snd x)) sw) then p\<lparr>broadcast := False\<rparr> else p))"
    by (auto simp: reset_broadcast_def)
  have "n \<in> fst ` set (filter (\<lambda>x. to_switch (snd x)) sw) \<longleftrightarrow> to_switch p" if "map_of sw n = Some p" for n p
  proof
    assume "n \<in> fst ` set (filter (\<lambda>x. to_switch (snd x)) sw)"
    then obtain q where "(n, q) \<in> set sw" "to_switch q" by auto
    moreover from this have "map_of sw n = Some q" using assms by (simp add: switch_ok_def)
    ultimately show "to_switch p" using that by simp
  next
    assume "to_switch p"
    then show "n \<in> fst ` set (filter (\<lambda>x. to_switch (snd x)) sw)" using map_of_SomeD [OF that] by force
  qed
  with m have "same_but_broadcast sw sw' (\<lambda>n p. broadcast p \<and> \<not> to_switch p)"
    using r(2) by (auto simp: same_but_broadcast_def split: option.splits)
  with r(1) show ?thesis by blast
qed

lemma enable_ports_eq:
  "\<exists>sw'. rfold (\<lambda>n s. if exists_port s n then set_broadcast n s else Inr s) ns sw = Inr sw' \<and>
    same_but_broadcast sw sw' (\<lambda>n p. broadcast p \<or> n \<in> set ns)"
proof (induction ns arbitrary: sw)
  case Nil
  have "p\<lparr>broadcast := broadcast p\<rparr> = p" for p :: port by simp
  then have "same_but_broadcast sw sw (\<lambda>n p. broadcast p)"
    by (auto simp: same_but_broadcast_def split: option.split intro: option.map_ident_strong [symmetric])
  then show ?case by simp
next
  case (Cons a ns)
  show ?case
  proof (cases "map_of sw a")
    case None
    then have "exists_port sw a = False" by (simp add: exists_port_def)
    moreover obtain sw' where sw': "rfold (\<lambda>n s. if exists_port s n then set_broadcast n s else Inr s) ns sw = Inr sw'"
      "same_but_broadcast sw sw' (\<lambda>n p. broadcast p \<or> n \<in> set ns)" using Cons by blast
    moreover have "same_but_broadcast sw sw' (\<lambda>n p. broadcast p \<or> n \<in> set (a # ns))"
      unfolding same_but_broadcast_def
    proof (intro conjI allI)
      show "map fst sw' = map fst sw" using sw'(2) by (simp add: same_but_broadcast_def)
      fix n
      show "map_of sw' n = map_option (\<lambda>p. p\<lparr>broadcast := broadcast p \<or> n \<in> set (a # ns)\<rparr>) (map_of sw n)"
        using sw'(2) None by (cases "n = a") (auto simp: same_but_broadcast_def)
    qed
    ultimately show ?thesis by simp
  next
    case (Some q)
    let ?s = "put a (q\<lparr>broadcast := True\<rparr>) sw"
    obtain sw' where sw': "rfold (\<lambda>n s. if exists_port s n then set_broadcast n s else Inr s) ns ?s = Inr sw'"
      "same_but_broadcast ?s sw' (\<lambda>n p. broadcast p \<or> n \<in> set ns)" using Cons by blast
    have "a \<in> set (map fst sw)" using Some by (force dest: map_of_SomeD)
    then have "same_but_broadcast sw sw' (\<lambda>n p. broadcast p \<or> n \<in> set (a # ns))"
      using sw'(2) Some map_fst_put [of a sw] by (auto simp: same_but_broadcast_def intro!: option.map_cong0)
    then show ?thesis using sw'(1) Some by (simp add: exists_port_def set_broadcast_def update_port_def)
  qed
qed

lemma same_but_broadcast_ok:
  assumes "switch_ok sw" "same_but_broadcast sw sw' f" "\<And>n p. map_of sw n = Some p \<Longrightarrow> f n p \<or> to_switch p"
  shows "switch_ok sw'"
  using assms by (fastforce simp: switch_ok_def same_but_broadcast_def)

text \<open>A change of the switches that are there.\<close>

definition switches_changed :: "(64 word \<Rightarrow> switch_stp \<Rightarrow> switch_stp \<Rightarrow> bool) \<Rightarrow> stp \<Rightarrow> stp \<Rightarrow> bool" where
  "switches_changed R st st' = (map fst (switch_list st') = map fst (switch_list st) \<and>
     (\<forall>d. case map_of (switch_list st) d of
        Some (Some sw) \<Rightarrow> (\<exists>sw'. map_of (switch_list st') d = Some (Some sw') \<and> R d sw sw')
      | _ \<Rightarrow> map_of (switch_list st') d = map_of (switch_list st) d))"

lemma switches_changedD:
  "switches_changed R st st' \<Longrightarrow> map_of (switch_list st) d = Some (Some sw) \<Longrightarrow>
    \<exists>sw'. map_of (switch_list st') d = Some (Some sw') \<and> R d sw sw'"
  "switches_changed R st st' \<Longrightarrow> map_of (switch_list st) d = None \<Longrightarrow> map_of (switch_list st') d = None"
  unfolding switches_changed_def by (drule conjunct2, drule spec [of _ d], simp)+

lemma switches_changed_cong:
  assumes "switches_changed R a b" "switch_list b' = switch_list b"
  shows "switches_changed R a b'"
  using assms(1) unfolding switches_changed_def assms(2) .

lemma switches_changed_ok:
  assumes "stp_ok st" "switches_changed R st st'" "\<And>d sw sw'. R d sw sw' \<Longrightarrow> switch_ok sw \<Longrightarrow> switch_ok sw'"
  shows "stp_ok st'"
proof -
  have "\<exists>sw'. x = Some sw' \<and> switch_ok sw'" if x: "map_of (switch_list st') d = Some x" for d x
  proof (cases "map_of (switch_list st) d")
    case None
    then show ?thesis using switches_changedD(2) [OF assms(2)] x by simp
  next
    case (Some y)
    then obtain sw where "map_of (switch_list st) d = Some (Some sw)" "switch_ok sw" using stp_okD [OF assms(1)] by blast
    moreover from this obtain sw' where "map_of (switch_list st') d = Some (Some sw')" "R d sw sw'"
      using switches_changedD(1) [OF assms(2)] by blast
    ultimately show ?thesis using x assms(3) by simp
  qed
  then show ?thesis using assms(1,2) by (simp add: stp_ok_def switches_changed_def)
qed

lemma reset_all_eq:
  assumes "stp_ok st"
  shows "\<exists>st'. reset_all st = Inr st' \<and> computed st' = computed st \<and>
    switches_changed (\<lambda>d sw sw'. same_but_broadcast sw sw' (\<lambda>n p. broadcast p \<and> \<not> to_switch p)) st st'"
proof -
  let ?f = "\<lambda>(d, p) s. rbind (deref p) (\<lambda>sw. rbind (reset_broadcast sw) (\<lambda>sw'.
     Inr (s\<lparr>switch_list := put d (Some sw') (switch_list s)\<rparr>)))"
  let ?R = "\<lambda>sw sw'. same_but_broadcast sw sw' (\<lambda>n p. broadcast p \<and> \<not> to_switch p)"
  have "\<exists>st'. rfold ?f xs s = Inr st' \<and> computed st' = computed s \<and>
      map fst (switch_list st') = map fst (switch_list s) \<and>
      (\<forall>d. if d \<in> fst ` set xs then (\<exists>sw sw'. map_of (switch_list st) d = Some (Some sw) \<and>
             map_of (switch_list st') d = Some (Some sw') \<and> ?R sw sw')
           else map_of (switch_list st') d = map_of (switch_list s) d)"
    if "set xs \<subseteq> set (switch_list st)" "distinct (map fst xs)" "map fst (switch_list s) = map fst (switch_list st)" for xs s
    using that
  proof (induction xs arbitrary: s)
    case (Cons x xs)
    obtain d p where x: "x = (d, p)" by (cases x)
    have "map_of (switch_list st) d = Some p" using Cons.prems(1) assms x by (auto simp: stp_ok_def)
    then obtain sw where sw: "p = Some sw" "map_of (switch_list st) d = Some (Some sw)" "switch_ok sw"
      using stp_okD [OF assms] by blast
    obtain sw' where sw': "reset_broadcast sw = Inr sw'" "?R sw sw'" using reset_broadcast_eq [OF sw(3)] by blast
    let ?s = "s\<lparr>switch_list := put d (Some sw') (switch_list s)\<rparr>"
    have d: "d \<in> set (map fst (switch_list s))" using Cons.prems(1,3) x by force
    have m: "map fst (switch_list ?s) = map fst (switch_list st)"
      using map_fst_put [OF d, of "Some sw'"] Cons.prems(3) by simp
    obtain st' where st': "rfold ?f xs ?s = Inr st'" "computed st' = computed ?s"
      "map fst (switch_list st') = map fst (switch_list ?s)"
      "\<forall>e. if e \<in> fst ` set xs then (\<exists>sw sw'. map_of (switch_list st) e = Some (Some sw) \<and>
             map_of (switch_list st') e = Some (Some sw') \<and> ?R sw sw')
           else map_of (switch_list st') e = map_of (switch_list ?s) e"
      using Cons.IH [OF _ _ m] Cons.prems(1,2) by auto
    have "d \<notin> fst ` set xs" using Cons.prems(2) x by simp
    then have dd: "map_of (switch_list st') d = Some (Some sw')" using st'(4) by (auto dest: spec [of _ d])
    have C: "if e \<in> fst ` set (x # xs) then (\<exists>sw sw'. map_of (switch_list st) e = Some (Some sw) \<and>
             map_of (switch_list st') e = Some (Some sw') \<and> ?R sw sw')
           else map_of (switch_list st') e = map_of (switch_list s) e" for e
    proof (cases "e = d")
      case True
      then show ?thesis using dd sw(2) sw'(2) x by simp
    next
      case False
      then have "e \<in> fst ` set (x # xs) \<longleftrightarrow> e \<in> fst ` set xs" "map_of (switch_list ?s) e = map_of (switch_list s) e"
        by (simp_all add: x)
      then show ?thesis using st'(4) [rule_format, of e] by (simp only:)
    qed
    have A: "rfold ?f (x # xs) s = Inr st'" using st'(1) by (simp add: x sw(1) deref_def sw'(1))
    have B: "map fst (switch_list st') = map fst (switch_list s)" using st'(3) m Cons.prems(3) by simp
    show ?case by (rule exI [of _ st'], intro conjI allI) (rule A, simp add: st'(2), rule B, rule C)
  qed simp
  from this [of "switch_list st" st] obtain st' where st': "reset_all st = Inr st'" "computed st' = computed st"
    "map fst (switch_list st') = map fst (switch_list st)"
    "\<And>d. if d \<in> fst ` set (switch_list st) then (\<exists>sw sw'. map_of (switch_list st) d = Some (Some sw) \<and>
             map_of (switch_list st') d = Some (Some sw') \<and> ?R sw sw')
           else map_of (switch_list st') d = map_of (switch_list st) d"
    using assms by (auto simp: reset_all_def stp_ok_def)
  have "switches_changed (\<lambda>d. ?R) st st'"
    unfolding switches_changed_def
  proof (intro conjI allI st'(3))
    fix d
    show "case map_of (switch_list st) d of
        Some (Some sw) \<Rightarrow> (\<exists>sw'. map_of (switch_list st') d = Some (Some sw') \<and> ?R sw sw')
      | _ \<Rightarrow> map_of (switch_list st') d = map_of (switch_list st) d"
    proof (cases "map_of (switch_list st) d")
      case None
      then have "d \<notin> fst ` set (switch_list st)" by (simp add: map_of_eq_None_iff)
      with st'(4) [of d] None show ?thesis by simp
    next
      case (Some y)
      then have "d \<in> fst ` set (switch_list st)" by (force dest: map_of_SomeD)
      with st'(4) [of d] Some show ?thesis by auto
    qed
  qed
  with st'(1,2) show ?thesis by blast
qed

text \<open>Enabling the tree ports of the switches, one after the other.\<close>

lemma enable_switch_eq:
  assumes "stp_ok st"
  shows "if has_switch d st then (\<exists>st'. enable_switch (d, ns) st = Inr st' \<and> computed st' = computed st \<and>
      switches_changed (\<lambda>e sw sw'. same_but_broadcast sw sw' (\<lambda>n p. broadcast p \<or> e = d \<and> n \<in> set ns)) st st')
    else enable_switch (d, ns) st = Inl Nullptr_dereference"
proof (cases "map_of (switch_list st) d")
  case None
  then show ?thesis by (simp add: has_switch_def enable_switch_def Let_def)
next
  case (Some y)
  then obtain sw where sw: "map_of (switch_list st) d = Some (Some sw)" using stp_okD [OF assms] by blast
  obtain sw' where sw': "rfold (\<lambda>n s. if exists_port s n then set_broadcast n s else Inr s) ns sw = Inr sw'"
    "same_but_broadcast sw sw' (\<lambda>n p. broadcast p \<or> n \<in> set ns)" using enable_ports_eq by blast
  let ?st = "send_group d Group_modify (enabled_ports sw') (st\<lparr>switch_list := put d (Some sw') (switch_list st)\<rparr>)"
  have e: "enable_switch (d, ns) st = Inr ?st"
    using sw sw'(1) by (simp add: enable_switch_def has_switch_def update_group_def Let_def)
  have "d \<in> set (map fst (switch_list st))" using sw by (force dest: map_of_SomeD)
  then have "map fst (switch_list ?st) = map fst (switch_list st)"
    using map_fst_put by (fastforce simp: send_group_def)
  moreover have "same_but_broadcast s s (\<lambda>n p. broadcast p)" for s
    by (auto simp: same_but_broadcast_def split: option.splits intro: option.map_ident_strong [symmetric])
  ultimately have "switches_changed (\<lambda>e sw sw'. same_but_broadcast sw sw' (\<lambda>n p. broadcast p \<or> e = d \<and> n \<in> set ns)) st ?st"
    using sw sw'(2) by (auto simp: switches_changed_def send_group_def split: option.splits)
  with e sw show ?thesis by (auto simp: has_switch_def send_group_def)
qed

lemma same_but_broadcast_trans:
  assumes "same_but_broadcast a b (\<lambda>n p. broadcast p \<or> P n)" "same_but_broadcast b c (\<lambda>n p. broadcast p \<or> Q n)"
  shows "same_but_broadcast a c (\<lambda>n p. broadcast p \<or> P n \<or> Q n)"
  using assms by (simp add: same_but_broadcast_def option.map_comp comp_def disj_assoc)

lemma switches_changed_trans:
  assumes "switches_changed R a b" "switches_changed S b c" "\<And>d x y z. R d x y \<Longrightarrow> S d y z \<Longrightarrow> U d x z"
  shows "switches_changed U a c"
  unfolding switches_changed_def
proof (intro conjI allI)
  show "map fst (switch_list c) = map fst (switch_list a)" using assms by (simp add: switches_changed_def)
  fix d
  have ab: "case map_of (switch_list a) d of Some (Some sw) \<Rightarrow> \<exists>sw'. map_of (switch_list b) d = Some (Some sw') \<and> R d sw sw'
      | _ \<Rightarrow> map_of (switch_list b) d = map_of (switch_list a) d"
    and bc: "case map_of (switch_list b) d of Some (Some sw) \<Rightarrow> \<exists>sw'. map_of (switch_list c) d = Some (Some sw') \<and> S d sw sw'
      | _ \<Rightarrow> map_of (switch_list c) d = map_of (switch_list b) d"
    using assms(1,2) unfolding switches_changed_def by blast+
  show "case map_of (switch_list a) d of Some (Some sw) \<Rightarrow> \<exists>sw'. map_of (switch_list c) d = Some (Some sw') \<and> U d sw sw'
      | _ \<Rightarrow> map_of (switch_list c) d = map_of (switch_list a) d"
    using ab bc assms(3) by (auto split: option.splits) 
qed

lemma enable_ok: "switch_ok sw \<Longrightarrow> same_but_broadcast sw sw' (\<lambda>n p. broadcast p \<or> P n) \<Longrightarrow> switch_ok sw'"
  by (rule same_but_broadcast_ok, assumption, assumption) (use switch_okD in blast)

lemma has_switch_changed: "switches_changed R st st' \<Longrightarrow> has_switch d st' = has_switch d st"
  by (cases "map_of (switch_list st) d = None")
    (auto simp: has_switch_def map_of_eq_None_iff switches_changed_def simp flip: set_map)

lemma enable_all_eq:
  assumes "stp_ok st"
  shows "if list_all (\<lambda>x. has_switch (fst x) st) tr then (\<exists>st'. rfold enable_switch tr st = Inr st' \<and> computed st' = computed st \<and>
      switches_changed (\<lambda>d sw sw'. same_but_broadcast sw sw' (\<lambda>n p. broadcast p \<or> (\<exists>ns. (d, ns) \<in> set tr \<and> n \<in> set ns))) st st')
    else rfold enable_switch tr st = Inl Nullptr_dereference"
  using assms
proof (induction tr arbitrary: st)
  case Nil
  have "same_but_broadcast s s (\<lambda>n p. broadcast p)" for s
    by (auto simp: same_but_broadcast_def split: option.splits intro: option.map_ident_strong [symmetric])
  then show ?case by (auto simp: switches_changed_def split: option.splits)
next
  case (Cons x tr)
  obtain d ns where x: "x = (d, ns)" by (cases x)
  show ?case
  proof (cases "has_switch d st")
    case False
    then show ?thesis using enable_switch_eq [OF Cons.prems, of d ns] by (simp add: x)
  next
    case True
    then obtain st1 where st1: "enable_switch (d, ns) st = Inr st1" "computed st1 = computed st"
      "switches_changed (\<lambda>e sw sw'. same_but_broadcast sw sw' (\<lambda>n p. broadcast p \<or> e = d \<and> n \<in> set ns)) st st1"
      using enable_switch_eq [OF Cons.prems, of d ns] by auto
    have ok: "stp_ok st1" by (rule switches_changed_ok [OF Cons.prems st1(3)]) (rule enable_ok)
    have hs: "list_all (\<lambda>x. has_switch (fst x) st1) tr = list_all (\<lambda>x. has_switch (fst x) st) tr"
      using has_switch_changed [OF st1(3)] by (simp add: list_all_iff)
    have tr: "switches_changed (\<lambda>e sw sw'. same_but_broadcast sw sw'
        (\<lambda>n p. broadcast p \<or> (\<exists>ms. (e, ms) \<in> set (x # tr) \<and> n \<in> set ms))) st st2"
      if "switches_changed (\<lambda>e sw sw'. same_but_broadcast sw sw' (\<lambda>n p. broadcast p \<or> (\<exists>ms. (e, ms) \<in> set tr \<and> n \<in> set ms))) st1 st2" for st2
    proof (rule switches_changed_trans [OF st1(3) that])
      fix e a b c
      assume "same_but_broadcast a b (\<lambda>n p. broadcast p \<or> e = d \<and> n \<in> set ns)"
        "same_but_broadcast b c (\<lambda>n p. broadcast p \<or> (\<exists>ms. (e, ms) \<in> set tr \<and> n \<in> set ms))"
      from same_but_broadcast_trans [OF this]
      show "same_but_broadcast a c (\<lambda>n p. broadcast p \<or> (\<exists>ms. (e, ms) \<in> set (x # tr) \<and> n \<in> set ms))"
        by (rule back_subst [of "same_but_broadcast a c"]) (auto simp: x fun_eq_iff)
    qed
    show ?thesis using Cons.IH [OF ok] st1(1,2) True hs tr by (auto simp: x split: if_splits)
  qed
qed

definition tree_port :: "link_property list \<Rightarrow> 64 word \<Rightarrow> 32 word \<Rightarrow> bool" where
  "tree_port es d n = list_ex (\<lambda>e. lp_source e = sp d n \<or> lp_target e = sp d n) es"

definition tree_of :: "(64 word \<times> 32 word list) list \<Rightarrow> 64 word \<Rightarrow> 32 word \<Rightarrow> bool" where
  "tree_of tr d n = (\<exists>ns. map_of tr d = Some ns \<and> n \<in> set ns)"

lemma tree_add_of: "tree_of (tree_add a tr) d n \<longleftrightarrow> tree_of tr d n \<or> a = sp d n"
  by (cases a; cases "map_of tr (sp_dpid a)"; cases "sp_dpid a = d") (auto simp: tree_of_def tree_add_def)

lemma tree_add_keys: "fst ` set (tree_add a tr) = insert (sp_dpid a) (fst ` set tr)"
  using set_fst_put [of "sp_dpid a" _ tr] by (auto simp: tree_add_def simp flip: set_map)

lemma build_tree_props:
  "distinct (map fst (build_tree es))" "tree_of (build_tree es) d n \<longleftrightarrow> tree_port es d n"
  "fst ` set (build_tree es) = set (map (sp_dpid \<circ> lp_source) es) \<union> set (map (sp_dpid \<circ> lp_target) es)"
proof (induction es rule: rev_induct)
  case Nil
  { case 1 then show ?case by (simp add: build_tree_def) }
  { case 2 then show ?case by (simp add: build_tree_def tree_of_def tree_port_def) }
  { case 3 then show ?case by (simp add: build_tree_def) }
next
  case (snoc e es)
  have b: "build_tree (es @ [e]) = tree_add (lp_target e) (tree_add (lp_source e) (build_tree es))"
    by (simp add: build_tree_def)
  { case 1 then show ?case using snoc by (simp add: b tree_add_def distinct_put) }
  { case 2 then show ?case using snoc by (auto simp: b tree_add_of tree_port_def) }
  { case 3 then show ?case using snoc by (auto simp: b tree_add_keys) }
qed

lemma build_tree_member: "(\<exists>ns. (d, ns) \<in> set (build_tree es) \<and> n \<in> set ns) \<longleftrightarrow> tree_port es d n"
  using build_tree_props(1,2) [where es = es] by (auto simp: tree_of_def dest: map_of_SomeD intro: map_of_is_SomeI)

definition known_ends :: "link_property list \<Rightarrow> stp \<Rightarrow> bool" where
  "known_ends es st = list_all (\<lambda>e. has_switch (sp_dpid (lp_source e)) st \<and> has_switch (sp_dpid (lp_target e)) st) es"

lemma compute_eq:
  assumes "stp_ok st" "\<not> computed st"
  shows "if known_ends es st then (\<exists>st'. compute_spanning_tree es st = Inr st' \<and> computed st' \<and>
      switches_changed (\<lambda>d sw sw'. same_but_broadcast sw sw' (\<lambda>n p. broadcast p \<and> \<not> to_switch p \<or> tree_port es d n)) st st')
    else compute_spanning_tree es st = Inl Nullptr_dereference"
proof -
  obtain st1 where st1: "reset_all st = Inr st1"
    "switches_changed (\<lambda>d sw sw'. same_but_broadcast sw sw' (\<lambda>n p. broadcast p \<and> \<not> to_switch p)) st st1"
    using reset_all_eq [OF assms(1)] by blast
  let ?st2 = "st1\<lparr>spanning_tree := build_tree es\<rparr>"
  have ok1: "stp_ok ?st2"
    using switches_changed_ok [OF assms(1) st1(2)] same_but_broadcast_ok switch_okD by fastforce
  have hs: "has_switch d ?st2 = has_switch d st" for d
    using has_switch_changed [OF st1(2)] by (simp add: has_switch_def)
  have all: "list_all (\<lambda>x. has_switch (fst x) ?st2) (build_tree es) \<longleftrightarrow> known_ends es st"
  proof -
    have "list_all (\<lambda>x. has_switch (fst x) ?st2) (build_tree es) \<longleftrightarrow> (\<forall>d \<in> fst ` set (build_tree es). has_switch d st)"
      by (simp add: list_all_iff hs)
    then show ?thesis by (auto simp: build_tree_props(3) known_ends_def list_all_iff)
  qed
  note en = enable_all_eq [OF ok1, of "build_tree es", unfolded all build_tree_member]
  have tr: "switches_changed (\<lambda>d sw sw'. same_but_broadcast sw sw' (\<lambda>n p. broadcast p \<and> \<not> to_switch p \<or> tree_port es d n)) st st3"
    if "switches_changed (\<lambda>d sw sw'. same_but_broadcast sw sw' (\<lambda>n p. broadcast p \<or> tree_port es d n)) ?st2 st3" for st3
  proof (rule switches_changed_trans [OF _ that])
    show "switches_changed (\<lambda>d sw sw'. same_but_broadcast sw sw' (\<lambda>n p. broadcast p \<and> \<not> to_switch p)) st ?st2"
      by (rule switches_changed_cong [OF st1(2)]) simp
  qed (auto simp: same_but_broadcast_def option.map_comp comp_def)
  show ?thesis
  proof (cases "known_ends es st")
    case True
    with en obtain st3 where st3: "rfold enable_switch (build_tree es) ?st2 = Inr st3"
      "switches_changed (\<lambda>d sw sw'. same_but_broadcast sw sw' (\<lambda>n p. broadcast p \<or> tree_port es d n)) ?st2 st3" by auto
    then have "compute_spanning_tree es st = Inr (st3\<lparr>computed := True\<rparr>)"
      using assms(2) st1(1) by (simp add: compute_spanning_tree_def Let_def)
    moreover have "switches_changed (\<lambda>d sw sw'. same_but_broadcast sw sw' (\<lambda>n p. broadcast p \<and> \<not> to_switch p \<or> tree_port es d n)) st (st3\<lparr>computed := True\<rparr>)"
      by (rule switches_changed_cong [OF tr [OF st3(2)]]) simp
    ultimately show ?thesis using True by auto
  next
    case False
    with en show ?thesis using assms(2) st1(1) by (simp add: compute_spanning_tree_def Let_def)
  qed
qed

lemma stp_ok_compute:
  assumes "stp_ok st" "compute_spanning_tree es st = Inr st'"
  shows "stp_ok st'"
proof (cases "computed st")
  case True
  with assms show ?thesis by (simp add: compute_spanning_tree_def)
next
  case False
  from compute_eq [OF assms(1) False, of es] assms(2)
  have "switches_changed (\<lambda>d sw sw'. same_but_broadcast sw sw' (\<lambda>n p. broadcast p \<and> \<not> to_switch p \<or> tree_port es d n)) st st'"
    by (auto split: if_splits)
  from switches_changed_ok [OF assms(1) this] show ?thesis
    using same_but_broadcast_ok switch_okD by fastforce
qed

lemma stp_ok_down: "stp_ok st \<Longrightarrow> stp_ok (on_switch_down d st)"
proof -
  assume a: "stp_ok st"
  have "\<exists>sw. x = Some sw \<and> switch_ok sw" if "map_of (remove_key d (switch_list st)) e = Some x" for e x
    using that stp_okD [OF a, of e x] by (simp split: if_splits)
  then show ?thesis using a by (simp add: on_switch_down_def stp_ok_def distinct_remove_key del: map_of_eq_Some_iff)
qed

lemma stp_ok_step: "stp_step st st' \<Longrightarrow> stp_ok st \<Longrightarrow> stp_ok st'"
  by (induction rule: stp_step.induct)
    (auto simp: on_switch_discovered_def on_switch_up_stp_def on_link_broken_def
      intro: stp_ok_down stp_ok_new_switch stp_ok_port_up stp_ok_link stp_ok_compute)

lemma stp_reachable_ok: "stp_reachable st \<Longrightarrow> stp_ok st"
  by (induction rule: stp_reachable.induct) (simp add: stp_ok_def stp_init_def, erule stp_ok_step)

section \<open>What the policy floods\<close>

lemma enabled_ports_set:
  assumes "switch_ok sw"
  shows "set (enabled_ports sw) = {n. \<exists>p. map_of sw n = Some p \<and> broadcast p}" "distinct (enabled_ports sw)"
proof -
  have key: "port_no p = k" if "(k, p) \<in> set sw" for k p
    using that assms by (auto simp: switch_ok_def)
  then have e: "enabled_ports sw = map fst (filter (\<lambda>x. broadcast (snd x)) sw)"
    by (auto simp: enabled_ports_def case_prod_unfold)
  show "set (enabled_ports sw) = {n. \<exists>p. map_of sw n = Some p \<and> broadcast p}"
    using assms by (force simp: e switch_ok_def dest: map_of_SomeD)
  show "distinct (enabled_ports sw)"
    using assms by (simp add: e switch_ok_def distinct_map_filter)
qed

lemma sem_flood_switch:
  assumes "located p a" "distinct ports"
  shows "sem fs_test fs_modify (flood_switch ports) p =
    (if sp_port a \<in> set ports then sent_out p (filter (\<lambda>o'. o' \<noteq> sp_port a) ports) else {#})"
proof -
  have "sem fs_test fs_modify (policy_seq (Filter (port_is i)) (spawn ports i)) p =
      (if i = sp_port a then sent_out p (filter (\<lambda>o'. o' \<noteq> sp_port a) ports) else {#})" for i
    unfolding policy_seq_def sem_filter_seq located_test(2) [OF assms(1)] by (simp add: spawn_def sem_fwd_sum)
  then show ?thesis
    unfolding flood_switch_def sem_policy_sum
    using sum_list_single [OF assms(2), of "sp_port a" "\<lambda>i. if i = sp_port a then sent_out p (filter (\<lambda>o'. o' \<noteq> sp_port a) ports) else {#}"]
    by simp
qed

definition flood_of :: "stp \<Rightarrow> switch_and_port \<Rightarrow> 32 word list" where
  "flood_of st a = (case map_of (switch_list st) (sp_dpid a) of
     Some (Some sw) \<Rightarrow> (if sp_port a \<in> set (enabled_ports sw) then filter (\<lambda>o'. o' \<noteq> sp_port a) (enabled_ports sw) else [])
   | _ \<Rightarrow> [])"

definition switch_ports :: "stp \<Rightarrow> (64 word \<times> 32 word list) list" where
  "switch_ports st = map (\<lambda>(d, x). (d, case x of None \<Rightarrow> [] | Some sw \<Rightarrow> enabled_ports sw)) (switch_list st)"

lemma broadcast_policy_eq:
  assumes "stp_ok st"
  shows "broadcast_policy st =
    Inr (policy_sum (\<lambda>(d, ports). policy_seq (Filter (switch_id_is d)) (flood_switch ports)) (switch_ports st))"
proof -
  have "rmap (\<lambda>(d, p). rbind (deref p) (\<lambda>sw. Inr (d, enabled_ports sw))) (switch_list st) =
      Inr (map (\<lambda>(d, x). (d, case x of None \<Rightarrow> [] | Some sw \<Rightarrow> enabled_ports sw)) (switch_list st))"
  proof (rule rmap_total)
    fix x assume "x \<in> set (switch_list st)"
    moreover obtain d y where "x = (d, y)" by (cases x)
    ultimately have x: "x = (d, y)" "map_of (switch_list st) d = Some y"
      using assms map_of_is_SomeI [of "switch_list st" d y] by (simp_all add: stp_ok_def)
    then obtain sw where "y = Some sw" using stp_okD [OF assms] by blast
    then show "(case x of (d, p) \<Rightarrow> rbind (deref p) (\<lambda>sw. Inr (d, enabled_ports sw))) =
        Inr (case x of (d, x) \<Rightarrow> (d, case x of None \<Rightarrow> [] | Some sw \<Rightarrow> enabled_ports sw))"
      by (simp add: x deref_def)
  qed
  then show ?thesis by (simp add: broadcast_policy_def switch_ports_def)
qed

lemma sem_broadcast:
  assumes "stp_ok st" "located p a"
  shows "sem fs_test fs_modify
    (policy_sum (\<lambda>(d, ports). policy_seq (Filter (switch_id_is d)) (flood_switch ports)) (switch_ports st)) p =
    sent_out p (flood_of st a)"
proof -
  let ?xs = "switch_ports st" and ?d = "sp_dpid a"
  let ?f = "\<lambda>x. if fst x = ?d then sem fs_test fs_modify (flood_switch (snd x)) p else {#}"
  have "sem fs_test fs_modify (case x of (d, ports) \<Rightarrow> policy_seq (Filter (switch_id_is d)) (flood_switch ports)) p = ?f x" for x
    by (cases x) (simp only: prod.case policy_seq_def sem_filter_seq located_test(1) [OF assms(2)] fst_conv snd_conv)
  then have s: "sem fs_test fs_modify
      (policy_sum (\<lambda>(d, ports). policy_seq (Filter (switch_id_is d)) (flood_switch ports)) ?xs) p = (\<Sum>x \<leftarrow> ?xs. ?f x)"
    unfolding sem_policy_sum by simp
  have "map fst ?xs = map fst (switch_list st)" by (simp add: switch_ports_def case_prod_unfold comp_def)
  then have dist: "distinct (map fst ?xs)" using assms(1) by (simp add: stp_ok_def)
  have one: "(\<Sum>x \<leftarrow> xs. if fst x = ?d then g (snd x) else {#}) = (case map_of xs ?d of None \<Rightarrow> {#} | Some y \<Rightarrow> g y)"
    if "distinct (map fst xs)" for xs :: "(64 word \<times> 32 word list) list" and g :: "_ \<Rightarrow> 'c multiset"
    using that
  proof (induction xs)
    case (Cons x xs)
    have "map_of xs ?d = None" if "fst x = ?d" using Cons.prems that by (auto simp: map_of_eq_None_iff)
    then show ?case using Cons by (cases x) auto
  qed simp
  have m: "map_of ?xs ?d = map_option (\<lambda>x. case x of None \<Rightarrow> [] | Some sw \<Rightarrow> enabled_ports sw) (map_of (switch_list st) ?d)"
    by (simp add: switch_ports_def map_of_map)
  have s1: "(\<Sum>x \<leftarrow> ?xs. ?f x) = (case map_of ?xs ?d of None \<Rightarrow> {#} | Some y \<Rightarrow> sem fs_test fs_modify (flood_switch y) p)"
    by (rule one [OF dist])
  show ?thesis
  proof (cases "map_of (switch_list st) ?d")
    case None
    then show ?thesis unfolding s s1 m by (simp add: flood_of_def sent_out_def)
  next
    case (Some y)
    then obtain sw where sw: "map_of (switch_list st) ?d = Some (Some sw)" "switch_ok sw"
      using stp_okD [OF assms(1)] by blast
    show ?thesis unfolding s s1 m
      using sw enabled_ports_set(2) [OF sw(2)] by (simp add: sem_flood_switch [OF assms(2)] flood_of_def sent_out_def)
  qed
qed

section \<open>Properties\<close>

text \<open>
  C8: flooding. In every reachable state the flooding policy exists, and it sends a packet that came in by a port
  taking part in floods to all other such ports of its switch, once each, and any other packet nowhere.
\<close>

theorem broadcast_policy_floods:
  assumes "stp_reachable st" "located p a"
  shows "\<exists>pol. broadcast_policy st = Inr pol \<and> sem fs_test fs_modify pol p =
    (case map_of (switch_list st) (sp_dpid a) of
       Some (Some sw) \<Rightarrow> if sp_port a \<in> set (enabled_ports sw)
         then sent_out p (filter (\<lambda>o'. o' \<noteq> sp_port a) (enabled_ports sw)) else {#}
     | _ \<Rightarrow> {#})"
  using broadcast_policy_eq [OF stp_reachable_ok [OF assms(1)]] sem_broadcast [OF stp_reachable_ok [OF assms(1)] assms(2)]
  by (auto simp: flood_of_def sent_out_def split: option.split)

text \<open>A switch with three ports of which the third leads to another switch.\<close>

definition sample_events :: "stp res" where
  "sample_events = rbind (on_port_up 1 1 (on_switch_discovered 2 (on_switch_discovered 1 stp_init))) (\<lambda>s1.
     rbind (on_port_up 1 2 s1) (\<lambda>s2. on_link_discovered (sp 1 3) (sp 2 1) s2))"

definition sample_edge :: link_property where
  "sample_edge = \<lparr>lp_source = sp 1 3, lp_target = sp 2 1, lp_weight = 1\<rparr>"

definition sample_ports :: switch_stp where
  "sample_ports = [(1, new_port 1), (2, new_port 2),
     (3, \<lparr>port_no = 3, broadcast = False, to_switch = True, next_switch = Some 2\<rparr>)]"

lemma sample_run:
  "case sample_events of Inl e \<Rightarrow> False | Inr st \<Rightarrow> \<not> computed st \<and> known_ends [sample_edge] st \<and>
     map_of (switch_list st) 1 = Some (Some sample_ports)"
  by code_simp

lemma sample_stp:
  obtains st where "stp_reachable st" "\<not> computed st" "known_ends [sample_edge] st"
    "map_of (switch_list st) 1 = Some (Some sample_ports)"
proof -
  have r0: "stp_reachable (on_switch_discovered 2 (on_switch_discovered 1 stp_init))"
    by (rule stp_reachable.step [OF stp_reachable.step [OF stp_reachable.init stp_step.discovered] stp_step.discovered])
  obtain st where st: "sample_events = Inr st" using sample_run by (auto split: sum.splits)
  then obtain s1 s2 where "on_port_up 1 1 (on_switch_discovered 2 (on_switch_discovered 1 stp_init)) = Inr s1"
    "on_port_up 1 2 s1 = Inr s2" "on_link_discovered (sp 1 3) (sp 2 1) s2 = Inr st"
    unfolding sample_events_def rbind_eq_Inr by blast
  then have r: "stp_reachable st" using r0 by (metis stp_reachable.step stp_step.port_up stp_step.link)
  have "\<not> computed st \<and> known_ends [sample_edge] st \<and> map_of (switch_list st) 1 = Some (Some sample_ports)"
    using sample_run unfolding st sum.case .
  then show thesis using that [OF r] by blast
qed

theorem broadcast_policy_floods_witness:
  "\<exists>st pol. stp_reachable st \<and> broadcast_policy st = Inr pol \<and>
     sem fs_test fs_modify pol (arrive zero_packet (sp 1 1)) = sent_out (arrive zero_packet (sp 1 1)) [2]"
proof -
  obtain st where st: "stp_reachable st" "map_of (switch_list st) 1 = Some (Some sample_ports)"
    using sample_stp by blast
  have "enabled_ports sample_ports = [1, 2]" by code_simp
  then show ?thesis
    using broadcast_policy_floods [OF st(1) located_arrive [OF full_zero_packet], of "sp 1 1"] st by auto
qed

text \<open>
  C23: the spanning tree decides the ports. Recomputing the tree fails, with a null dereference, exactly when the graph
  still has an edge to a switch that is gone. Otherwise the ports that take part in floods are then the ports to hosts
  and, of the ports to switches, those at an end of a tree edge.
\<close>

theorem spanning_tree_decides_ports:
  assumes "stp_reachable st" "\<not> computed st"
  shows "(\<not> known_ends es st \<longrightarrow> compute_spanning_tree es st = Inl Nullptr_dereference) \<and>
    (known_ends es st \<longrightarrow> (\<exists>st'. compute_spanning_tree es st = Inr st' \<and> computed st' \<and>
       (\<forall>d sw. map_of (switch_list st) d = Some (Some sw) \<longrightarrow>
          (\<exists>sw'. map_of (switch_list st') d = Some (Some sw') \<and> distinct (enabled_ports sw') \<and>
             set (enabled_ports sw') = {n. \<exists>p. map_of sw n = Some p \<and> (\<not> to_switch p \<or> tree_port es d n)}))))"
proof -
  have ok: "stp_ok st" by (rule stp_reachable_ok [OF assms(1)])
  have "\<exists>sw'. map_of (switch_list st') d = Some (Some sw') \<and> distinct (enabled_ports sw') \<and>
      set (enabled_ports sw') = {n. \<exists>p. map_of sw n = Some p \<and> (\<not> to_switch p \<or> tree_port es d n)}"
    if c: "compute_spanning_tree es st = Inr st'" and d: "map_of (switch_list st) d = Some (Some sw)"
      and ch: "switches_changed (\<lambda>d sw sw'. same_but_broadcast sw sw' (\<lambda>n p. broadcast p \<and> \<not> to_switch p \<or> tree_port es d n)) st st'"
    for st' d sw
  proof -
    obtain sw' where sw': "map_of (switch_list st') d = Some (Some sw')"
      "same_but_broadcast sw sw' (\<lambda>n p. broadcast p \<and> \<not> to_switch p \<or> tree_port es d n)"
      using switches_changedD(1) [OF ch d] by blast
    have ok': "switch_ok sw'" using stp_okD [OF stp_ok_compute [OF ok c] sw'(1)] by simp
    have sw: "switch_ok sw" using stp_okD [OF ok d] by simp
    have "set (enabled_ports sw') = {n. \<exists>p. map_of sw n = Some p \<and> (\<not> to_switch p \<or> tree_port es d n)}"
      using sw'(2) switch_okD [OF sw] by (fastforce simp: enabled_ports_set(1) [OF ok'] same_but_broadcast_def)
    with sw'(1) enabled_ports_set(2) [OF ok'] show ?thesis by blast
  qed
  with compute_eq [OF ok assms(2), of es] show ?thesis by (auto split: if_splits)
qed

theorem spanning_tree_decides_ports_witness:
  "\<exists>st st' sw'. stp_reachable st \<and> compute_spanning_tree [sample_edge] st = Inr st' \<and>
     map_of (switch_list st') 1 = Some (Some sw') \<and> set (enabled_ports sw') = {1, 2, 3}"
proof -
  obtain st where st: "stp_reachable st" "\<not> computed st" "known_ends [sample_edge] st"
    "map_of (switch_list st) 1 = Some (Some sample_ports)"
    using sample_stp by blast
  obtain st' sw' where s: "compute_spanning_tree [sample_edge] st = Inr st'" "map_of (switch_list st') 1 = Some (Some sw')"
    "set (enabled_ports sw') = {n. \<exists>p. map_of sample_ports n = Some p \<and> (\<not> to_switch p \<or> tree_port [sample_edge] 1 n)}"
    using spanning_tree_decides_ports [OF st(1,2), of "[sample_edge]"] st(3,4) by blast
  have "{n. \<exists>p. map_of sample_ports n = Some p \<and> (\<not> to_switch p \<or> tree_port [sample_edge] 1 n)} = {1, 2, 3}"
    by (auto simp: sample_ports_def new_port_def tree_port_def sample_edge_def split: if_splits)
  with s st(1) show ?thesis by auto
qed

end
