(* ===== verification/Learning_Switch.thy ===== *)
theory Learning_Switch
  imports Spanning_Tree
begin

text \<open>
  Forwarding between hosts, \<^verbatim>\<open>src/LearningSwitch.cc\<close>: the database of hosts, the policy of a
  route, and the packet handler. The main result follows a packet through the network: the policy
  of a computed route takes it from its source port along the cables to the port of its target.
\<close>

section \<open>Hosts\<close>

type_synonym hosts_database = "48 word \<rightharpoonup> switch_and_port"

definition learn :: "64 word \<Rightarrow> 32 word \<Rightarrow> 48 word \<Rightarrow> hosts_database \<Rightarrow> hosts_database" where
  "learn d i mac db = (if mac = - 1 then db
     else case db mac of None \<Rightarrow> db(mac \<mapsto> sp d i) | Some _ \<Rightarrow> db)"

definition query :: "48 word \<Rightarrow> hosts_database \<Rightarrow> switch_and_port option" where
  "query mac db = db mac"

section \<open>Routes\<close>

text \<open>The loop of \<open>route_policy\<close>; a route of odd length is rejected before it.\<close>

fun route_terms :: "switch_and_port list \<Rightarrow> policy list res" where
  "route_terms (a # b # r) =
     (if sp_dpid a \<noteq> sp_dpid b then Inl Invalid_argument
      else rbind (route_terms r) (\<lambda>ts. Inr (policy_seq (policy_seq (Filter (switch_id_is (sp_dpid a)))
        (Filter (port_is (sp_port a)))) (fwd (sp_port b)) # ts)))"
| "route_terms r = Inr []"

definition route_policy :: "switch_and_port list \<Rightarrow> policy res" where
  "route_policy r = (if length r mod 2 \<noteq> 0 then Inl Invalid_argument
     else rbind (route_terms r) (\<lambda>ts. Inr (foldl policy_plus Stop ts)))"

text \<open>The route of the Maple version: the ports by which it enters and leaves each switch.\<close>

fun route_ports :: "switch_and_port list \<Rightarrow> (64 word \<rightharpoonup> 32 word \<times> 32 word) \<Rightarrow> (64 word \<rightharpoonup> 32 word \<times> 32 word) res" where
  "route_ports (a # b # r) m = (if sp_dpid a \<noteq> sp_dpid b then Inl Invalid_argument
     else route_ports r (m(sp_dpid a \<mapsto> (sp_port a, sp_port b))))"
| "route_ports r m = Inr m"

definition make_route :: "switch_and_port list \<Rightarrow> (64 word \<rightharpoonup> 32 word \<times> 32 word) res" where
  "make_route r = (if length r mod 2 \<noteq> 0 then Inl Invalid_argument else route_ports r Map.empty)"

section \<open>The handler\<close>

record network =
  n_db :: hosts_database
  n_topology :: topology
  n_stp :: stp

text \<open>
  The handler on a packet with these headers. Only the two addresses are traced, so the policy
  may depend on them alone; the place the packet came from goes into the database. The route to
  compute may not end (\<open>None\<close>); \<open>pred\<close> is the shortest-path tree of the graph library.
\<close>

definition forward :: "(graph \<Rightarrow> 64 word \<Rightarrow> 64 word \<Rightarrow> 64 word) \<Rightarrow> 48 word \<Rightarrow> 48 word \<Rightarrow> switch_and_port \<Rightarrow> network \<Rightarrow>
  (policy res \<times> network) option" where
  "forward pred dst src a net =
     (let db = learn (sp_dpid a) (sp_port a) src (n_db net); net1 = net\<lparr>n_db := db\<rparr> in
      case query dst db of
        None \<Rightarrow> Some (if dst \<noteq> - 1
          then (rbind (broadcast_policy (n_stp net)) (\<lambda>p. Inr (policy_seq (idle_timeout_policy 0) p)), net1)
          else (broadcast_policy (n_stp net), net1))
      | Some target \<Rightarrow>
          (case query src db of
             None \<Rightarrow> Some (Inl Assertion_failure, net1)
           | Some source \<Rightarrow>
               (case compute_route pred (sp_dpid source) (sp_dpid target) (n_topology net) of
                  (r, topo) \<Rightarrow> Option.bind r (\<lambda>r. Some
                    (rbind r (\<lambda>route. if route \<noteq> [] \<or> sp_dpid target = sp_dpid source
                       then route_policy (source # route @ [target]) else Inr Stop),
                     net1\<lparr>n_topology := topo\<rparr>)))))"

section \<open>The policy of a route\<close>

fun route_hops :: "switch_and_port list \<Rightarrow> (switch_and_port \<times> 32 word) list" where
  "route_hops (a # b # r) = (a, sp_port b) # route_hops r"
| "route_hops r = []"

fun paired :: "switch_and_port list \<Rightarrow> bool" where
  "paired [] = True"
| "paired [a] = False"
| "paired (a # b # r) = (sp_dpid a = sp_dpid b \<and> paired r)"

definition hop_policy :: "switch_and_port \<times> 32 word \<Rightarrow> policy" where
  "hop_policy h = policy_seq (policy_seq (Filter (switch_id_is (sp_dpid (fst h)))) (Filter (port_is (sp_port (fst h))))) (fwd (snd h))"

lemma paired_even: "paired r \<Longrightarrow> even (length r)"
  by (induction r rule: paired.induct) auto

lemma route_terms_paired: "paired r \<Longrightarrow> route_terms r = Inr (map hop_policy (route_hops r))"
  by (induction r rule: paired.induct) (auto simp: hop_policy_def)

lemma route_policy_eq: "paired r \<Longrightarrow> route_policy r = Inr (policy_sum hop_policy (route_hops r))"
  using paired_even [of r]
  by (simp add: route_policy_def route_terms_paired policy_sum_def foldl_map even_iff_mod_2_eq_zero)

lemma sem_hop:
  assumes "located p a"
  shows "sem fs_test fs_modify (hop_policy h) p = (if fst h = a then sent_out p [snd h] else {#})"
proof -
  have "sem fs_test fs_modify (hop_policy h) p =
      (if fs_test p (switch_id_is (sp_dpid (fst h))) then if fs_test p (port_is (sp_port (fst h)))
        then sem fs_test fs_modify (fwd (snd h)) p else {#} else {#})"
    unfolding hop_policy_def policy_seq_def sem_seq_assoc sem_filter_seq ..
  then show ?thesis
    unfolding located_test [OF assms]
    by (cases "fst h"; cases a) (auto simp: fwd_out sent_out_def)
qed

lemma sem_route:
  "paired r \<Longrightarrow> route_policy r = Inr pol \<Longrightarrow> located p a \<Longrightarrow>
    sem fs_test fs_modify pol p = sent_out p (map snd (filter (\<lambda>h. fst h = a) (route_hops r)))"
proof -
  assume r: "paired r" "route_policy r = Inr pol" and l: "located p a"
  have "(\<Sum>h \<leftarrow> hs. sem fs_test fs_modify (hop_policy h) p) =
      sent_out p (map snd (filter (\<lambda>h. fst h = a) hs))" for hs
    by (induction hs) (simp_all add: sem_hop [OF l] sent_out_def)
  then show ?thesis using r by (simp add: route_policy_eq) (metis sem_policy_sum)
qed

section \<open>Following a packet\<close>

text \<open>
  At every port the packet is sent out by exactly one port; it goes on along the cable that is
  plugged in there, and has left the network when there is none.
\<close>

definition sends :: "policy \<Rightarrow> field_set \<Rightarrow> switch_and_port \<Rightarrow> 32 word \<Rightarrow> bool" where
  "sends pol p a o' = (sem fs_test fs_modify pol (arrive p a) = sent_out (arrive p a) [o'])"

inductive reaches :: "policy \<Rightarrow> graph \<Rightarrow> field_set \<Rightarrow> switch_and_port \<Rightarrow> switch_and_port \<Rightarrow> bool" where
  out: "sends pol p a o' \<Longrightarrow> \<forall>b. \<not> wired g (sp (sp_dpid a) o') b \<Longrightarrow> reaches pol g p a (sp (sp_dpid a) o')"
| hop: "sends pol p a o' \<Longrightarrow> wired g (sp (sp_dpid a) o') b \<Longrightarrow> reaches pol g p b c \<Longrightarrow> reaches pol g p a c"

lemma leads_last:
  "leads g u v r \<Longrightarrow> sp_dpid s = u \<Longrightarrow> sp_dpid t = v \<Longrightarrow> paired (s # r @ [t])"
  by (induction g u v r arbitrary: s rule: leads.induct) (auto simp: wired_def)

text \<open>The switches of a route come closer to the target, so none is visited twice.\<close>

lemma leads_distances:
  "leads g u v r \<Longrightarrow> sp_dpid s = u \<Longrightarrow> h \<in> set (route_hops (s # r @ [t])) \<Longrightarrow>
    distance g (sp_dpid (fst h)) v \<le> distance g u v"
proof (induction g u v r arbitrary: s rule: leads.induct)
  case (3 g u v a b r)
  then consider "h = (s, sp_port a)" | "h \<in> set (route_hops (b # r @ [t]))" by auto
  then show ?case
  proof cases
    case 2
    then have "distance g (sp_dpid (fst h)) v \<le> distance g (sp_dpid b) v" using 3 by auto
    with 3 show ?thesis by simp
  qed (use 3 in simp)
qed auto

lemma leads_reaches:
  assumes "full_fs (set known_types) p"
    and "leads g u v r" "sp_dpid t = v" "\<forall>b. \<not> wired g t b"
    and "\<And>q a. located q a \<Longrightarrow> sem fs_test fs_modify pol q = sent_out q (map snd (filter (\<lambda>h. fst h = a) (pre @ route_hops (s # r @ [t]))))"
    and "sp_dpid s = u" "\<forall>h \<in> set pre. distance g u v < distance g (sp_dpid (fst h)) v"
  shows "reaches pol g p s t"
  using assms(2-7)
proof (induction g u v r arbitrary: s pre rule: leads.induct)
  case (1 g u v)
  have "filter (\<lambda>h. fst h = s) pre = []" using 1 by (auto simp: filter_empty_conv)
  then have "sends pol p s (sp_port t)"
    using 1(4) [OF located_arrive [OF assms(1)], of s] by (simp add: sends_def)
  moreover have "sp (sp_dpid s) (sp_port t) = t" using 1 by (cases t) simp
  ultimately show ?case using reaches.out [of pol p s "sp_port t" g] 1(3) by simp
next
  case (3 g u v a b r)
  have pre: "filter (\<lambda>h. fst h = s) pre = []" using 3 by (auto simp: filter_empty_conv)
  have "distance g (sp_dpid (fst h)) v < distance g u v" if "h \<in> set (route_hops (b # r @ [t]))" for h
    using leads_distances [of g "sp_dpid b" v r b h t] 3(2) that by simp
  then have rest: "filter (\<lambda>h. fst h = s) (route_hops (b # r @ [t])) = []"
    using 3(6) by (auto simp: filter_empty_conv)
  have "sends pol p s (sp_port a)"
    using 3(5) [OF located_arrive [OF assms(1)], of s] by (simp add: sends_def pre rest)
  moreover have "sp (sp_dpid s) (sp_port a) = a" using 3(2,6) by (cases a) simp
  moreover have "reaches pol g p b t"
  proof (rule "3.IH" [of "pre @ [(s, sp_port a)]" b])
    show "\<forall>h \<in> set (pre @ [(s, sp_port a)]). distance g (sp_dpid b) v < distance g (sp_dpid (fst h)) v"
      using 3(2,6,7) by auto
  qed (use 3 in simp_all)
  ultimately show ?case using reaches.hop [of pol p s "sp_port a" g b t] 3(2) by simp
qed simp

section \<open>Delivery\<close>

lemma route_policy_reaches:
  assumes "full_fs (set known_types) p" "leads g (sp_dpid source) (sp_dpid target) r" "\<forall>b. \<not> wired g target b"
  shows "\<exists>pol. route_policy (source # r @ [target]) = Inr pol \<and> reaches pol g p source target"
proof -
  have pr: "paired (source # r @ [target])" using leads_last [OF assms(2)] by simp
  obtain pol where pol: "route_policy (source # r @ [target]) = Inr pol" using route_policy_eq [OF pr] by blast
  have "reaches pol g p source target"
    by (rule leads_reaches [OF assms(1,2) refl assms(3), of pol "[]"])
      (use sem_route [OF pr pol] in simp_all)
  with pol show ?thesis by blast
qed

lemma edges_vertex [simp]: "edges (vertex d g) = edges g"
  by (simp add: vertex_def)

lemma same_edges:
  assumes "edges g' = edges g"
  shows "loop_free g' = loop_free g" "wired g' = wired g" "connected g' = connected g"
proof -
  have "neighbours g' = neighbours g" using assms by (auto simp: neighbours_def)
  then have "hops n g' u v = hops n g u v" for n u v by (induction n arbitrary: u) auto
  then show "connected g' = connected g" by (auto simp: connected_def fun_eq_iff)
qed (use assms in \<open>auto simp: loop_free_def wired_def fun_eq_iff\<close>)

text \<open>
  C6: between known hosts whose switches are connected, the handler returns a policy that takes
  a packet from the port of its sender along the cables of the network to the port of its
  receiver, where it leaves the network, in finitely many hops and without ever being
  duplicated or lost.
\<close>

theorem route_delivers:
  assumes "shortest_path_tree pred" and "loop_free (t_graph (n_topology net))"
    and "query src (learn (sp_dpid a) (sp_port a) src (n_db net)) = Some source"
    and "query dst (learn (sp_dpid a) (sp_port a) src (n_db net)) = Some target"
    and "connected (t_graph (n_topology net)) (sp_dpid source) (sp_dpid target)"
    and "\<forall>b. \<not> wired (t_graph (n_topology net)) target b"
    and "full_fs (set known_types) p"
  shows "\<exists>pol net'. forward pred dst src a net = Some (Inr pol, net') \<and>
    edges (t_graph (n_topology net')) = edges (t_graph (n_topology net)) \<and>
    reaches pol (t_graph (n_topology net')) p source target"
proof -
  let ?g = "vertex (sp_dpid target) (vertex (sp_dpid source) (t_graph (n_topology net)))"
  have e: "edges ?g = edges (t_graph (n_topology net))" by simp
  note g = assms(2,5,6) [folded same_edges [OF e]]
  obtain r where r: "route_loop (pred ?g (sp_dpid target)) ?g (sp_dpid source) [] = Some (Inr r)"
    "leads ?g (sp_dpid source) (sp_dpid target) r" "length r = 2 * distance ?g (sp_dpid source) (sp_dpid target)"
    using shortest_path_tree.route_leads [OF assms(1) g(1,2), of "[]"] by auto
  have ne: "r \<noteq> [] \<or> sp_dpid target = sp_dpid source" using r(2) by (cases r) auto
  obtain pol where pol: "route_policy (source # r @ [target]) = Inr pol" "reaches pol ?g p source target"
    using route_policy_reaches [OF assms(7) r(2) g(3)] by blast
  show ?thesis
    by (rule exI [of _ pol], rule exI [of _ "net\<lparr>n_db := learn (sp_dpid a) (sp_port a) src (n_db net),
        n_topology := n_topology net\<lparr>t_graph := ?g\<rparr>\<rparr>"])
      (use assms(3,4) r(1) ne pol in \<open>simp add: forward_def compute_route_def Let_def\<close>)
qed

text \<open>Two switches, one cable; the hosts are at port 7 of switch 1 and port 8 of switch 2.\<close>

definition two_switches :: network where
  "two_switches = \<lparr>n_db = [11 \<mapsto> sp 1 7, 22 \<mapsto> sp 2 8],
     n_topology = link_discovered (sp 1 1) (sp 2 2) 2000 topology_init, n_stp = stp_init\<rparr>"

lemma route_delivers_witness:
  "\<exists>pol net'. forward bfs_pred 22 11 (sp 1 7) two_switches = Some (Inr pol, net') \<and>
    edges (t_graph (n_topology net')) = edges (t_graph (n_topology two_switches)) \<and>
    reaches pol (t_graph (n_topology net')) zero_packet (sp 1 7) (sp 2 8)"
proof (rule route_delivers)
  have e: "edges (t_graph (n_topology two_switches)) = [\<lparr>lp_source = sp 1 1, lp_target = sp 2 2, lp_weight = 1\<rparr>]"
    by (simp add: two_switches_def link_discovered_def topology_init_def Let_def)
  show "loop_free (t_graph (n_topology two_switches))" by (simp add: loop_free_def e)
  show "\<forall>b. \<not> wired (t_graph (n_topology two_switches)) (sp 2 8) b" by (simp add: wired_def e)
  have "\<exists>n. hops n (t_graph (n_topology two_switches)) 1 2" by (rule exI [of _ 1]) (simp add: e neighbours_def)
  then show "connected (t_graph (n_topology two_switches)) (sp_dpid (sp 1 7)) (sp_dpid (sp 2 8))"
    by (simp add: connected_def)
  show "query 11 (learn (sp_dpid (sp 1 7)) (sp_port (sp 1 7)) 11 (n_db two_switches)) = Some (sp 1 7)"
    "query 22 (learn (sp_dpid (sp 1 7)) (sp_port (sp 1 7)) 11 (n_db two_switches)) = Some (sp 2 8)"
    by (simp_all add: query_def learn_def two_switches_def)
qed (rule bfs.shortest_path_tree_axioms full_zero_packet)+

end
