(* ===== verification/Of_Messages.thy ===== *)
theory Of_Messages
  imports Prelude
begin

text \<open>
  The messages the controller unpacks, \<^verbatim>\<open>src/OFMsgUnion.cc\<close>: one object for every class of
  message, chosen by the type of the message and, for a multipart reply, by the type of the part. The
  classes themselves are those of libfluid; a message carries the fields the applications read.
\<close>

record of_port =
  op_no :: "32 word"
  op_hw_addr :: "8 word list"
  op_state :: "32 word"

record features =
  fr_dpid :: "64 word"
  fr_nbuffers :: "32 word"
  fr_ntables :: "8 word"
  fr_capabilities :: "32 word"

datatype multipart = Port_desc "of_port list" | Switch_desc string | Part_of_kind "16 word"

datatype of_msg = Features_reply features | Port_status "8 word" of_port | Flow_removed | Error_message "32 word"
  | Multipart_reply "32 word" multipart | Other_message nat "32 word"

text \<open>The numbers of OpenFlow 1.3.\<close>

definition type_number :: "of_msg \<Rightarrow> nat" where
  "type_number m = (case m of Error_message xid \<Rightarrow> 1 | Features_reply fr \<Rightarrow> 6 | Flow_removed \<Rightarrow> 11 | Port_status reason port \<Rightarrow> 12
     | Multipart_reply xid part \<Rightarrow> 19 | Other_message n xid \<Rightarrow> n)"

definition part_number :: "multipart \<Rightarrow> 16 word" where
  "part_number p = (case p of Switch_desc d \<Rightarrow> 0 | Port_desc ports \<Rightarrow> 13 | Part_of_kind k \<Rightarrow> k)"

text \<open>
  The types \<open>OFMsgUnion\<close> knows, and the class it makes of a part: an aggregate reply falls through to
  the class of table replies, and a part of another kind leaves no message at all.
\<close>

definition handled_type :: "nat \<Rightarrow> bool" where
  "handled_type n = (n \<in> {1, 6, 8, 10, 11, 12, 21, 23, 25, 27, 19})"

definition part_class :: "16 word \<Rightarrow> 16 word option" where
  "part_class k = (if k = 2 then Some 3 else if k \<le> 13 then Some k else None)"

datatype of_union = No_such_type | No_message | Message

definition of_msg_union :: "of_msg \<Rightarrow> of_union" where
  "of_msg_union m = (if \<not> handled_type (type_number m) then No_such_type
     else case m of Multipart_reply xid part \<Rightarrow> (if part_class (part_number part) = None then No_message else Message) | _ \<Rightarrow> Message)"

definition message_xid :: "of_msg \<Rightarrow> 32 word" where
  "message_xid m = (case m of Error_message xid \<Rightarrow> xid | Multipart_reply xid part \<Rightarrow> xid | Other_message n xid \<Rightarrow> xid | _ \<Rightarrow> 0)"

end
