(* ===== verification/Link_Discovery.thy ===== *)
theory Link_Discovery
  imports Topology Packet_View Of_Messages
begin

text \<open>
  Discovery of the links between switches, \<^verbatim>\<open>src/LinkDiscovery.cc\<close>: the LLDP frames that
  are sent out of every port, what is read from a frame that comes back, and the set of known links
  with its expiry. The nodes of the \<open>std::set\<close> have numbers, so that an iterator to a node
  that was erased is told from a valid one.
\<close>

section \<open>LLDP frames\<close>

definition lldp_tlv_header :: "16 word \<Rightarrow> 16 word \<Rightarrow> 16 word" where
  "lldp_tlv_header t l = or (push_bit 9 t) l"

definition mac_number :: "byte list \<Rightarrow> 64 word" where
  "mac_number m = or (or (or (or (or (push_bit 40 (ucast (m ! 0))) (push_bit 32 (ucast (m ! 1))))
     (push_bit 24 (ucast (m ! 2)))) (push_bit 16 (ucast (m ! 3)))) (push_bit 8 (ucast (m ! 4)))) (ucast (m ! 5))"

text \<open>The 50 bytes of \<open>lldp_packet\<close>, as \<open>sendLLDP\<close> fills it in.\<close>

definition lldp_frame :: "byte list \<Rightarrow> 64 word \<Rightarrow> 32 word \<Rightarrow> 32 word \<Rightarrow> byte list" where
  "lldp_frame mac dpid port_no interval =
     word_bytes (0x0180c200000e :: 48 word) @ word_bytes (ucast (mac_number mac) :: 48 word) @
     word_bytes (0x88cc :: 16 word) @
     word_bytes (lldp_tlv_header 1 7) @ word_bytes (4 :: 8 word) @ word_bytes (ucast dpid :: 48 word) @
     word_bytes (lldp_tlv_header 2 5) @ word_bytes (2 :: 8 word) @ word_bytes port_no @
     word_bytes (lldp_tlv_header 3 2) @ word_bytes (ucast interval :: 16 word) @
     word_bytes (lldp_tlv_header 127 12) @ word_bytes (0x0026e1 :: 24 word) @ word_bytes (0 :: 8 word) @ word_bytes dpid @
     word_bytes (0 :: 16 word)"

text \<open>
  The handler of \<open>getPolicy\<close>. \<open>junk\<close> is what the local \<open>lldp_packet\<close> holds before the
  frame is copied over it; a frame that is too short is only reported.
\<close>

definition load_word :: "parser \<Rightarrow> oxm_type \<Rightarrow> ('a::len word) res" where
  "load_word p t = rbind (pk_load p (exact_mask t)) (\<lambda>f. Inr (word_of_bits (f_value f)))"

definition lldp_handler :: "byte list \<Rightarrow> parser \<Rightarrow> (switch_and_port \<times> switch_and_port) res" where
  "lldp_handler junk p =
     (let written = serialize_to p 50; lldp = written @ drop (length written) junk;
          source = sp (of_nat (read_be 8 40 lldp)) (of_nat (read_be 4 26 lldp)) in
      rbind (load_word p ofb_switch_id) (\<lambda>d. rbind (load_word p ofb_in_port) (\<lambda>i.
        let target = sp d i in Inr (if sp_less target source then (target, source) else (source, target)))))"

section \<open>State\<close>

record discovered_link =
  dl_source :: switch_and_port
  dl_target :: switch_and_port
  dl_valid :: int

datatype link_signal = Link_discovered switch_and_port switch_and_port | Link_broken switch_and_port switch_and_port

record link_discovery =
  ld_interval :: "32 word"
  ld_links :: "(nat \<times> discovered_link) list"
  ld_fresh :: nat
  ld_out :: "switch_and_port \<rightharpoonup> nat"
  ld_signals :: "link_signal list"
  ld_sent :: "(64 word \<times> 32 word \<times> byte list) list"

definition ld_init :: "32 word \<Rightarrow> link_discovery" where
  "ld_init c = \<lparr>ld_interval = c, ld_links = [], ld_fresh = 0, ld_out = Map.empty, ld_signals = [], ld_sent = []\<rparr>"

text \<open>The set is ordered by \<open>valid_through\<close> alone: an equivalent element keeps its place.\<close>

fun set_insert :: "nat \<Rightarrow> discovered_link \<Rightarrow> (nat \<times> discovered_link) list \<Rightarrow> (nat \<times> discovered_link) list \<times> nat" where
  "set_insert i l [] = ([(i, l)], i)"
| "set_insert i l (x # xs) =
     (if dl_valid l < dl_valid (snd x) then ((i, l) # x # xs, i)
      else if dl_valid (snd x) < dl_valid l then (let r = set_insert i l xs in (x # fst r, snd r))
      else (x # xs, fst x))"

definition set_erase :: "nat \<Rightarrow> (nat \<times> discovered_link) list \<Rightarrow> (nat \<times> discovered_link) list" where
  "set_erase i xs = filter (\<lambda>x. fst x \<noteq> i) xs"

definition deref_node :: "nat \<Rightarrow> (nat \<times> discovered_link) list \<Rightarrow> discovered_link res" where
  "deref_node i xs = (case map_of xs i of None \<Rightarrow> Inl Dangling_iterator | Some l \<Rightarrow> Inr l)"

section \<open>Operations\<close>

definition emit :: "link_signal \<Rightarrow> link_discovery \<Rightarrow> link_discovery" where
  "emit x s = s\<lparr>ld_signals := ld_signals s @ [x]\<rparr>"

text \<open>Times are in nanoseconds; the product of the interval is taken in 32 bits.\<close>

definition deadline :: "32 word \<Rightarrow> int \<Rightarrow> int" where
  "deadline c now = now + 1000000000 * uint (c * 2)"

definition handle_beacon :: "int \<Rightarrow> switch_and_port \<Rightarrow> switch_and_port \<Rightarrow> link_discovery \<Rightarrow> link_discovery res" where
  "handle_beacon now a b s =
     (let l = \<lparr>dl_source = a, dl_target = b, dl_valid = deadline (ld_interval s) now\<rparr> in
      rbind (case ld_out s a of
          None \<Rightarrow> Inr (s, True)
        | Some i \<Rightarrow> rbind (deref_node i (ld_links s)) (\<lambda>_.
            Inr (s\<lparr>ld_links := set_erase i (ld_links s), ld_out := (ld_out s)(a := None, b := None)\<rparr>, False)))
        (\<lambda>(s1, is_new).
          let r = set_insert (ld_fresh s1) l (ld_links s1);
              s2 = s1\<lparr>ld_links := fst r, ld_fresh := ld_fresh s1 + 1, ld_out := (ld_out s1)(a := Some (snd r), b := Some (snd r))\<rparr>
          in Inr (if is_new then emit (Link_discovered a b) s2 else s2)))"

definition clear_link_at :: "switch_and_port \<Rightarrow> link_discovery \<Rightarrow> link_discovery res" where
  "clear_link_at source s = (case ld_out s source of
     None \<Rightarrow> Inr s
   | Some i \<Rightarrow>
       rbind (deref_node i (ld_links s)) (\<lambda>l.
       rbind (if sp_eq (dl_source l) source then Inr (dl_target l)
              else if sp_eq (dl_target l) source then Inr (dl_source l) else Inl Assertion_failure) (\<lambda>target.
         let out1 = (ld_out s)(source := None) in
         if out1 target = None then Inl Terminated
         else Inr (emit (if sp_less source target then Link_broken source target else Link_broken target source)
           (s\<lparr>ld_links := set_erase i (ld_links s), ld_out := out1(target := None)\<rparr>)))))"

definition send_lldp :: "64 word \<Rightarrow> of_port \<Rightarrow> link_discovery \<Rightarrow> link_discovery" where
  "send_lldp d port s = (let frame = lldp_frame (op_hw_addr port) d (op_no port) (ld_interval s) in
     s\<lparr>ld_sent := ld_sent s @ [(d, op_no port, frame), (d, op_no port, frame), (d, op_no port, frame)]\<rparr>)"

definition link_is_down :: "of_port \<Rightarrow> bool" where
  "link_is_down port = bit (op_state port) 0"

definition port_up :: "64 word \<Rightarrow> of_port \<Rightarrow> link_discovery \<Rightarrow> link_discovery" where
  "port_up d port s = (if 0xffffff00 < op_no port then s
     else if \<not> link_is_down port then send_lldp d port s else s)"

definition port_modified :: "64 word \<Rightarrow> of_port \<Rightarrow> of_port \<Rightarrow> link_discovery \<Rightarrow> link_discovery res" where
  "port_modified d port old_port s =
     (if \<not> link_is_down port \<and> link_is_down old_port then Inr (send_lldp d port s)
      else if link_is_down port \<and> \<not> link_is_down old_port then clear_link_at (sp d (op_no port)) s
      else Inr s)"

definition port_down :: "64 word \<Rightarrow> 32 word \<Rightarrow> link_discovery \<Rightarrow> link_discovery res" where
  "port_down d port_no s = clear_link_at (sp d port_no) s"

text \<open>The erasures stand inside \<open>assert\<close>.\<close>

definition break_first :: "nat \<times> discovered_link \<Rightarrow> link_discovery \<Rightarrow> link_discovery res" where
  "break_first x s =
     (let a = dl_source (snd x); b = dl_target (snd x); out1 = (ld_out s)(a := None) in
      if ld_out s a = None \<or> out1 b = None then Inl Assertion_failure
      else Inr (emit (Link_broken a b) (s\<lparr>ld_links := set_erase (fst x) (ld_links s), ld_out := out1(b := None)\<rparr>)))"

fun expire_links :: "int \<Rightarrow> (nat \<times> discovered_link) list \<Rightarrow> link_discovery \<Rightarrow> link_discovery res" where
  "expire_links now [] s = Inr s"
| "expire_links now (x # xs) s =
     (if dl_valid (snd x) < now then rbind (break_first x s) (expire_links now xs) else Inr s)"

definition timer_event :: "int \<Rightarrow> (64 word \<times> of_port list) list \<Rightarrow> link_discovery \<Rightarrow> link_discovery res" where
  "timer_event now switches s = rbind (expire_links now (ld_links s) s) (\<lambda>s1.
     Inr (foldl (\<lambda>s (d, ports). foldl (\<lambda>s port. if 0xffffff00 < op_no port then s else send_lldp d port s) s ports)
       s1 switches))"

section \<open>Reading a frame back\<close>

lemma bits_val_byte_append: "bits_val (byte_bits w @ bs) = unat w + 256 * bits_val bs"
proof -
  have "bits_val (xs @ bs) = bits_val xs + 2 ^ length xs * bits_val bs" for xs
    by (induction xs) (simp_all add: algebra_simps)
  moreover have "bits_val (byte_bits w) = unat w" using unsigned_less [of w, where 'a = nat] by (simp add: byte_bits_def)
  ultimately show ?thesis by (simp add: byte_bits_def)
qed

lemma big_endian_snoc: "big_endian (bs @ [b]) = 256 * big_endian bs + unat b"
  by (simp add: big_endian_def)

lemma big_endian_rev: "big_endian (rev ws) = bits_val (concat (map byte_bits ws))"
  by (induction ws) (simp_all add: big_endian_snoc bits_val_byte_append, simp add: big_endian_def)

lemma big_endian_word_bytes:
  assumes "8 dvd LENGTH('a)"
  shows "big_endian (word_bytes (w :: 'a::len word)) = unat w"
proof -
  obtain pad where pad: "concat (map byte_bits (blocks (bits_of_word w))) = bits_of_word w @ pad"
    using concat_blocks by blast
  have "length (concat (map byte_bits (blocks (bits_of_word w)))) = 8 * num_blocks LENGTH('a)"
    by (simp add: concat_bytes_length blocks_length bits_of_word_def)
  also have "\<dots> = LENGTH('a)" using assms by (auto simp: num_blocks_def)
  finally have "pad = []" using pad by (simp add: bits_of_word_def)
  with pad show ?thesis
    using unsigned_less [of w, where 'a = nat] by (simp add: word_bytes_def to_buffer_def big_endian_rev bits_of_word_def)
qed

lemma lldp_frame_length: "length (lldp_frame mac d n c) = 50"
  by (simp add: lldp_frame_def word_bytes_length num_blocks_def)

lemma lldp_frame_reads:
  "read_be 2 12 (lldp_frame mac d n c @ pad) = 0x88cc"
  "read_be 8 40 (lldp_frame mac d n c @ pad) = unat d"
  "read_be 4 26 (lldp_frame mac d n c @ pad) = unat n"
  by (simp_all add: lldp_frame_def read_be_def word_bytes_length num_blocks_def big_endian_word_bytes)

lemma load_word_bound:
  assumes "access p t = Inr (r, 0)" "buffer p r = word_bytes (w :: 'a::len word)" "nbits t = LENGTH('a)" "8 dvd LENGTH('a)"
  shows "load_word p t = Inr w"
proof -
  have pl: "place p t = (r, 0)" using assms(1) by (simp add: place_def)
  have v: "clear_view {t} p"
    using assms pl by (auto simp: clear_view_def width_def word_bytes_length num_blocks_def)
  have r: "read_bits p (nbits t) (place p t) = bits_of_word w"
    using assms from_to_buffer [of "bits_of_word w" 0 "[]"]
    by (simp add: read_bits_def pl byte_before_def word_bytes_def bits_of_word_def)
  have "pk_load p (exact_mask t) = Inr (pk_val p t)"
    using pk_load_eq [OF v wf_exact_mask, of t] and_mask_exact_mask [OF pk_val_exact [OF v, of t]]
    by (simp add: exact_mask_def)
  then show ?thesis by (simp add: load_word_def pk_val_def r word_bits_roundtrip)
qed

lemma parse_lldp:
  "\<exists>m. packet_parser (lldp_frame mac d n c @ pad) i d' out =
       Inr (parser_init (lldp_frame mac d n c @ pad) i d' out\<lparr>ofb_bindings := m\<rparr>) \<and> m 0 = Some (In_port_number, 0)"
  by (simp add: packet_parser_init parse_l2_def Let_def lldp_frame_length lldp_frame_reads bind_ofb_def bind_one_def
      parse_l3_def parser_init_def)

text \<open>
  C40: a beacon names the cable it came through. The frame that is sent out of port \<open>n\<close> of
  switch \<open>d\<close> and arrives, padded or not, at port \<open>i\<close> of switch \<open>d'\<close> is parsed, and the handler
  reads from it the two ends of the cable, the smaller one first, whatever the frame
  was received into held before.
\<close>

theorem beacon_roundtrip:
  "\<exists>p. packet_parser (lldp_frame mac d n c @ pad) i d' out = Inr p \<and>
    lldp_handler junk p = Inr (if sp_less (sp d' i) (sp d n) then (sp d' i, sp d n) else (sp d n, sp d' i))"
proof -
  obtain m where m: "packet_parser (lldp_frame mac d n c @ pad) i d' out =
      Inr (parser_init (lldp_frame mac d n c @ pad) i d' out\<lparr>ofb_bindings := m\<rparr>)" "m 0 = Some (In_port_number, 0)"
    using parse_lldp by blast
  let ?p = "parser_init (lldp_frame mac d n c @ pad) i d' out\<lparr>ofb_bindings := m\<rparr>"
  have t: "ty_ns ofb_in_port = ns_code OPENFLOW_BASIC" "unat (ty_id ofb_in_port) = 0" "nbits ofb_in_port = 32"
    "nbits ofb_switch_id = 64" by (simp_all add: ofb_type_defs nbits_def)
  have "access ?p ofb_switch_id = Inr (Switch_id_number, 0)"
    using nonof_types by (simp add: access_def parser_init_def)
  then have d: "load_word ?p ofb_switch_id = Inr d'"
    by (rule load_word_bound) (simp_all add: buffer_def parser_init_def t)
  have "access ?p ofb_in_port = Inr (In_port_number, 0)" by (simp add: access_def t m(2))
  then have i: "load_word ?p ofb_in_port = Inr i"
    by (rule load_word_bound) (simp_all add: buffer_def parser_init_def t)
  have "serialize_to ?p 50 = lldp_frame mac d n c" by (simp add: serialize_to_def lldp_frame_length)
  with m(1) show ?thesis
    by (simp add: lldp_handler_def Let_def d i lldp_frame_length lldp_frame_reads)
qed

end
