(* ===== verification/Link_Mirror.thy ===== *)
theory Link_Mirror
  imports Link_Discovery
begin

text \<open>
  The set of links that \<open>LinkDiscovery\<close> keeps and the topology that follows its signals: as
  long as no cable is moved from one port to another while it is known, both agree.
\<close>

section \<open>Events\<close>

datatype ld_event =
    Beacon int switch_and_port switch_and_port
  | Timer int "(64 word \<times> of_port list) list"
  | Port_up "64 word" of_port
  | Port_modified "64 word" of_port of_port
  | Port_down "64 word" "32 word"

fun ld_apply :: "ld_event \<Rightarrow> link_discovery \<Rightarrow> link_discovery res" where
  "ld_apply (Beacon now a b) s = handle_beacon now a b s"
| "ld_apply (Timer now switches) s = timer_event now switches s"
| "ld_apply (Port_up d p) s = Inr (port_up d p s)"
| "ld_apply (Port_modified d p q) s = port_modified d p q s"
| "ld_apply (Port_down d n) s = port_down d n s"

definition link_ends :: "nat \<times> discovered_link \<Rightarrow> switch_and_port \<times> switch_and_port" where
  "link_ends x = (dl_source (snd x), dl_target (snd x))"

definition link_pairs :: "link_discovery \<Rightarrow> (switch_and_port \<times> switch_and_port) list" where
  "link_pairs s = map link_ends (ld_links s)"

text \<open>
  A beacon that fits the known links: the smaller end comes first, both ends are free or linked
  to each other, and the clock has moved since the last one.
\<close>

fun fits :: "ld_event \<Rightarrow> link_discovery \<Rightarrow> bool" where
  "fits (Beacon now a b) s = (sp_less a b \<and>
     list_all (\<lambda>x. dl_valid (snd x) < deadline (ld_interval s) now) (ld_links s) \<and>
     (ld_out s a = None \<and> ld_out s b = None \<or> (a, b) \<in> set (link_pairs s)))"
| "fits e s = True"

fun fitting_run :: "ld_event list \<Rightarrow> link_discovery \<Rightarrow> bool" where
  "fitting_run [] s = True"
| "fitting_run (e # es) s = (fits e s \<and> (case ld_apply e s of Inl _ \<Rightarrow> True | Inr s' \<Rightarrow> fitting_run es s'))"

section \<open>What the signals say\<close>

text \<open>The signals account for a multiset of links: only present links break.\<close>

inductive accounts :: "link_signal list \<Rightarrow> (switch_and_port \<times> switch_and_port) multiset \<Rightarrow> bool" where
  none: "accounts [] {#}"
| discovered: "accounts sigs M \<Longrightarrow> sp_less a b \<Longrightarrow> accounts (sigs @ [Link_discovered a b]) (add_mset (a, b) M)"
| broken: "accounts sigs (add_mset (a, b) M) \<Longrightarrow> accounts (sigs @ [Link_broken a b]) M"

lemma accounts_ordered: "accounts sigs M \<Longrightarrow> (a, b) \<in># M \<Longrightarrow> sp_less a b"
  by (induction rule: accounts.induct) auto

definition replay_signal :: "(topology \<Rightarrow> nat) \<Rightarrow> link_signal \<Rightarrow> topology \<Rightarrow> topology" where
  "replay_signal rnd x t = (case x of
     Link_discovered a b \<Rightarrow> link_discovered a b (rnd t) t
   | Link_broken a b \<Rightarrow> link_broken a b t)"

definition replay :: "(topology \<Rightarrow> nat) \<Rightarrow> link_signal list \<Rightarrow> topology" where
  "replay rnd sigs = foldl (\<lambda>t x. replay_signal rnd x t) topology_init sigs"

definition between_switches :: "switch_and_port \<times> switch_and_port \<Rightarrow> bool" where
  "between_switches p = (sp_dpid (fst p) \<noteq> sp_dpid (snd p))"

definition known_pairs :: "topology \<Rightarrow> (switch_and_port \<times> switch_and_port) multiset" where
  "known_pairs t = mset (map (\<lambda>l. (l_source l, l_target l)) (t_links t))"

definition edge_pairs :: "topology \<Rightarrow> (switch_and_port \<times> switch_and_port) set" where
  "edge_pairs t = (\<lambda>e. (lp_source e, lp_target e)) ` set (edges (t_graph t))"

lemma edges_vertex_same [simp]: "edges (vertex d g) = edges g"
  by (simp add: vertex_def)

lemma replay_discovered:
  "known_pairs (link_discovered a b r t) = filter_mset between_switches {#(a, b)#} + known_pairs t"
  "edge_pairs (link_discovered a b r t) = (if sp_dpid a = sp_dpid b then edge_pairs t else insert (a, b) (edge_pairs t))"
  by (auto simp: link_discovered_def known_pairs_def edge_pairs_def between_switches_def Let_def)

lemma get_link_eq:
  assumes "\<forall>p \<in># known_pairs t. sp_less (fst p) (snd p)" "sp_less a b"
  shows "(get_link t a b = None \<and> (a, b) \<notin># known_pairs t) \<or>
    (\<exists>l. get_link t a b = Some l \<and> l \<in> set (t_links t) \<and> l_source l = a \<and> l_target l = b)"
proof (cases "get_link t a b")
  case None
  then have "l \<in> set (t_links t) \<Longrightarrow> (l_source l, l_target l) \<noteq> (a, b)" for l
    unfolding get_link_def by (auto dest!: find_NoneD)
  then show ?thesis using None by (auto simp: known_pairs_def)
next
  case (Some l)
  then have l: "l \<in> set (t_links t)" "l_source l = a \<and> l_target l = b \<or> l_source l = b \<and> l_target l = a"
    unfolding get_link_def by (auto dest!: find_SomeD)
  then have "sp_less (l_source l) (l_target l)" using assms(1) by (auto simp: known_pairs_def)
  then show ?thesis using l Some sp_less_asym [OF assms(2)] by auto
qed

lemma replay_broken:
  assumes "\<forall>p \<in># known_pairs t. sp_less (fst p) (snd p)" "sp_less a b"
  shows "known_pairs (link_broken a b t) = known_pairs t - {#(a, b)#}"
    "edge_pairs (link_broken a b t) \<subseteq> edge_pairs t - {(a, b)}"
proof -
  show "known_pairs (link_broken a b t) = known_pairs t - {#(a, b)#}"
    using get_link_eq [OF assms]
  proof (elim disjE exE conjE)
    fix l assume l: "get_link t a b = Some l" "l \<in> set (t_links t)" "l_source l = a" "l_target l = b"
    have "image_mset (\<lambda>l. (l_source l, l_target l)) (mset (t_links t) - {#l#}) = known_pairs t - {#(a, b)#}"
      unfolding known_pairs_def mset_map using l by (subst image_mset_Diff) auto
    with l(1) show ?thesis by (simp add: link_broken_def known_pairs_def Let_def)
  qed (simp add: link_broken_def known_pairs_def Let_def)
  show "edge_pairs (link_broken a b t) \<subseteq> edge_pairs t - {(a, b)}"
    by (auto simp: link_broken_def edge_pairs_def joins_def Let_def)
qed

lemma replay_snoc: "replay rnd (sigs @ [x]) = replay_signal rnd x (replay rnd sigs)"
  by (simp add: replay_def)

lemma replay_accounts:
  "accounts sigs M \<Longrightarrow> known_pairs (replay rnd sigs) = filter_mset between_switches M \<and>
    edge_pairs (replay rnd sigs) \<subseteq> {p. p \<in># M \<and> between_switches p}"
proof (induction rule: accounts.induct)
  case none
  then show ?case by (simp add: replay_def known_pairs_def edge_pairs_def topology_init_def)
next
  case (discovered sigs M a b)
  then show ?case by (auto simp: replay_snoc replay_signal_def replay_discovered between_switches_def)
next
  case (broken sigs a b M)
  let ?t = "replay rnd sigs"
  have less: "sp_less x y" if "(x, y) \<in># add_mset (a, b) M" for x y by (rule accounts_ordered [OF broken.hyps that])
  have o: "\<forall>p \<in># known_pairs ?t. sp_less (fst p) (snd p)"
    using less broken.IH by (auto split: if_splits)
  have ab: "sp_less a b" using less by simp
  have "known_pairs (link_broken a b ?t) = filter_mset between_switches (add_mset (a, b) M) - {#(a, b)#}"
    using replay_broken(1) [OF o ab] broken.IH by simp
  also have "\<dots> = filter_mset between_switches M"
    by (cases "between_switches (a, b)") (auto simp: diff_single_trivial)
  finally have k: "known_pairs (link_broken a b ?t) = filter_mset between_switches M" .
  have "edge_pairs (link_broken a b ?t) \<subseteq> {p. p \<in># M \<and> between_switches p}"
    using replay_broken(2) [OF o ab] broken.IH by auto
  with k show ?case by (simp add: replay_snoc replay_signal_def)
qed

section \<open>The invariant of the known links\<close>

definition later :: "nat \<times> discovered_link \<Rightarrow> nat \<times> discovered_link \<Rightarrow> bool" where
  "later x y = (dl_valid (snd x) < dl_valid (snd y))"

text \<open>
  Nodes have different numbers and deadlines in order; a port has an iterator exactly to the link
  it is an end of.
\<close>

definition ld_core :: "link_discovery \<Rightarrow> bool" where
  "ld_core s = (distinct (map fst (ld_links s)) \<and> sorted_wrt later (ld_links s) \<and>
     (\<forall>x \<in> set (ld_links s). fst x < ld_fresh s \<and> sp_less (fst (link_ends x)) (snd (link_ends x))) \<and>
     (\<forall>a i. ld_out s a = Some i \<longleftrightarrow> (\<exists>x \<in> set (ld_links s). fst x = i \<and> (a = fst (link_ends x) \<or> a = snd (link_ends x)))))"

definition ld_ok :: "link_discovery \<Rightarrow> bool" where
  "ld_ok s = (ld_core s \<and> accounts (ld_signals s) (mset (link_pairs s)))"

lemma ld_coreD:
  assumes "ld_core s"
  shows "distinct (map fst (ld_links s))" "sorted_wrt later (ld_links s)"
    "x \<in> set (ld_links s) \<Longrightarrow> fst x < ld_fresh s" "x \<in> set (ld_links s) \<Longrightarrow> sp_less (fst (link_ends x)) (snd (link_ends x))"
    "ld_out s a = Some i \<longleftrightarrow> (\<exists>x \<in> set (ld_links s). fst x = i \<and> (a = fst (link_ends x) \<or> a = snd (link_ends x)))"
  using assms unfolding ld_core_def by blast+

lemma ld_out_None: "ld_core s \<Longrightarrow> ld_out s a = None \<Longrightarrow> x \<in> set (ld_links s) \<Longrightarrow>
  a \<noteq> fst (link_ends x) \<and> a \<noteq> snd (link_ends x)"
  using ld_coreD(5) [of s a "fst x"] by auto

lemma ld_same_node: "ld_core s \<Longrightarrow> x \<in> set (ld_links s) \<Longrightarrow> y \<in> set (ld_links s) \<Longrightarrow> fst x = fst y \<Longrightarrow> x = y"
  using ld_coreD(1) [of s] by (metis eq_key_imp_eq_value prod.collapse)

lemma ld_one_link:
  assumes "ld_core s" "x \<in> set (ld_links s)" "y \<in> set (ld_links s)"
    "a = fst (link_ends x) \<or> a = snd (link_ends x)" "a = fst (link_ends y) \<or> a = snd (link_ends y)"
  shows "x = y"
proof -
  have "ld_out s a = Some (fst x)" "ld_out s a = Some (fst y)" using assms ld_coreD(5) [OF assms(1)] by blast+
  then show ?thesis using ld_same_node [OF assms(1-3)] by simp
qed

lemma deref_ok: "ld_core s \<Longrightarrow> x \<in> set (ld_links s) \<Longrightarrow> deref_node (fst x) (ld_links s) = Inr (snd x)"
  using ld_coreD(1) [of s] map_of_is_SomeI [of "ld_links s" "fst x" "snd x"] by (cases x) (simp add: deref_node_def)

lemma set_insert_last: "list_all (\<lambda>x. dl_valid (snd x) < dl_valid l) xs \<Longrightarrow> set_insert i l xs = (xs @ [(i, l)], i)"
  by (induction xs) (auto simp: Let_def)

text \<open>Taking a link out, with both of its iterators.\<close>

definition without :: "nat \<times> discovered_link \<Rightarrow> link_discovery \<Rightarrow> link_discovery" where
  "without x s = s\<lparr>ld_links := set_erase (fst x) (ld_links s),
     ld_out := (ld_out s)(fst (link_ends x) := None, snd (link_ends x) := None)\<rparr>"

lemma set_erase_ok: "ld_core s \<Longrightarrow> x \<in> set (ld_links s) \<Longrightarrow> set (set_erase (fst x) (ld_links s)) = set (ld_links s) - {x}"
  by (rule set_eqI) (simp add: set_erase_def, metis ld_same_node)

lemma pairs_without:
  assumes "ld_core s" "x \<in> set (ld_links s)"
  shows "mset (link_pairs s) = add_mset (link_ends x) (mset (link_pairs (without x s)))"
proof -
  have d: "distinct xs \<Longrightarrow> x \<in> set xs \<Longrightarrow> filter (\<lambda>y. y \<noteq> x) xs = remove1 x xs" for xs
    by (simp add: distinct_remove1_removeAll removeAll_filter_not_eq) metis
  have "set_erase (fst x) (ld_links s) = filter (\<lambda>y. y \<noteq> x) (ld_links s)"
    unfolding set_erase_def by (intro filter_cong refl) (metis ld_same_node [OF assms(1)] assms(2))
  then have "set_erase (fst x) (ld_links s) = remove1 x (ld_links s)"
    using d [of "ld_links s"] ld_coreD(1) [OF assms(1)] assms(2) distinct_map by metis
  moreover have "mset (ld_links s) = add_mset x (mset (remove1 x (ld_links s)))" using assms(2) by simp
  ultimately have "mset (ld_links s) = add_mset x (mset (set_erase (fst x) (ld_links s)))" by simp
  then have "image_mset link_ends (mset (ld_links s)) = image_mset link_ends (add_mset x (mset (set_erase (fst x) (ld_links s))))"
    by (rule arg_cong)
  then show ?thesis by (simp add: link_pairs_def without_def)
qed

lemma ld_out_without:
  assumes "ld_core s" "x \<in> set (ld_links s)"
  shows "ld_out (without x s) a = Some i \<longleftrightarrow>
    (\<exists>y \<in> set (ld_links (without x s)). fst y = i \<and> (a = fst (link_ends y) \<or> a = snd (link_ends y)))"
proof -
  have e: "set (ld_links (without x s)) = set (ld_links s) - {x}"
    using set_erase_ok [OF assms] by (simp add: without_def)
  show ?thesis
  proof (cases "a = fst (link_ends x) \<or> a = snd (link_ends x)")
    case True
    then have "ld_out (without x s) a = None" by (auto simp: without_def)
    then show ?thesis using True e ld_one_link [OF assms(1) assms(2)] by auto
  next
    case False
    then have "ld_out (without x s) a = ld_out s a" by (auto simp: without_def)
    then show ?thesis using False e ld_coreD(5) [OF assms(1), of a i] by auto
  qed
qed

lemma without_core:
  assumes "ld_core s" "x \<in> set (ld_links s)"
  shows "ld_core (without x s)"
proof -
  let ?s = "without x s"
  have l: "ld_links ?s = set_erase (fst x) (ld_links s)" "ld_fresh ?s = ld_fresh s" by (simp_all add: without_def)
  have "distinct (map fst (set_erase (fst x) (ld_links s)))" "sorted_wrt later (set_erase (fst x) (ld_links s))"
    using ld_coreD(1,2) [OF assms(1)] by (simp_all add: set_erase_def distinct_map_filter sorted_wrt_filter)
  moreover have "y \<in> set (ld_links s)" if "y \<in> set (set_erase (fst x) (ld_links s))" for y
    using that by (auto simp: set_erase_def)
  ultimately show ?thesis
    unfolding ld_core_def l using ld_coreD(3,4) [OF assms(1)] ld_out_without [OF assms, unfolded l(1)] by simp
qed

lemma emit_core [simp]: "ld_core (emit e s) = ld_core s" "link_pairs (emit e s) = link_pairs s" "ld_links (emit e s) = ld_links s"
  "ld_signals (emit e s) = ld_signals s @ [e]" "ld_out (emit e s) = ld_out s"
  by (simp_all add: emit_def ld_core_def link_pairs_def)

definition breaks :: "nat \<times> discovered_link \<Rightarrow> link_discovery \<Rightarrow> link_discovery" where
  "breaks x s = emit (Link_broken (fst (link_ends x)) (snd (link_ends x))) (without x s)"

lemma breaks_ok: "ld_ok s \<Longrightarrow> x \<in> set (ld_links s) \<Longrightarrow> ld_ok (breaks x s)"
  using without_core [of s x] pairs_without [of s x] accounts.broken [of "ld_signals s" "fst (link_ends x)" "snd (link_ends x)"]
  by (simp add: ld_ok_def breaks_def without_def)

section \<open>Steps\<close>

lemma clear_link_at_ok:
  assumes "ld_ok s"
  shows "clear_link_at a s = Inr s \<and> ld_out s a = None \<or> (\<exists>x \<in> set (ld_links s). clear_link_at a s = Inr (breaks x s))"
proof (cases "ld_out s a")
  case (Some i)
  have c: "ld_core s" using assms by (simp add: ld_ok_def)
  obtain x where x: "x \<in> set (ld_links s)" "fst x = i" "a = fst (link_ends x) \<or> a = snd (link_ends x)"
    using ld_coreD(5) [OF c] Some by blast
  have less: "sp_less (dl_source (snd x)) (dl_target (snd x))" "dl_source (snd x) \<noteq> dl_target (snd x)"
    using ld_coreD(4) [OF c x(1)] by (auto simp: link_ends_def)
  have "ld_out s (dl_source (snd x)) = Some i" "ld_out s (dl_target (snd x)) = Some i"
    using ld_coreD(5) [OF c] x(1,2) by (auto simp: link_ends_def)
  then have "clear_link_at a s = Inr (breaks x s)"
    using x(2,3) less sp_less_asym [OF less(1)] deref_ok [OF c x(1)]
    by (auto simp: clear_link_at_def Some breaks_def without_def link_ends_def Let_def fun_upd_twist)
  with x(1) show ?thesis by blast
qed (simp add: clear_link_at_def)

lemma break_first_ok:
  assumes "ld_ok s" "x \<in> set (ld_links s)"
  shows "break_first x s = Inr (breaks x s)"
proof -
  have c: "ld_core s" using assms by (simp add: ld_ok_def)
  have "dl_source (snd x) \<noteq> dl_target (snd x)"
    using ld_coreD(4) [OF c assms(2)] by (auto simp: link_ends_def)
  moreover have "ld_out s (dl_source (snd x)) = Some (fst x)" "ld_out s (dl_target (snd x)) = Some (fst x)"
    using ld_coreD(5) [OF c] assms(2) by (auto simp: link_ends_def)
  ultimately show ?thesis by (simp add: break_first_def breaks_def without_def link_ends_def Let_def)
qed

definition beacon_added :: "int \<Rightarrow> switch_and_port \<Rightarrow> switch_and_port \<Rightarrow> link_discovery \<Rightarrow> link_discovery" where
  "beacon_added now a b s = s\<lparr>ld_links := ld_links s @ [(ld_fresh s, \<lparr>dl_source = a, dl_target = b, dl_valid = deadline (ld_interval s) now\<rparr>)],
     ld_fresh := ld_fresh s + 1, ld_out := (ld_out s)(a := Some (ld_fresh s), b := Some (ld_fresh s))\<rparr>"

lemma beacon_added_core:
  assumes "ld_core s" "sp_less a b" "list_all (\<lambda>x. dl_valid (snd x) < deadline (ld_interval s) now) (ld_links s)"
    "ld_out s a = None" "ld_out s b = None"
  shows "ld_core (beacon_added now a b s)" "mset (link_pairs (beacon_added now a b s)) = add_mset (a, b) (mset (link_pairs s))"
proof -
  let ?n = "(ld_fresh s, \<lparr>dl_source = a, dl_target = b, dl_valid = deadline (ld_interval s) now\<rparr>)"
  have fresh: "ld_fresh s \<notin> fst ` set (ld_links s)" using ld_coreD(3) [OF assms(1)] by force
  have ends: "link_ends ?n = (a, b)" by (simp add: link_ends_def)
  have out: "ld_out (beacon_added now a b s) c = Some i \<longleftrightarrow>
      (\<exists>x \<in> insert ?n (set (ld_links s)). fst x = i \<and> (c = fst (link_ends x) \<or> c = snd (link_ends x)))" for c i
    using ld_coreD(5) [OF assms(1), of c i] ld_out_None [OF assms(1,4)] ld_out_None [OF assms(1,5)] ends
    by (auto simp: beacon_added_def)
  have "sorted_wrt later (ld_links s @ [?n])"
    using ld_coreD(2) [OF assms(1)] assms(3) by (auto simp: sorted_wrt_append later_def list_all_iff)
  then show "ld_core (beacon_added now a b s)"
    unfolding ld_core_def using out fresh ld_coreD(1,3,4) [OF assms(1)] assms(2) ends
    by (auto simp: beacon_added_def less_SucI)
  show "mset (link_pairs (beacon_added now a b s)) = add_mset (a, b) (mset (link_pairs s))"
    by (simp add: link_pairs_def beacon_added_def ends)
qed

lemma handle_beacon_ok:
  assumes "ld_ok s" "fits (Beacon now a b) s"
  shows "\<exists>s'. handle_beacon now a b s = Inr s' \<and> ld_ok s'"
proof (cases "ld_out s a")
  case None
  have c: "ld_core s" using assms by (simp add: ld_ok_def)
  have b: "ld_out s b = None" "sp_less a b" "list_all (\<lambda>x. dl_valid (snd x) < deadline (ld_interval s) now) (ld_links s)"
  proof -
    have "(a, b) \<notin> set (link_pairs s)" using ld_out_None [OF c None] by (metis (no_types, lifting) fst_conv imageE list.set_map link_pairs_def)
    then show "ld_out s b = None" "sp_less a b" "list_all (\<lambda>x. dl_valid (snd x) < deadline (ld_interval s) now) (ld_links s)"
      using assms None by auto
  qed
  have "handle_beacon now a b s = Inr (emit (Link_discovered a b) (beacon_added now a b s))"
    using b(3) by (simp add: handle_beacon_def None set_insert_last beacon_added_def Let_def)
  moreover have "accounts (ld_signals s @ [Link_discovered a b]) (add_mset (a, b) (mset (link_pairs s)))"
    using assms(1) b(2) by (simp add: ld_ok_def accounts.discovered)
  ultimately show ?thesis
    using beacon_added_core [OF c b(2,3) None b(1)] by (simp add: ld_ok_def) (simp add: beacon_added_def)
next
  case (Some i)
  have c: "ld_core s" using assms by (simp add: ld_ok_def)
  have f: "sp_less a b" "list_all (\<lambda>x. dl_valid (snd x) < deadline (ld_interval s) now) (ld_links s)" "(a, b) \<in> set (link_pairs s)"
    using assms Some by auto
  then obtain x where x: "x \<in> set (ld_links s)" "link_ends x = (a, b)" by (auto simp: link_pairs_def)
  then have i: "fst x = i" using ld_coreD(5) [OF c, of a "fst x"] Some by auto
  let ?s = "without x s"
  have w: "ld_core ?s" "ld_out ?s a = None" "ld_out ?s b = None" "ld_interval ?s = ld_interval s" "ld_signals ?s = ld_signals s"
    using without_core [OF c x(1)] x(2) by (auto simp: without_def)
  have v: "list_all (\<lambda>x. dl_valid (snd x) < deadline (ld_interval ?s) now) (ld_links ?s)"
    using f(2) by (auto simp: without_def set_erase_def list_all_iff)
  have "handle_beacon now a b s = Inr (beacon_added now a b ?s)"
    using deref_ok [OF c x(1)] v x(2) i
    by (simp add: handle_beacon_def Some set_insert_last beacon_added_def Let_def without_def)
  moreover have "ld_signals (beacon_added now a b ?s) = ld_signals s" by (simp add: beacon_added_def w)
  ultimately show ?thesis
    using beacon_added_core [OF w(1) f(1) v w(2,3)] pairs_without [OF c x(1)] x(2) assms(1) by (simp add: ld_ok_def)
qed

lemma expire_links_ok:
  "ld_ok s \<Longrightarrow> xs = ld_links s \<Longrightarrow> \<exists>s'. expire_links now xs s = Inr s' \<and> ld_ok s' \<and> (\<forall>x \<in> set (ld_links s'). now \<le> dl_valid (snd x))"
proof (induction xs arbitrary: s)
  case (Cons x xs)
  show ?case
  proof (cases "dl_valid (snd x) < now")
    case True
    have x: "x \<in> set (ld_links s)" using Cons.prems by (metis list.set_intros(1))
    have c: "ld_core s" using Cons.prems by (simp add: ld_ok_def)
    have "xs = ld_links (breaks x s)"
    proof -
      have "fst x \<notin> fst ` set xs" using ld_coreD(1) [OF c] by (simp flip: Cons.prems(2))
      then have "\<forall>y \<in> set xs. fst y \<noteq> fst x" by (metis image_eqI)
      then have "filter (\<lambda>y. fst y \<noteq> fst x) (x # xs) = xs" by (simp add: filter_True)
      then show ?thesis by (simp add: breaks_def without_def set_erase_def flip: Cons.prems(2))
    qed
    from Cons.IH [OF breaks_ok [OF Cons.prems(1) x] this] True break_first_ok [OF Cons.prems(1) x]
    show ?thesis by simp
  next
    case False
    have "sorted_wrt later (x # xs)" using ld_coreD(2) [of s] Cons.prems by (simp add: ld_ok_def)
    then have "\<forall>y \<in> set (x # xs). now \<le> dl_valid (snd y)" using False by (auto simp: later_def)
    moreover have "expire_links now (x # xs) s = Inr s" using False by simp
    ultimately show ?thesis using Cons.prems by metis
  qed
qed simp

text \<open>Sending frames changes nothing else.\<close>

lemma send_lldp_same:
  "ld_ok (send_lldp d p s) = ld_ok s" "link_pairs (send_lldp d p s) = link_pairs s" "ld_links (send_lldp d p s) = ld_links s"
  by (simp_all add: send_lldp_def Let_def ld_ok_def ld_core_def link_pairs_def)

lemma foldl_same:
  "(\<And>s x. ld_ok (f s x) = ld_ok s \<and> ld_links (f s x) = ld_links s) \<Longrightarrow>
    ld_ok (foldl f s xs) = ld_ok s \<and> ld_links (foldl f s xs) = ld_links s"
  by (induction xs arbitrary: s) auto

lemma send_all_same:
  "ld_ok (foldl (\<lambda>s (d, ports). foldl (\<lambda>s port. if 0xffffff00 < op_no port then s else send_lldp d port s) s ports) s sw) = ld_ok s \<and>
   ld_links (foldl (\<lambda>s (d, ports). foldl (\<lambda>s port. if 0xffffff00 < op_no port then s else send_lldp d port s) s ports) s sw) = ld_links s"
proof (rule foldl_same)
  fix s :: link_discovery and x :: "64 word \<times> of_port list"
  show "ld_ok (case x of (d, ports) \<Rightarrow> foldl (\<lambda>s port. if 0xffffff00 < op_no port then s else send_lldp d port s) s ports) = ld_ok s \<and>
    ld_links (case x of (d, ports) \<Rightarrow> foldl (\<lambda>s port. if 0xffffff00 < op_no port then s else send_lldp d port s) s ports) = ld_links s"
    unfolding case_prod_unfold by (rule foldl_same) (simp add: send_lldp_same)
qed

lemma timer_event_ok:
  assumes "ld_ok s"
  shows "\<exists>s'. timer_event now switches s = Inr s' \<and> ld_ok s' \<and> (\<forall>x \<in> set (ld_links s'). now \<le> dl_valid (snd x))"
proof -
  obtain s1 where "expire_links now (ld_links s) s = Inr s1" "ld_ok s1" "\<forall>x \<in> set (ld_links s1). now \<le> dl_valid (snd x)"
    using expire_links_ok [OF assms refl] by blast
  then show ?thesis using send_all_same [where s = s1 and sw = switches] by (simp add: timer_event_def)
qed

lemma ld_apply_ok: "ld_ok s \<Longrightarrow> fits e s \<Longrightarrow> \<exists>s'. ld_apply e s = Inr s' \<and> ld_ok s'"
proof (cases e)
  case (Beacon now a b)
  then show "ld_ok s \<Longrightarrow> fits e s \<Longrightarrow> ?thesis" using handle_beacon_ok by simp
next
  case (Timer now sw)
  then show "ld_ok s \<Longrightarrow> ?thesis" using timer_event_ok [of s now sw] by auto
next
  case (Port_down d n)
  then show "ld_ok s \<Longrightarrow> ?thesis" using clear_link_at_ok [of s "sp d n"] breaks_ok [of s] by (auto simp: port_down_def)
next
  case (Port_modified d p q)
  then show "ld_ok s \<Longrightarrow> ?thesis"
    using clear_link_at_ok [of s "sp d (op_no p)"] breaks_ok [of s] by (auto simp: port_modified_def send_lldp_same)
qed (simp add: port_up_def send_lldp_same)

lemma fitting_run_ok: "ld_ok s \<Longrightarrow> fitting_run es s \<Longrightarrow> \<exists>s'. rfold ld_apply es s = Inr s' \<and> ld_ok s'"
proof (induction es arbitrary: s)
  case (Cons e es)
  obtain s1 where "ld_apply e s = Inr s1" "ld_ok s1" using ld_apply_ok Cons.prems by force
  then show ?case using Cons by simp
qed simp

lemma ld_ok_init: "ld_ok (ld_init c)"
  by (simp add: ld_ok_def ld_core_def ld_init_def link_pairs_def accounts.none)

section \<open>Property\<close>

text \<open>
  C7: the topology follows the links. As long as beacons fit the known links, link discovery
  never uses a dangling iterator or fails an assertion. A topology that receives its signals, in
  their order and from the start, then lists exactly the known links between different switches,
  and the graph has no other edge; the last timer event has left no link that is overdue.
\<close>

theorem topology_follows_links:
  assumes "fitting_run es (ld_init c)"
  shows "\<exists>s. rfold ld_apply es (ld_init c) = Inr s \<and>
    known_pairs (replay rnd (ld_signals s)) = filter_mset between_switches (mset (link_pairs s)) \<and>
    edge_pairs (replay rnd (ld_signals s)) \<subseteq> {p. p \<in> set (link_pairs s) \<and> between_switches p} \<and>
    distinct (link_pairs s) \<and>
    (\<forall>es1 now switches. es = es1 @ [Timer now switches] \<longrightarrow> (\<forall>x \<in> set (ld_links s). now \<le> dl_valid (snd x)))"
proof -
  obtain s where s: "rfold ld_apply es (ld_init c) = Inr s" "ld_ok s" using fitting_run_ok [OF ld_ok_init assms] by blast
  then have c: "ld_core s" and a: "accounts (ld_signals s) (mset (link_pairs s))" by (simp_all add: ld_ok_def)
  have "inj_on link_ends (set (ld_links s))" by (rule inj_onI) (metis ld_one_link [OF c])
  then have d: "distinct (link_pairs s)" using ld_coreD(1) [OF c] by (simp add: link_pairs_def distinct_map)
  have "\<forall>x \<in> set (ld_links s). now \<le> dl_valid (snd x)" if e: "es = es1 @ [Timer now switches]" for es1 now switches
  proof -
    obtain s1 where s1: "rfold ld_apply es1 (ld_init c) = Inr s1" "timer_event now switches s1 = Inr s"
      using s(1) unfolding e by (auto simp: rfold_append rbind_eq_Inr)
    have "fitting_run es1 s0" if "fitting_run (es1 @ es2) s0" for es2 s0
      using that by (induction es1 arbitrary: s0) (auto split: sum.splits)
    then have "ld_ok s1" using fitting_run_ok [OF ld_ok_init] assms s1(1) unfolding e by fastforce
    with s1(2) show ?thesis using timer_event_ok [of s1 now switches] by auto
  qed
  with s(1) d replay_accounts [OF a, of rnd] show ?thesis by auto
qed

text \<open>Three cables: one is refreshed, one is overdue, one goes down with a port.\<close>

definition sample_events :: "ld_event list" where
  "sample_events = [Beacon 10 (sp 1 1) (sp 2 1), Beacon 20 (sp 2 2) (sp 3 1), Beacon 25 (sp 1 3) (sp 3 3),
     Beacon 30 (sp 1 1) (sp 2 1), Port_down 3 3, Timer 10000000025 []]"

lemma topology_follows_links_witness:
  "fitting_run sample_events (ld_init 5) \<and>
   (\<exists>s. rfold ld_apply sample_events (ld_init 5) = Inr s \<and> known_pairs (replay (\<lambda>_. 0) (ld_signals s)) = {#(sp 1 1, sp 2 1)#})"
proof -
  have f: "fitting_run sample_events (ld_init 5)" by code_simp
  obtain s where s: "rfold ld_apply sample_events (ld_init 5) = Inr s"
    "known_pairs (replay (\<lambda>_. 0) (ld_signals s)) = filter_mset between_switches (mset (link_pairs s))"
    using topology_follows_links [OF f] by blast
  have "(case rfold ld_apply sample_events (ld_init 5) of Inl _ \<Rightarrow> False | Inr s \<Rightarrow> link_pairs s = [(sp 1 1, sp 2 1)])" by code_simp
  then have "link_pairs s = [(sp 1 1, sp 2 1)]" using s(1) by simp
  with f s show ?thesis by (auto simp: between_switches_def)
qed

text \<open>
  When a cable is moved while its old link is known, an iterator is left behind; the next event at the
  old port uses it.
\<close>

lemma moved_cable_dangles:
  "rfold ld_apply [Beacon 10 (sp 1 1) (sp 2 1), Beacon 20 (sp 1 1) (sp 3 1), Port_down 2 1] (ld_init 5) = Inl Dangling_iterator"
proof -
  have "(case rfold ld_apply [Beacon 10 (sp 1 1) (sp 2 1), Beacon 20 (sp 1 1) (sp 3 1), Port_down 2 1] (ld_init 5) of
    Inl e \<Rightarrow> e = Dangling_iterator | Inr _ \<Rightarrow> False)" by code_simp
  then show ?thesis by (simp split: sum.splits)
qed

text \<open>A port that is connected to itself ends the controller when it goes down.\<close>

lemma self_link_ends_controller:
  "rfold ld_apply [Beacon 10 (sp 1 1) (sp 1 1), Port_down 1 1] (ld_init 5) = Inl Terminated"
proof -
  have "(case rfold ld_apply [Beacon 10 (sp 1 1) (sp 1 1), Port_down 1 1] (ld_init 5) of
    Inl e \<Rightarrow> e = Terminated | Inr _ \<Rightarrow> False)" by code_simp
  then show ?thesis by (simp split: sum.splits)
qed

text \<open>When one of two parallel cables breaks, the other is listed but no longer in the graph.\<close>

lemma parallel_cable_lost:
  "(let t = replay (\<lambda>_. 0) [Link_discovered (sp 1 1) (sp 2 1), Link_discovered (sp 1 2) (sp 2 2), Link_broken (sp 1 2) (sp 2 2)]
    in map l_source (t_links t) = [sp 1 1] \<and> edges (t_graph t) = [])"
  by code_simp

end
