(* ===== verification/Loader.thy ===== *)
theory Loader
  imports Prelude
begin

text \<open>
  Initialization of the applications, \<^verbatim>\<open>src/Loader.cc\<close>: every service of the configuration
  is initialized after the services it depends on, each in the thread it is assigned to; then the
  initialized applications are started.
\<close>

section \<open>State\<close>

datatype app_state = App_registered | App_initializing | App_initialized | App_started

datatype loader_state = INITIALIZING | STARTING | RUNNING

text \<open>
  What the configuration and the applications say: number of threads, pinned threads, services,
  and for every application the services it depends on.
\<close>

record loader_config =
  lc_threads :: nat
  lc_pin :: "string \<Rightarrow> int"
  lc_services :: "string list"
  lc_depends_on :: "string \<Rightarrow> string list"

record loader =
  lo_state :: loader_state
  lo_apps :: "(string \<times> app_state) list"
  lo_last_thread :: nat
  lo_inits :: "(string \<times> nat) list"
  lo_starts :: "string list"

definition loader_init :: loader where
  "loader_init = \<lparr>lo_state = INITIALIZING, lo_apps = [], lo_last_thread = 0, lo_inits = [], lo_starts = []\<rparr>"

definition set_app :: "string \<Rightarrow> app_state \<Rightarrow> loader \<Rightarrow> loader" where
  "set_app s st l = l\<lparr>lo_apps := put s st (lo_apps l)\<rparr>"

definition find_app :: "string \<Rightarrow> loader \<Rightarrow> app_state option" where
  "find_app s l = map_of (lo_apps l) s"

section \<open>Operations\<close>

text \<open>\<open>Loader::app\<close> gives an application that is initialized.\<close>

definition loader_app :: "string \<Rightarrow> loader \<Rightarrow> string res" where
  "loader_app s l = (case find_app s l of None \<Rightarrow> Inl Out_of_range
     | Some st \<Rightarrow> if st \<noteq> App_initialized then Inl Out_of_range else Inr s)"

text \<open>The thread of an application; \<open>thread[0]\<close> of an empty vector is not there.\<close>

definition assign_thread :: "loader_config \<Rightarrow> string \<Rightarrow> loader \<Rightarrow> (nat \<times> loader) res" where
  "assign_thread c s l =
     (if 0 \<le> lc_pin c s \<and> nat (lc_pin c s) < lc_threads c then Inr (nat (lc_pin c s), l)
      else if lc_threads c \<le> lo_last_thread l then Inl Out_of_range
      else Inr (lo_last_thread l, l\<lparr>lo_last_thread :=
        (if lo_last_thread l + 1 = lc_threads c then 0 else lo_last_thread l + 1)\<rparr>))"

definition init_app :: "loader_config \<Rightarrow> string \<Rightarrow> loader \<Rightarrow> loader res" where
  "init_app c s l = rbind (assign_thread c s l) (\<lambda>(t, l1).
     Inr (set_app s App_initialized (l1\<lparr>lo_inits := lo_inits l1 @ [(s, t)]\<rparr>)))"

text \<open>
  The recursion over the dependencies. The returned pointer is null (\<open>False\<close>) when an application
  is missing. \<open>None\<close> is a recursion deeper than the fuel.
\<close>

fun init_all :: "(string \<Rightarrow> loader \<Rightarrow> (bool \<times> loader) res option) \<Rightarrow> string list \<Rightarrow> loader \<Rightarrow> (bool \<times> loader) res option" where
  "init_all f [] l = Some (Inr (True, l))"
| "init_all f (d # ds) l = (case f d l of
     None \<Rightarrow> None
   | Some (Inl e) \<Rightarrow> Some (Inl e)
   | Some (Inr (found, l1)) \<Rightarrow>
       (if \<not> found then Some (Inr (False, l1))
        else if find_app d l1 = Some App_initializing then Some (Inl Terminated)
        else init_all f ds l1))"

fun initialize :: "loader_config \<Rightarrow> nat \<Rightarrow> string \<Rightarrow> loader \<Rightarrow> (bool \<times> loader) res option" where
  "initialize c 0 s l = None"
| "initialize c (Suc n) s l = (case find_app s l of
     None \<Rightarrow> Some (Inr (False, l))
   | Some st \<Rightarrow>
       (if st \<noteq> App_registered then Some (Inr (True, l))
        else case init_all (initialize c n) (lc_depends_on c s) (set_app s App_initializing l) of
          None \<Rightarrow> None
        | Some (Inl e) \<Rightarrow> Some (Inl e)
        | Some (Inr (found, l1)) \<Rightarrow>
            (if \<not> found then Some (Inr (False, l1))
             else Some (rbind (init_app c s l1) (\<lambda>l2. Inr (True, l2))))))"

text \<open>The services of the configuration one after another; a missing one is only reported.\<close>

fun init_services :: "loader_config \<Rightarrow> nat \<Rightarrow> string list \<Rightarrow> loader \<Rightarrow> loader res option" where
  "init_services c n [] l = Some (Inr l)"
| "init_services c n (s # ss) l = (case initialize c n s l of
     None \<Rightarrow> None
   | Some (Inl e) \<Rightarrow> Some (Inl e)
   | Some (Inr (_, l1)) \<Rightarrow> init_services c n ss l1)"

definition register_app :: "string \<Rightarrow> loader \<Rightarrow> loader res" where
  "register_app s l = (if find_app s l \<noteq> None then Inl Terminated else Inr (set_app s App_registered l))"

definition start_app :: "loader \<Rightarrow> string \<Rightarrow> loader" where
  "start_app l s = (if find_app s l \<noteq> Some App_initialized then l
     else set_app s App_started (l\<lparr>lo_starts := lo_starts l @ [s]\<rparr>))"

text \<open>The fuel of \<open>startAll\<close> is one more than the number of applications.\<close>

definition start_all :: "loader_config \<Rightarrow> string list \<Rightarrow> loader res option" where
  "start_all c registry = (case rfold register_app registry loader_init of
     Inl e \<Rightarrow> Some (Inl e)
   | Inr l \<Rightarrow> (case init_services c (Suc (length registry)) (lc_services c) l of
       None \<Rightarrow> None
     | Some (Inl e) \<Rightarrow> Some (Inl e)
     | Some (Inr l1) \<Rightarrow>
         (let l2 = foldl start_app (l1\<lparr>lo_state := STARTING\<rparr>) (map fst (lo_apps l1)) in Some (Inr (l2\<lparr>lo_state := RUNNING\<rparr>)))))"

section \<open>Dependencies\<close>

text \<open>The applications \<open>xs\<close> come after the ones they depend on.\<close>

definition before_use :: "('a \<Rightarrow> 'a list) \<Rightarrow> 'a list \<Rightarrow> bool" where
  "before_use dep xs = (\<forall>ys x zs. xs = ys @ x # zs \<longrightarrow> set (dep x) \<subseteq> set ys)"

definition needs :: "loader_config \<Rightarrow> (string \<times> string) set" where
  "needs c = {(s, d). d \<in> set (lc_depends_on c s)}"

lemma before_use_Nil [simp]: "before_use dep []"
  by (simp add: before_use_def)

lemma before_use_snoc: "before_use dep xs \<Longrightarrow> set (dep x) \<subseteq> set xs \<Longrightarrow> before_use dep (xs @ [x])"
  by (auto simp: before_use_def append_eq_append_conv2 append_eq_Cons_conv Cons_eq_append_conv)

lemma before_use_closed: "before_use dep xs \<Longrightarrow> x \<in> set xs \<Longrightarrow> set (dep x) \<subseteq> set xs"
  unfolding before_use_def by (metis Un_iff set_append split_list subset_iff)

section \<open>The invariant\<close>

definition inits :: "loader \<Rightarrow> string list" where
  "inits l = map fst (lo_inits l)"

definition lo_ok :: "loader_config \<Rightarrow> loader \<Rightarrow> bool" where
  "lo_ok c l = (distinct (inits l) \<and> before_use (lc_depends_on c) (inits l) \<and>
     (\<forall>s. s \<in> set (inits l) \<longleftrightarrow> find_app s l = Some App_initialized) \<and>
     (\<forall>s. find_app s l \<noteq> Some App_started) \<and> distinct (map fst (lo_apps l)) \<and> lo_starts l = [] \<and> lo_last_thread l < lc_threads c \<and>
     (\<forall>(s, t) \<in> set (lo_inits l). t < lc_threads c \<and>
        (0 \<le> lc_pin c s \<and> nat (lc_pin c s) < lc_threads c \<longrightarrow> t = nat (lc_pin c s))))"

text \<open>What later states keep: applications stay registered, and only those still registered change.\<close>

definition extends :: "loader \<Rightarrow> loader \<Rightarrow> bool" where
  "extends l l' = (\<forall>s. (find_app s l = None \<longleftrightarrow> find_app s l' = None) \<and>
     (find_app s l \<noteq> Some App_registered \<longrightarrow> find_app s l' = find_app s l))"

lemma extends_refl [simp]: "extends l l"
  by (simp add: extends_def)

lemma extends_trans: "extends l l1 \<Longrightarrow> extends l1 l2 \<Longrightarrow> extends l l2"
  by (auto simp: extends_def)

lemma find_set_app [simp]: "find_app s (set_app t st l) = (if s = t then Some st else find_app s l)"
  by (simp add: find_app_def set_app_def)

lemma set_app_simps [simp]: "inits (set_app t st l) = inits l" "lo_inits (set_app t st l) = lo_inits l"
  "lo_last_thread (set_app t st l) = lo_last_thread l" "lo_starts (set_app t st l) = lo_starts l"
  by (simp_all add: inits_def set_app_def)

lemma lo_ok_initializing:
  assumes "lo_ok c l" "find_app s l = Some App_registered"
  shows "lo_ok c (set_app s App_initializing l)"
  using assms distinct_put [of "lo_apps l" s App_initializing] by (auto simp: lo_ok_def) (simp add: set_app_def)

lemma init_app_ok:
  assumes "lo_ok c l" "find_app s l = Some App_initializing"
    "\<forall>d \<in> set (lc_depends_on c s). find_app d l = Some App_initialized"
  shows "\<exists>l'. init_app c s l = Inr l' \<and> lo_ok c l' \<and> inits l' = inits l @ [s] \<and>
    (\<forall>t. find_app t l' = (if t = s then Some App_initialized else find_app t l))"
proof -
  have fresh: "s \<notin> set (inits l)" using assms(1,2) by (auto simp: lo_ok_def)
  have last: "lo_last_thread l < lc_threads c" using assms(1) by (simp add: lo_ok_def)
  obtain t l1 where t: "assign_thread c s l = Inr (t, l1)" "t < lc_threads c"
    "0 \<le> lc_pin c s \<and> nat (lc_pin c s) < lc_threads c \<longrightarrow> t = nat (lc_pin c s)"
    "lo_apps l1 = lo_apps l" "lo_inits l1 = lo_inits l" "lo_last_thread l1 < lc_threads c" "lo_starts l1 = lo_starts l"
  proof (cases "0 \<le> lc_pin c s \<and> nat (lc_pin c s) < lc_threads c")
    case True
    with last that show thesis by (simp add: assign_thread_def)
  next
    case False
    let ?l1 = "l\<lparr>lo_last_thread := (if lo_last_thread l + 1 = lc_threads c then 0 else lo_last_thread l + 1)\<rparr>"
    have "assign_thread c s l = Inr (lo_last_thread l, ?l1)" "lo_last_thread ?l1 < lc_threads c"
      using False last by (auto simp: assign_thread_def)
    with False last that [of "lo_last_thread l" ?l1] show thesis by auto
  qed
  let ?l = "set_app s App_initialized (l1\<lparr>lo_inits := lo_inits l1 @ [(s, t)]\<rparr>)"
  have f: "find_app x (l1\<lparr>lo_inits := i\<rparr>) = find_app x l" for x i using t(4) by (simp add: find_app_def)
  have i: "inits ?l = inits l @ [s]" using t(5) by (simp add: inits_def)
  have "before_use (lc_depends_on c) (inits l @ [s])"
    using assms(1,3) by (intro before_use_snoc) (auto simp: lo_ok_def)
  then have "lo_ok c ?l"
    unfolding lo_ok_def i using assms(1) t fresh distinct_put [of "lo_apps l" s App_initialized]
    by (auto simp: lo_ok_def f) (auto simp: set_app_def)
  moreover have "init_app c s l = Inr ?l" using t(1) by (simp add: init_app_def)
  ultimately show ?thesis using i f by (intro exI [of _ ?l]) simp
qed

section \<open>Every result respects the dependencies\<close>

definition orderly :: "loader_config \<Rightarrow> string \<Rightarrow> loader \<Rightarrow> bool \<Rightarrow> loader \<Rightarrow> bool" where
  "orderly c s l b l' = (lo_ok c l' \<and> extends l l' \<and>
     set (inits l') \<subseteq> set (inits l) \<union> {x. (s, x) \<in> rtrancl (needs c)} \<and>
     (b \<longrightarrow> find_app s l' \<notin> {None, Some App_registered}))"

lemma init_all_orderly:
  assumes "\<And>d l b l'. lo_ok c l \<Longrightarrow> f d l = Some (Inr (b, l')) \<Longrightarrow> orderly c d l b l'"
  shows "lo_ok c l \<Longrightarrow> init_all f ds l = Some (Inr (b, l')) \<Longrightarrow> lo_ok c l' \<and> extends l l' \<and>
    set (inits l') \<subseteq> set (inits l) \<union> {x. \<exists>d \<in> set ds. (d, x) \<in> rtrancl (needs c)} \<and>
    (b \<longrightarrow> (\<forall>d \<in> set ds. find_app d l' = Some App_initialized))"
proof (induction ds arbitrary: l)
  case (Cons d ds)
  then obtain b1 l1 where f: "f d l = Some (Inr (b1, l1))" by (auto split: option.splits sum.splits)
  have r: "orderly c d l b1 l1" by (rule assms [OF Cons.prems(1) f])
  show ?case
  proof (cases b1)
    case False
    then show ?thesis using Cons.prems f r by (auto simp: orderly_def)
  next
    case True
    then have n: "find_app d l1 \<noteq> Some App_initializing" "init_all f ds l1 = Some (Inr (b, l'))"
      using Cons.prems f by (auto split: if_splits)
    have l1: "lo_ok c l1" "extends l l1" "find_app d l1 \<notin> {None, Some App_registered}"
      using r True by (auto simp: orderly_def)
    then have d: "find_app d l1 = Some App_initialized" using n(1) by (auto simp: lo_ok_def) (metis app_state.exhaust)
    have ih: "lo_ok c l' \<and> extends l1 l' \<and> set (inits l') \<subseteq> set (inits l1) \<union> {x. \<exists>d \<in> set ds. (d, x) \<in> rtrancl (needs c)} \<and>
        (b \<longrightarrow> (\<forall>d \<in> set ds. find_app d l' = Some App_initialized))"
      by (rule Cons.IH [OF l1(1) n(2)])
    then have "find_app d l' = Some App_initialized" using d by (auto simp: extends_def)
    then show ?thesis using ih r l1(2) extends_trans [of l l1 l'] by (auto simp: orderly_def)
  qed
qed simp

lemma initialize_orderly:
  "lo_ok c l \<Longrightarrow> initialize c n s l = Some (Inr (b, l')) \<Longrightarrow> orderly c s l b l'"
proof (induction n arbitrary: s l b l')
  case (Suc n)
  show ?case
  proof (cases "find_app s l = Some App_registered")
    case False
    then show ?thesis using Suc.prems by (auto simp: orderly_def split: option.splits if_splits)
  next
    case True
    let ?l = "set_app s App_initializing l"
    obtain b1 l1 where f: "init_all (initialize c n) (lc_depends_on c s) ?l = Some (Inr (b1, l1))"
      using Suc.prems(2) True by (auto split: option.splits sum.splits)
    have a: "lo_ok c l1 \<and> extends ?l l1 \<and>
        set (inits l1) \<subseteq> set (inits ?l) \<union> {x. \<exists>d \<in> set (lc_depends_on c s). (d, x) \<in> rtrancl (needs c)} \<and>
        (b1 \<longrightarrow> (\<forall>d \<in> set (lc_depends_on c s). find_app d l1 = Some App_initialized))"
      by (rule init_all_orderly [OF Suc.IH lo_ok_initializing [OF Suc.prems(1) True] f])
    have e: "extends l l1" using a True by (auto simp: extends_def split: if_splits)
    have s1: "find_app s l1 = Some App_initializing" using a by (auto simp: extends_def)
    have sub: "set (inits l1) \<subseteq> set (inits l) \<union> {x. (s, x) \<in> rtrancl (needs c)}"
      using a by (auto simp: needs_def intro: converse_rtrancl_into_rtrancl)
    show ?thesis
    proof (cases b1)
      case False
      then show ?thesis using Suc.prems(2) True f a e sub by (auto simp: orderly_def)
    next
      case b1: True
      then obtain l2 where l2: "init_app c s l1 = Inr l2" "lo_ok c l2" "inits l2 = inits l1 @ [s]"
        "\<forall>t. find_app t l2 = (if t = s then Some App_initialized else find_app t l1)"
        using init_app_ok [of c l1 s] a s1 by blast
      then have "b \<and> l' = l2" using Suc.prems(2) True f b1 by simp
      moreover have "extends l l2" using e l2(4) True s1 by (auto simp: extends_def)
      ultimately show ?thesis using l2 sub by (auto simp: orderly_def)
    qed
  qed
qed simp

section \<open>Initialization returns\<close>

definition waiting :: "loader \<Rightarrow> string set" where
  "waiting l = {s. find_app s l = Some App_registered}"

lemma finite_waiting [simp]: "finite (waiting l)"
  by (rule finite_subset [of _ "set (map fst (lo_apps l))"])
    (auto simp: waiting_def find_app_def dest: map_of_SomeD intro: rev_image_eqI)

lemma waiting_extends: "extends l l' \<Longrightarrow> card (waiting l') \<le> card (waiting l)"
proof (rule card_mono [OF finite_waiting], rule subsetI)
  fix s assume "extends l l'" "s \<in> waiting l'"
  then show "s \<in> waiting l" unfolding waiting_def extends_def mem_Collect_eq by metis
qed

lemma waiting_initializing:
  "find_app s l = Some App_registered \<Longrightarrow> card (waiting l) = Suc (card (waiting (set_app s App_initializing l)))"
proof -
  assume "find_app s l = Some App_registered"
  then have "waiting l = insert s (waiting (set_app s App_initializing l))" "s \<notin> waiting (set_app s App_initializing l)"
    by (auto simp: waiting_def split: if_splits)
  then show ?thesis using card_insert_disjoint [OF finite_waiting] by simp
qed

lemma initialize_returns:
  "lo_ok c l \<Longrightarrow> card (waiting l) < n \<Longrightarrow> initialize c n s l \<noteq> None"
proof (induction n arbitrary: s l)
  case (Suc n)
  show ?case
  proof (cases "find_app s l = Some App_registered")
    case True
    have "init_all (initialize c n) ds l1 \<noteq> None" if "lo_ok c l1" "card (waiting l1) < n" for ds l1
      using that
    proof (induction ds arbitrary: l1)
      case (Cons d ds)
      obtain r where r: "initialize c n d l1 = Some r" using Suc.IH [OF Cons.prems] by blast
      have "lo_ok c l2 \<and> card (waiting l2) < n" if "r = Inr (b, l2)" for b l2
        using initialize_orderly [OF Cons.prems(1)] r that Cons.prems(2) waiting_extends [of l1 l2] by (auto simp: orderly_def) 
      then show ?case using Cons.IH r by (auto split: sum.splits)
    qed simp
    from this [OF lo_ok_initializing [OF Suc.prems(1) True], of "lc_depends_on c s"] show ?thesis
      using waiting_initializing [OF True] Suc.prems(2) True by (auto split: option.splits sum.splits)
  qed (auto split: option.splits)
qed simp

section \<open>Complete configurations\<close>

text \<open>Without cycles and missing applications nothing fails.\<close>

definition complete :: "loader_config \<Rightarrow> loader \<Rightarrow> bool" where
  "complete c l = (acyclic (needs c) \<and> (\<forall>s. find_app s l \<noteq> None \<longrightarrow> (\<forall>d \<in> set (lc_depends_on c s). find_app d l \<noteq> None)))"

lemma extends_known: "extends l l' \<Longrightarrow> find_app s l \<noteq> None \<longleftrightarrow> find_app s l' \<noteq> None"
  unfolding extends_def by simp

lemma complete_extends: "complete c l \<Longrightarrow> extends l l' \<Longrightarrow> complete c l'"
  unfolding complete_def using extends_known [of l l'] by blast

lemma complete_set_app: "complete c l \<Longrightarrow> find_app s l \<noteq> None \<Longrightarrow> complete c (set_app s st l)"
  unfolding complete_def find_set_app by (metis option.distinct(1))

text \<open>No application is left behind half initialized.\<close>

definition settled :: "loader \<Rightarrow> loader \<Rightarrow> bool" where
  "settled l l' = (\<forall>t. find_app t l' = Some App_initializing \<longrightarrow> find_app t l = Some App_initializing)"

definition completes :: "loader_config \<Rightarrow> nat \<Rightarrow> string \<Rightarrow> loader \<Rightarrow> bool" where
  "completes c n s l = (\<exists>l'. initialize c n s l = Some (Inr (True, l')) \<and> find_app s l' = Some App_initialized \<and> settled l l')"

lemma init_all_completes:
  assumes "\<And>d l1. lo_ok c l1 \<Longrightarrow> complete c l1 \<Longrightarrow> card (waiting l1) < n \<Longrightarrow> find_app d l1 \<noteq> None \<Longrightarrow>
      (\<And>t. find_app t l1 = Some App_initializing \<Longrightarrow> (t, d) \<in> trancl (needs c)) \<Longrightarrow> completes c n d l1"
  shows "lo_ok c l \<Longrightarrow> complete c l \<Longrightarrow> card (waiting l) < n \<Longrightarrow> (\<And>d. d \<in> set ds \<Longrightarrow> find_app d l \<noteq> None) \<Longrightarrow>
    (\<And>t d. find_app t l = Some App_initializing \<Longrightarrow> d \<in> set ds \<Longrightarrow> (t, d) \<in> trancl (needs c)) \<Longrightarrow>
    \<exists>l'. init_all (initialize c n) ds l = Some (Inr (True, l')) \<and> settled l l'"
proof (induction ds arbitrary: l)
  case Nil
  then show ?case by (simp add: settled_def)
next
  case (Cons d ds)
  have "completes c n d l" by (rule assms) (use Cons.prems in auto)
  then obtain l2 where l2: "initialize c n d l = Some (Inr (True, l2))" "find_app d l2 = Some App_initialized" "settled l l2"
    unfolding completes_def by blast
  have o: "lo_ok c l2" "extends l l2" using initialize_orderly [OF Cons.prems(1) l2(1)] by (auto simp: orderly_def)
  have "\<exists>l3. init_all (initialize c n) ds l2 = Some (Inr (True, l3)) \<and> settled l2 l3"
  proof (rule Cons.IH [OF o(1) complete_extends [OF Cons.prems(2) o(2)]])
    show "card (waiting l2) < n" using waiting_extends [OF o(2)] Cons.prems(3) by simp
    show "find_app x l2 \<noteq> None" if "x \<in> set ds" for x
      using Cons.prems(4) [of x] that extends_known [OF o(2)] by auto
    show "(t, x) \<in> trancl (needs c)" if "find_app t l2 = Some App_initializing" "x \<in> set ds" for t x
      using Cons.prems(5) [of t x] that l2(3) by (auto simp: settled_def)
  qed
  then show ?case using l2 by (auto simp: settled_def)
qed

lemma initialize_complete:
  "lo_ok c l \<Longrightarrow> complete c l \<Longrightarrow> card (waiting l) < n \<Longrightarrow> find_app s l \<noteq> None \<Longrightarrow>
    (\<And>t. find_app t l = Some App_initializing \<Longrightarrow> (t, s) \<in> trancl (needs c)) \<Longrightarrow> completes c n s l"
proof (induction n arbitrary: s l)
  case (Suc n)
  have acyc: "(s, s) \<notin> trancl (needs c)" using Suc.prems(2) by (simp add: complete_def acyclic_def)
  show ?case
  proof (cases "find_app s l = Some App_registered")
    case False
    then have "find_app s l = Some App_initialized"
      using Suc.prems(1,4,5) acyc by (auto simp: lo_ok_def) (metis app_state.exhaust)
    then show ?thesis by (simp add: completes_def settled_def)
  next
    case True
    let ?l = "set_app s App_initializing l"
    have "\<exists>l'. init_all (initialize c n) (lc_depends_on c s) ?l = Some (Inr (True, l')) \<and> settled ?l l'"
    proof (rule init_all_completes [OF Suc.IH])
      show "lo_ok c ?l" by (rule lo_ok_initializing [OF Suc.prems(1) True])
      show "complete c ?l" by (rule complete_set_app [OF Suc.prems(2)]) (simp add: True)
      show "card (waiting ?l) < n" using waiting_initializing [OF True] Suc.prems(3) by simp
      show "find_app d ?l \<noteq> None" if "d \<in> set (lc_depends_on c s)" for d
        using Suc.prems(2,4) that unfolding complete_def by auto
      show "(t, d) \<in> trancl (needs c)" if "find_app t ?l = Some App_initializing" "d \<in> set (lc_depends_on c s)" for t d
      proof -
        have "(s, d) \<in> needs c" using that(2) by (simp add: needs_def)
        moreover have "t = s \<or> (t, s) \<in> trancl (needs c)" using that(1) Suc.prems(5) by (auto split: if_splits)
        ultimately show ?thesis by (auto intro: trancl_into_trancl)
      qed
    qed
    then obtain l1 where l1: "init_all (initialize c n) (lc_depends_on c s) ?l = Some (Inr (True, l1))" "settled ?l l1" by blast
    have a: "lo_ok c l1" "extends ?l l1" "\<forall>d \<in> set (lc_depends_on c s). find_app d l1 = Some App_initialized"
      using init_all_orderly [OF initialize_orderly lo_ok_initializing [OF Suc.prems(1) True] l1(1)] by auto
    have "find_app s l1 = Some App_initializing" using a(2) by (auto simp: extends_def)
    then obtain l2 where l2: "init_app c s l1 = Inr l2"
      "\<forall>t. find_app t l2 = (if t = s then Some App_initialized else find_app t l1)"
      using init_app_ok [OF a(1) _ a(3)] by blast
    then have "initialize c (Suc n) s l = Some (Inr (True, l2))" using l1(1) True by simp
    then show ?thesis using l2(2) l1(2) by (auto simp: completes_def settled_def split: if_splits)
  qed
qed simp

section \<open>Starting everything\<close>

lemma register_all:
  "distinct (map fst (lo_apps l) @ registry) \<Longrightarrow>
    \<exists>l'. rfold register_app registry l = Inr l' \<and>
      (\<forall>s. find_app s l' = (if s \<in> set registry then Some App_registered else find_app s l)) \<and>
      lo_inits l' = lo_inits l \<and> lo_last_thread l' = lo_last_thread l \<and> lo_starts l' = lo_starts l \<and>
      map fst (lo_apps l') = map fst (lo_apps l) @ registry"
proof (induction registry arbitrary: l)
  case (Cons s ss)
  let ?l = "set_app s App_registered l"
  have put: "put s st xs = xs @ [(s, st)]" if "s \<notin> fst ` set xs" for st xs using that by (induction xs) auto
  have "s \<notin> fst ` set (lo_apps l)" using Cons.prems by auto
  from put [OF this] have k: "map fst (lo_apps ?l) = map fst (lo_apps l) @ [s]" by (simp add: set_app_def)
  have f: "find_app s l = None" using Cons.prems by (simp add: find_app_def map_of_eq_None_iff)
  have d: "distinct (map fst (lo_apps ?l) @ ss)" using Cons.prems unfolding k by auto
  from Cons.IH [OF d] f k show ?case by (auto simp: register_app_def)
qed simp

lemma init_services_returns:
  "lo_ok c l \<Longrightarrow> card (waiting l) < n \<Longrightarrow> \<exists>r. init_services c n ss l = Some r \<and>
    (\<forall>l'. r = Inr l' \<longrightarrow> lo_ok c l' \<and> extends l l' \<and> set (inits l') \<subseteq> set (inits l) \<union> {x. \<exists>s \<in> set ss. (s, x) \<in> rtrancl (needs c)}) \<and>
    (complete c l \<and> (\<forall>t. find_app t l \<noteq> Some App_initializing) \<longrightarrow>
      (\<exists>l'. r = Inr l' \<and> (\<forall>s \<in> set ss. find_app s l \<noteq> None \<longrightarrow> find_app s l' = Some App_initialized)))"
proof (induction ss arbitrary: l)
  case (Cons s ss)
  obtain r where r: "initialize c n s l = Some r" using initialize_returns [OF Cons.prems] by blast
  show ?case
  proof (cases r)
    case (Inl e)
    have False if "complete c l" "\<forall>t. find_app t l \<noteq> Some App_initializing"
    proof (cases "find_app s l = None")
      case True
      then show False using r Inl by (cases n) simp_all
    next
      case False
      then have "completes c n s l" using that Cons.prems by (intro initialize_complete) auto
      then show False using r Inl by (auto simp: completes_def)
    qed
    then show ?thesis using r Inl by auto
  next
    case (Inr bl)
    obtain b l1 where bl: "bl = (b, l1)" by (cases bl)
    have o: "lo_ok c l1" "extends l l1" "set (inits l1) \<subseteq> set (inits l) \<union> {x. (s, x) \<in> rtrancl (needs c)}"
      using initialize_orderly [OF Cons.prems(1)] r Inr bl by (auto simp: orderly_def)
    have w: "card (waiting l1) < n" using waiting_extends [OF o(2)] Cons.prems(2) by simp
    obtain r' where r': "init_services c n ss l1 = Some r'"
      "\<forall>l'. r' = Inr l' \<longrightarrow> lo_ok c l' \<and> extends l1 l' \<and> set (inits l') \<subseteq> set (inits l1) \<union> {x. \<exists>s \<in> set ss. (s, x) \<in> rtrancl (needs c)}"
      "complete c l1 \<and> (\<forall>t. find_app t l1 \<noteq> Some App_initializing) \<longrightarrow>
        (\<exists>l'. r' = Inr l' \<and> (\<forall>s \<in> set ss. find_app s l1 \<noteq> None \<longrightarrow> find_app s l' = Some App_initialized))"
      using Cons.IH [OF o(1) w] by blast
    have e: "init_services c n (s # ss) l = Some r'" using r Inr bl r'(1) by simp
    have full: "\<exists>l'. r' = Inr l' \<and> (\<forall>x \<in> set (s # ss). find_app x l \<noteq> None \<longrightarrow> find_app x l' = Some App_initialized)"
      if full: "complete c l" "\<forall>t. find_app t l \<noteq> Some App_initializing"
    proof -
      have s1: "(find_app s l \<noteq> None \<longrightarrow> find_app s l1 = Some App_initialized) \<and> (\<forall>t. find_app t l1 \<noteq> Some App_initializing)"
      proof (cases "find_app s l = None")
        case True
        then have "l1 = l" using r Inr bl Cons.prems(2) by (cases n) auto
        then show ?thesis using True full by simp
      next
        case False
        then have "completes c n s l" using full Cons.prems by (intro initialize_complete) auto
        then show ?thesis using r Inr bl full(2) by (auto simp: completes_def settled_def)
      qed
      obtain l' where l': "r' = Inr l'" "\<forall>x \<in> set ss. find_app x l1 \<noteq> None \<longrightarrow> find_app x l' = Some App_initialized"
        using r'(3) complete_extends [OF full(1) o(2)] s1 by blast
      have "find_app s l \<noteq> None \<longrightarrow> find_app s l' = Some App_initialized"
        using s1 r'(2) l'(1) by (auto simp: extends_def)
      then show ?thesis using l' extends_known [OF o(2)] by auto
    qed
    have "lo_ok c l' \<and> extends l l' \<and> set (inits l') \<subseteq> set (inits l) \<union> {x. \<exists>s \<in> set (s # ss). (s, x) \<in> rtrancl (needs c)}"
      if "r' = Inr l'" for l'
      using r'(2) that o extends_trans [OF o(2), of l'] by auto
    with e full show ?thesis by blast
  qed
qed (auto simp: complete_def)

lemma start_apps:
  "distinct ks \<Longrightarrow> (\<forall>s. find_app s (foldl start_app l ks) =
      (if s \<in> set ks \<and> find_app s l = Some App_initialized then Some App_started else find_app s l)) \<and>
    lo_starts (foldl start_app l ks) = lo_starts l @ filter (\<lambda>s. find_app s l = Some App_initialized) ks \<and>
    lo_inits (foldl start_app l ks) = lo_inits l"
proof (induction ks arbitrary: l)
  case (Cons k ks)
  have f: "find_app s (start_app l k) = (if s = k \<and> find_app k l = Some App_initialized then Some App_started else find_app s l)" for s
    by (auto simp: start_app_def) (simp_all add: find_app_def)
  have g: "lo_starts (start_app l k) = lo_starts l @ (if find_app k l = Some App_initialized then [k] else [])"
    "lo_inits (start_app l k) = lo_inits l" by (simp_all add: start_app_def)
  have "filter (\<lambda>s. find_app s (start_app l k) = Some App_initialized) ks = filter (\<lambda>s. find_app s l = Some App_initialized) ks"
    using Cons.prems by (intro filter_cong) (auto simp: f)
  then show ?case using Cons.IH [of "start_app l k"] Cons.prems by (auto simp: f g)
qed simp

section \<open>Property\<close>

text \<open>
  C22: starting the controller ends, and every application is initialized after the ones it needs.
  For distinct applications and at least one thread \<open>startAll\<close> returns or stops the program. When
  it returns, no application was initialized twice, each one after everything it depends on and in
  the thread it is pinned to, and exactly the initialized ones were started; \<open>Loader::app\<close> gives none of them from then on. When the dependencies
  have no cycle and none is missing it does return, and has started exactly what the services of
  the configuration need.
\<close>

theorem services_start_after_dependencies:
  assumes "distinct registry" "0 < lc_threads c"
  shows "\<exists>r. start_all c registry = Some r \<and>
    (\<forall>l. r = Inr l \<longrightarrow> distinct (inits l) \<and> before_use (lc_depends_on c) (inits l) \<and>
       distinct (lo_starts l) \<and> set (lo_starts l) = set (inits l) \<and>
       set (inits l) \<subseteq> {x. \<exists>s \<in> set (lc_services c). (s, x) \<in> rtrancl (needs c)} \<and>
       (\<forall>(s, t) \<in> set (lo_inits l). t < lc_threads c \<and>
          (0 \<le> lc_pin c s \<and> nat (lc_pin c s) < lc_threads c \<longrightarrow> t = nat (lc_pin c s))) \<and>
       (\<forall>s. loader_app s l = Inl Out_of_range)) \<and>
    (acyclic (needs c) \<and> (\<forall>s \<in> set registry. set (lc_depends_on c s) \<subseteq> set registry) \<and> set (lc_services c) \<subseteq> set registry \<longrightarrow>
       (\<exists>l. r = Inr l \<and> set (lo_starts l) = {x. \<exists>s \<in> set (lc_services c). (s, x) \<in> rtrancl (needs c)}))"
proof -
  obtain l where l: "rfold register_app registry loader_init = Inr l"
    "\<forall>s. find_app s l = (if s \<in> set registry then Some App_registered else None)"
    "lo_inits l = []" "lo_last_thread l = 0" "lo_starts l = []" "map fst (lo_apps l) = registry"
  proof -
    have e: "lo_apps loader_init = []" "lo_inits loader_init = []" "lo_last_thread loader_init = 0" "lo_starts loader_init = []"
      "find_app s loader_init = None" for s by (simp_all add: loader_init_def find_app_def)
    have "distinct (map fst (lo_apps loader_init) @ registry)" using assms(1) e(1) by simp
    from register_all [OF this] show thesis using that unfolding e by auto
  qed
  have i: "inits l = []" using l(3) by (simp add: inits_def)
  have ok: "lo_ok c l" unfolding lo_ok_def i using assms l by simp
  have "waiting l = set registry" using l(2) by (auto simp: waiting_def)
  then have w: "card (waiting l) < Suc (length registry)" using card_length [of registry] by simp
  have complete: "complete c l \<longleftrightarrow> acyclic (needs c) \<and> (\<forall>s \<in> set registry. set (lc_depends_on c s) \<subseteq> set registry)"
    using l(2) by (auto simp: complete_def)
  obtain r where r: "init_services c (Suc (length registry)) (lc_services c) l = Some r"
    "\<forall>l'. r = Inr l' \<longrightarrow> lo_ok c l' \<and> extends l l' \<and> set (inits l') \<subseteq> set (inits l) \<union> {x. \<exists>s \<in> set (lc_services c). (s, x) \<in> rtrancl (needs c)}"
    "complete c l \<and> (\<forall>t. find_app t l \<noteq> Some App_initializing) \<longrightarrow>
      (\<exists>l'. r = Inr l' \<and> (\<forall>s \<in> set (lc_services c). find_app s l \<noteq> None \<longrightarrow> find_app s l' = Some App_initialized))"
    using init_services_returns [OF ok w, of "lc_services c"] by (elim exE conjE) (rule that)
  define run where "run l1 = (foldl start_app (l1\<lparr>lo_state := STARTING\<rparr>) (map fst (lo_apps l1)))\<lparr>lo_state := RUNNING\<rparr>" for l1
  have start: "start_all c registry = Some (case r of Inl e \<Rightarrow> Inl e | Inr l1 \<Rightarrow> Inr (run l1))"
    using l(1) r(1) by (auto simp: start_all_def run_def Let_def split: sum.splits)
  have run: "lo_inits (run l1) = lo_inits l1 \<and> (\<forall>s. loader_app s (run l1) = Inl Out_of_range) \<and> distinct (lo_starts (run l1)) \<and> set (lo_starts (run l1)) = set (inits l1)"
    if "r = Inr l1" for l1
  proof -
    have e: "lo_ok c l1" using r(2) that by blast
    then have d: "distinct (map fst (lo_apps l1))" "lo_starts l1 = []"
      "\<forall>s. s \<in> set (inits l1) \<longleftrightarrow> find_app s l1 = Some App_initialized" by (simp_all add: lo_ok_def)
    have same: "find_app s (l1\<lparr>lo_state := STARTING\<rparr>) = find_app s l1" for s by (simp add: find_app_def)
    have "set (inits l1) \<subseteq> set (map fst (lo_apps l1))"
      using d(3) by (auto simp: find_app_def) (metis domI dom_map_of_conv_image_fst)
    moreover have "find_app s (run l1) \<noteq> Some App_initialized" for s
      using start_apps [OF d(1), of "l1\<lparr>lo_state := STARTING\<rparr>"] calculation d(3) same by (auto simp: run_def find_app_def)
    ultimately show ?thesis
      using start_apps [OF d(1), of "l1\<lparr>lo_state := STARTING\<rparr>"] d
      by (auto simp: run_def same loader_app_def split: option.splits)
  qed
  let ?r = "case r of Inl e \<Rightarrow> Inl e | Inr l1 \<Rightarrow> Inr (run l1)"
  have good: "lo_ok c l1" "set (inits l1) \<subseteq> {x. \<exists>s \<in> set (lc_services c). (s, x) \<in> rtrancl (needs c)}" if "r = Inr l1" for l1
    using r(2) that i by auto
  have "\<exists>l1. ?r = Inr (run l1) \<and> set (lo_starts (run l1)) = {x. \<exists>s \<in> set (lc_services c). (s, x) \<in> rtrancl (needs c)}"
    if q: "acyclic (needs c)" "\<forall>s \<in> set registry. set (lc_depends_on c s) \<subseteq> set registry" "set (lc_services c) \<subseteq> set registry"
  proof -
    have "complete c l" "\<forall>t. find_app t l \<noteq> Some App_initializing" "\<forall>s \<in> set (lc_services c). find_app s l \<noteq> None"
      using q complete l(2) by auto
    with r(3) obtain l1 where l1: "r = Inr l1" "\<forall>s \<in> set (lc_services c). find_app s l1 = Some App_initialized" by blast
    note o = good [OF l1(1)]
    have "x \<in> set (inits l1)" if "(s, x) \<in> rtrancl (needs c)" "s \<in> set (lc_services c)" for s x
      using that
    proof (induction rule: rtrancl_induct)
      case base
      then show ?case using l1(2) o(1) by (simp add: lo_ok_def)
    next
      case (step y z)
      then show ?case using before_use_closed [of "lc_depends_on c" "inits l1" y] o(1) by (auto simp: lo_ok_def needs_def)
    qed
    with o(2) run [OF l1(1)] l1(1) show ?thesis by (intro exI [of _ l1]) auto
  qed
  moreover have "distinct (inits l2) \<and> before_use (lc_depends_on c) (inits l2) \<and>
       distinct (lo_starts l2) \<and> set (lo_starts l2) = set (inits l2) \<and>
       set (inits l2) \<subseteq> {x. \<exists>s \<in> set (lc_services c). (s, x) \<in> rtrancl (needs c)} \<and>
       (\<forall>(s, t) \<in> set (lo_inits l2). t < lc_threads c \<and>
          (0 \<le> lc_pin c s \<and> nat (lc_pin c s) < lc_threads c \<longrightarrow> t = nat (lc_pin c s))) \<and>
       (\<forall>s. loader_app s l2 = Inl Out_of_range)" if "?r = Inr l2" for l2
  proof -
    from that obtain l1 where l1: "r = Inr l1" "l2 = run l1" by (cases r) auto
    then have "inits l2 = inits l1" "lo_inits l2 = lo_inits l1" using run [OF l1(1)] by (simp_all add: inits_def)
    with l1 run [OF l1(1)] good [OF l1(1)] show ?thesis by (simp add: lo_ok_def)
  qed
  ultimately show ?thesis using start by (intro exI [of _ ?r]) blast
qed

text \<open>Three applications, in the order of the configuration the last one needs the other two.\<close>

definition sample_config :: loader_config where
  "sample_config = \<lparr>lc_threads = 2, lc_pin = (\<lambda>s. if s = ''stp'' then 1 else - 1), lc_services = [''stp''],
     lc_depends_on = (\<lambda>s. if s = ''stp'' then [''topology'', ''controller''] else if s = ''topology'' then [''controller''] else [])\<rparr>"

lemma sample_acyclic: "acyclic (needs sample_config)"
proof -
  define rank :: "string \<Rightarrow> nat" where "rank s = (if s = ''stp'' then 2 else if s = ''topology'' then 1 else 0)" for s
  have "needs sample_config \<subseteq> (measure rank)\<inverse>"
    by (auto simp: needs_def sample_config_def rank_def split: if_splits)
  moreover have "acyclic ((measure rank)\<inverse>)" unfolding acyclic_converse by (rule wf_acyclic) simp
  ultimately show ?thesis by (rule acyclic_subset [rotated])
qed

lemma services_start_after_dependencies_witness:
  "\<exists>l. start_all sample_config [''topology'', ''stp'', ''controller''] = Some (Inr l) \<and>
     before_use (lc_depends_on sample_config) (inits l) \<and>
     set (lo_starts l) = {x. (''stp'', x) \<in> rtrancl (needs sample_config)}"
proof -
  let ?reg = "[''topology'', ''stp'', ''controller'']"
  obtain r where r: "start_all sample_config ?reg = Some r"
    "\<forall>l. r = Inr l \<longrightarrow> before_use (lc_depends_on sample_config) (inits l)"
    "acyclic (needs sample_config) \<and> (\<forall>s \<in> set ?reg. set (lc_depends_on sample_config s) \<subseteq> set ?reg) \<and>
        set (lc_services sample_config) \<subseteq> set ?reg \<longrightarrow>
      (\<exists>l. r = Inr l \<and> set (lo_starts l) = {x. \<exists>s \<in> set (lc_services sample_config). (s, x) \<in> rtrancl (needs sample_config)})"
    using services_start_after_dependencies [of ?reg sample_config] by (auto simp: sample_config_def)
  have "\<exists>l. r = Inr l \<and> set (lo_starts l) = {x. \<exists>s \<in> set (lc_services sample_config). (s, x) \<in> rtrancl (needs sample_config)}"
    using r(3) sample_acyclic by (simp add: sample_config_def)
  with r(1,2) show ?thesis by (auto simp: sample_config_def)
qed

text \<open>
  An application that could not be initialized because another is missing stays half initialized:
  the next one that needs it is reported to be in a cycle.
\<close>

lemma missing_dependency_looks_cyclic:
  "start_all \<lparr>lc_threads = 1, lc_pin = (\<lambda>_. - 1), lc_services = [''a'', ''b''],
     lc_depends_on = (\<lambda>s. if s = ''a'' then [''missing''] else if s = ''b'' then [''a''] else [])\<rparr> [''a'', ''b''] = Some (Inl Terminated)"
  by (simp add: start_all_def register_app_def loader_init_def find_app_def set_app_def)

end
