(* ===== verification/Maple_Tree.thy ===== *)
theory Maple_Tree
  imports Trace_Tree Multi_Field_Set
begin

text \<open>
  The trace tree of Maple, \<^verbatim>\<open>src/maple/TraceTree.cc\<close>: one tree for all packets of the network,
  whose nodes carry the priorities of their rules. \<open>TracerImpl\<close> adds the trace of a run,
  \<open>Lookup\<close> finds the flow of a packet, \<open>Compiler\<close> hands the rules of a subtree to the backend.
  Virtual loads are left out: no application makes one.
\<close>

section \<open>The tree\<close>

text \<open>Flows are known by their cookies; the tree holds weak pointers to them.\<close>

datatype mnode =
    M_unexplored
  | M_flow nat "16 word"
  | M_test oxm_field mnode mnode nat "16 word"
  | M_load oxm_mask "(bits \<times> mnode) list"

datatype maple_call =
    M_install "16 word" full_field_set nat
  | M_barrier_rule "16 word" full_field_set oxm_field nat
  | M_barrier
  | M_remove_all

text \<open>\<open>Compiler\<close>: the visitor's match and the calls it makes. \<open>alive\<close> tells which flows still exist.\<close>

fun m_compile :: "(nat \<Rightarrow> bool) \<Rightarrow> mnode \<Rightarrow> full_field_set \<times> maple_call list \<Rightarrow> full_field_set \<times> maple_call list"
  and m_compile_cases :: "(nat \<Rightarrow> bool) \<Rightarrow> oxm_mask \<Rightarrow> (bits \<times> mnode) list \<Rightarrow>
    full_field_set \<times> maple_call list \<Rightarrow> full_field_set \<times> maple_call list" where
  "m_compile alive M_unexplored s = s"
| "m_compile alive (M_test need pos neg nid prio) (mt, calls) =
     (case m_compile alive neg (ffs_exclude mt need, calls) of (mt1, calls1) \<Rightarrow>
        let mt2 = ffs_add (ffs_include mt1 (mask_of need)) need in
        case m_compile alive pos (mt2, calls1 @ [M_barrier_rule prio mt2 need nid]) of (mt3, calls3) \<Rightarrow>
          (ffs_erase mt3 (mask_of need), calls3))"
| "m_compile alive (M_load m cases) s = m_compile_cases alive m cases s"
| "m_compile alive (M_flow fl prio) (mt, calls) =
     (mt, if alive fl then calls @ [M_install prio mt fl] else calls)"
| "m_compile_cases alive m [] s = s"
| "m_compile_cases alive m ((b, n) # cs) (mt, calls) =
     (case m_compile alive n (ffs_add mt (case_field m b), calls) of (mt1, calls1) \<Rightarrow>
        m_compile_cases alive m cs (ffs_erase mt1 m, calls1))"

text \<open>\<open>Lookup\<close>.\<close>

fun m_lookup :: "('p \<Rightarrow> oxm_mask \<Rightarrow> oxm_field) \<Rightarrow> ('p \<Rightarrow> oxm_field \<Rightarrow> bool) \<Rightarrow> (nat \<Rightarrow> bool) \<Rightarrow> 'p \<Rightarrow> mnode \<Rightarrow> nat option"
  and m_lookup_cases :: "('p \<Rightarrow> oxm_mask \<Rightarrow> oxm_field) \<Rightarrow> ('p \<Rightarrow> oxm_field \<Rightarrow> bool) \<Rightarrow> (nat \<Rightarrow> bool) \<Rightarrow> 'p \<Rightarrow>
    oxm_mask \<Rightarrow> (bits \<times> mnode) list \<Rightarrow> nat option" where
  "m_lookup ld tst alive p M_unexplored = None"
| "m_lookup ld tst alive p (M_test f pos neg nid prio) =
     (if tst p f then m_lookup ld tst alive p pos else m_lookup ld tst alive p neg)"
| "m_lookup ld tst alive p (M_load m cases) = m_lookup_cases ld tst alive p m cases"
| "m_lookup ld tst alive p (M_flow fl prio) = (if alive fl then Some fl else None)"
| "m_lookup_cases ld tst alive p m [] = None"
| "m_lookup_cases ld tst alive p m ((b, n) # cs) =
     (if b = f_value (ld p m) then m_lookup ld tst alive p n else m_lookup_cases ld tst alive p m cs)"

section \<open>Adding a trace\<close>

text \<open>
  The state of \<open>TracerImpl\<close>, and the counter of \<open>id_generator\<close>. A step gives the node to go on
  with and how the tree is rebuilt around it; it throws before it changes the node it stands at.
\<close>

record tracer_impl =
  ti_left :: "16 word"
  ti_right :: "16 word"
  ti_match :: full_field_set
  ti_calls :: "maple_call list"
  ti_next_id :: nat

definition tracer_init :: "16 word \<Rightarrow> 16 word \<Rightarrow> nat \<Rightarrow> tracer_impl" where
  "tracer_init l r i = \<lparr>ti_left = l, ti_right = r, ti_match = ffs_make [] [], ti_calls = [], ti_next_id = i\<rparr>"

fun m_find_case :: "bits \<Rightarrow> (bits \<times> mnode) list \<Rightarrow> mnode option" where
  "m_find_case b [] = None"
| "m_find_case b ((c, n) # cs) = (if c = b then Some n else m_find_case b cs)"

definition ti_load :: "oxm_field \<Rightarrow> mnode \<Rightarrow> tracer_impl \<Rightarrow> ((mnode \<Rightarrow> mnode) \<times> mnode \<times> tracer_impl) res" where
  "ti_load f cur s = (let s' = s\<lparr>ti_match := ffs_add (ti_match s) f\<rparr> in
     case cur of
       M_unexplored \<Rightarrow> Inr (\<lambda>n. M_load (mask_of f) [(f_value f, n)], M_unexplored, s')
     | M_load m cases \<Rightarrow>
         (if \<not> mask_eq m (mask_of f) then Inl Inconsistent_trace
          else Inr (\<lambda>n. M_load m (put (f_value f) n cases),
            case m_find_case (f_value f) cases of None \<Rightarrow> M_unexplored | Some n \<Rightarrow> n, s'))
     | _ \<Rightarrow> Inl Inconsistent_trace)"

definition ti_after_test :: "oxm_field \<Rightarrow> bool \<Rightarrow> 16 word \<Rightarrow> tracer_impl \<Rightarrow> tracer_impl" where
  "ti_after_test f ret prio s =
     (if ret then s\<lparr>ti_left := prio, ti_match := ffs_add (ti_match s) f\<rparr>
      else s\<lparr>ti_right := prio, ti_match := ffs_exclude (ti_match s) f\<rparr>)"

definition ti_middle :: "tracer_impl \<Rightarrow> 16 word res" where
  "ti_middle s = (let prio = mid_prio (ti_left s) (ti_right s)
     in if prio \<le> ti_left s \<or> ti_right s \<le> prio then Inl Priority_exceeded else Inr prio)"

definition ti_test :: "oxm_field \<Rightarrow> bool \<Rightarrow> mnode \<Rightarrow> tracer_impl \<Rightarrow> ((mnode \<Rightarrow> mnode) \<times> mnode \<times> tracer_impl) res" where
  "ti_test f ret cur s = (case cur of
       M_unexplored \<Rightarrow> rbind (ti_middle s) (\<lambda>prio.
         let s' = s\<lparr>ti_next_id := ti_next_id s + 1,
           ti_calls := ti_calls s @ [M_barrier_rule prio (ffs_add (ti_match s) f) f (ti_next_id s)]\<rparr>
         in Inr (if ret then (\<lambda>n. M_test f n M_unexplored (ti_next_id s) prio)
              else (\<lambda>n. M_test f M_unexplored n (ti_next_id s) prio), M_unexplored, ti_after_test f ret prio s'))
     | M_test need pos neg nid prio \<Rightarrow>
         (if \<not> field_eq need f then Inl Inconsistent_trace
          else if ret then Inr (\<lambda>n. M_test need n neg nid prio, pos, ti_after_test f ret prio s)
          else Inr (\<lambda>n. M_test need pos n nid prio, neg, ti_after_test f ret prio s))
     | _ \<Rightarrow> Inl Inconsistent_trace)"

definition ti_step :: "obs \<Rightarrow> mnode \<Rightarrow> tracer_impl \<Rightarrow> ((mnode \<Rightarrow> mnode) \<times> mnode \<times> tracer_impl) res" where
  "ti_step x cur s = (case x of Load_obs f \<Rightarrow> ti_load f cur s | Test_obs f r \<Rightarrow> ti_test f r cur s)"

definition ti_finish :: "nat \<Rightarrow> mnode \<Rightarrow> tracer_impl \<Rightarrow> mnode res" where
  "ti_finish fl cur s = (case cur of
       M_unexplored \<Rightarrow> rbind (ti_middle s) (\<lambda>prio. Inr (M_flow fl prio))
     | M_flow _ prio \<Rightarrow> Inr (M_flow fl prio)
     | _ \<Rightarrow> Inl Inconsistent_trace)"

text \<open>The installer that \<open>finish\<close> returns, run on the leaf.\<close>

definition ti_installer :: "(nat \<Rightarrow> bool) \<Rightarrow> mnode \<Rightarrow> full_field_set \<Rightarrow> maple_call list" where
  "ti_installer alive leaf mt = snd (m_compile alive leaf (mt, [M_barrier])) @ [M_barrier]"

text \<open>
  A whole trace. It ends with the flow to finish with, or with the exception the handlers ended with.
  An exception leaves the nodes that were added before it in the tree; otherwise the leaf is
  returned for the installer.
\<close>

fun m_augment :: "obs list \<Rightarrow> nat res \<Rightarrow> mnode \<Rightarrow> tracer_impl \<Rightarrow> mnode \<times> tracer_impl \<times> mnode res" where
  "m_augment [] fin cur s = (case rbind fin (\<lambda>fl. ti_finish fl cur s) of
     Inl e \<Rightarrow> (cur, s, Inl e)
   | Inr leaf \<Rightarrow> (leaf, s, Inr leaf))"
| "m_augment (x # xs) fin cur s = (case ti_step x cur s of
     Inl e \<Rightarrow> (cur, s, Inl e)
   | Inr (rebuild, cur', s') \<Rightarrow> (case m_augment xs fin cur' s' of (n, s2, r) \<Rightarrow> (rebuild n, s2, r)))"

text \<open>The node a trace leads to, where the installer's pointer stays.\<close>

fun m_at :: "obs list \<Rightarrow> mnode \<Rightarrow> mnode" where
  "m_at [] n = n"
| "m_at (x # xs) n = (case n of
     M_load m cases \<Rightarrow> (case x of
         Load_obs f \<Rightarrow> m_at xs (case m_find_case (f_value f) cases of None \<Rightarrow> M_unexplored | Some k \<Rightarrow> k)
       | Test_obs f r \<Rightarrow> M_unexplored)
   | M_test need pos neg nid prio \<Rightarrow> (case x of Test_obs f r \<Rightarrow> m_at xs (if r then pos else neg) | Load_obs f \<Rightarrow> M_unexplored)
   | _ \<Rightarrow> M_unexplored)"

section \<open>The tree with its backend\<close>

record trace_tree =
  tr_root :: mnode
  tr_left :: "16 word"
  tr_right :: "16 word"
  tr_next_id :: nat
  tr_calls :: "maple_call list"

definition tree_init :: "16 word \<Rightarrow> 16 word \<Rightarrow> trace_tree" where
  "tree_init l r = \<lparr>tr_root = M_unexplored, tr_left = l, tr_right = r, tr_next_id = 1, tr_calls = []\<rparr>"

text \<open>A trace is added and its installer is run.\<close>

definition tree_augment :: "(nat \<Rightarrow> bool) \<Rightarrow> obs list \<Rightarrow> nat res \<Rightarrow> trace_tree \<Rightarrow> trace_tree \<times> unit res" where
  "tree_augment alive xs fin t =
     (case m_augment xs fin (tr_root t) (tracer_init (tr_left t) (tr_right t) (tr_next_id t)) of (n, s, r) \<Rightarrow>
        (t\<lparr>tr_root := n, tr_next_id := ti_next_id s, tr_calls := tr_calls t @ ti_calls s @
            (case r of Inl e \<Rightarrow> [] | Inr leaf \<Rightarrow> ti_installer alive leaf (ti_match s))\<rparr>,
         case r of Inl e \<Rightarrow> Inl e | Inr leaf \<Rightarrow> Inr ()))"

definition tree_commit :: "(nat \<Rightarrow> bool) \<Rightarrow> trace_tree \<Rightarrow> trace_tree" where
  "tree_commit alive t = t\<lparr>tr_calls := tr_calls t @
     snd (m_compile alive (tr_root t) (ffs_make [] [], [M_remove_all, M_barrier])) @ [M_barrier]\<rparr>"

end
