(* ===== verification/Maple_Rules.thy ===== *)
theory Maple_Rules
  imports Maple_Tree
begin

text \<open>
  The rules of a Maple trace tree: which rule of the compiled tree a packet hits, and that the rules
  that are installed trace by trace are the rules of the compiled tree.
\<close>

section \<open>Trees with priorities in order\<close>

text \<open>
  Between the bounds \<open>l\<close> and \<open>r\<close> the negative branch of a test lies below its priority and the
  positive branch above it; a header that has matched (\<open>seen\<close>) is not asked for again.
\<close>

definition good_mask :: "oxm_type set \<Rightarrow> oxm_type set \<Rightarrow> oxm_mask \<Rightarrow> bool" where
  "good_mask T seen m = (wf_mask m \<and> \<not> bits_none (m_mask m) \<and> m_type m \<in> T \<and> m_type m \<notin> seen \<and>
     (m_type m = ofb_switch_id \<longrightarrow> m = exact_mask ofb_switch_id))"

definition good_test :: "oxm_type set \<Rightarrow> oxm_type set \<Rightarrow> oxm_field \<Rightarrow> bool" where
  "good_test T seen f = (wf_field f \<and> good_mask T seen (mask_of f) \<and> f_type f \<noteq> ofb_switch_id)"

definition good_case :: "oxm_mask \<Rightarrow> bits \<Rightarrow> bool" where
  "good_case m b = (length b = nbits (m_type m) \<and> bits_and b (m_mask m) = b)"

fun m_ok :: "oxm_type set \<Rightarrow> 16 word \<Rightarrow> 16 word \<Rightarrow> oxm_type set \<Rightarrow> mnode \<Rightarrow> bool"
  and m_ok_cases :: "oxm_type set \<Rightarrow> 16 word \<Rightarrow> 16 word \<Rightarrow> oxm_type set \<Rightarrow> oxm_mask \<Rightarrow> (bits \<times> mnode) list \<Rightarrow> bool" where
  "m_ok T l r seen M_unexplored = True"
| "m_ok T l r seen (M_flow fl prio) = (l < prio \<and> prio < r)"
| "m_ok T l r seen (M_test f pos neg nid prio) = (good_test T seen f \<and> l < prio \<and> prio < r \<and>
     m_ok T prio r (insert (f_type f) seen) pos \<and> m_ok T l prio seen neg)"
| "m_ok T l r seen (M_load m cases) = (good_mask T seen m \<and> m_ok_cases T l r (insert (m_type m) seen) m cases)"
| "m_ok_cases T l r seen m [] = True"
| "m_ok_cases T l r seen m ((b, n) # cs) = (good_case m b \<and> b \<notin> fst ` set cs \<and> m_ok T l r seen n \<and> m_ok_cases T l r seen m cs)"

section \<open>The rules of a tree\<close>

type_synonym m_rule = "16 word \<times> oxm_field list \<times> nat option"

fun m_rules :: "(nat \<Rightarrow> bool) \<Rightarrow> oxm_field list \<Rightarrow> mnode \<Rightarrow> m_rule list"
  and m_rules_cases :: "(nat \<Rightarrow> bool) \<Rightarrow> oxm_field list \<Rightarrow> oxm_mask \<Rightarrow> (bits \<times> mnode) list \<Rightarrow> m_rule list" where
  "m_rules alive path M_unexplored = []"
| "m_rules alive path (M_flow fl prio) = (if alive fl then [(prio, path, Some fl)] else [])"
| "m_rules alive path (M_test f pos neg nid prio) =
     m_rules alive path neg @ (prio, path @ [f], None) # m_rules alive (path @ [f]) pos"
| "m_rules alive path (M_load m cases) = m_rules_cases alive path m cases"
| "m_rules_cases alive path m [] = []"
| "m_rules_cases alive path m ((b, n) # cs) =
     m_rules alive (path @ [case_field m b]) n @ m_rules_cases alive path m cs"

definition rule_of_call :: "maple_call \<Rightarrow> m_rule list" where
  "rule_of_call c = (case c of
     M_install prio mt fl \<Rightarrow> [(prio, elements (included mt), Some fl)]
   | M_barrier_rule prio mt f nid \<Rightarrow> [(prio, elements (included mt), None)]
   | _ \<Rightarrow> [])"

definition rules_of_calls :: "maple_call list \<Rightarrow> m_rule list" where
  "rules_of_calls cs = concat (map rule_of_call cs)"

lemma rules_of_calls_simps [simp]:
  "rules_of_calls [] = []" "rules_of_calls (c # cs) = rule_of_call c @ rules_of_calls cs"
  "rules_of_calls (xs @ ys) = rules_of_calls xs @ rules_of_calls ys"
  by (simp_all add: rules_of_calls_def)

lemma rule_of_call_simps [simp]:
  "rule_of_call (M_install prio mt fl) = [(prio, elements (included mt), Some fl)]"
  "rule_of_call (M_barrier_rule prio mt f nid) = [(prio, elements (included mt), None)]"
  "rule_of_call M_barrier = []" "rule_of_call M_remove_all = []"
  by (simp_all add: rule_of_call_def)

section \<open>The visitor's match\<close>

text \<open>The included part of the match is the path of the visitor.\<close>

definition on_path :: "oxm_type set \<Rightarrow> oxm_type set \<Rightarrow> oxm_field list \<Rightarrow> full_field_set \<Rightarrow> bool" where
  "on_path T seen path mt = (elements (included mt) = path \<and> wf_mfs T (included mt) \<and>
     distinct (map f_type path) \<and> f_type ` set path \<subseteq> seen \<and> seen \<subseteq> T)"

lemma add_scan_fresh: "\<forall>e \<in> set es. \<not> type_eq (f_type e) (f_type f) \<Longrightarrow> add_scan f es = (False, es)"
  by (induction es) auto

lemma erase_scan_fresh: "\<forall>e \<in> set es. \<not> type_eq (f_type e) (m_type m) \<Longrightarrow> erase_scan m (es @ fs) = es @ erase_scan m fs"
  by (induction es) auto

lemma type_apart:
  assumes "coherent T" "f_type ` set path \<subseteq> seen" "seen \<subseteq> T" "e \<in> set path" "t \<in> T" "t \<notin> seen"
  shows "\<not> type_eq (f_type e) t"
proof
  assume "type_eq (f_type e) t"
  then have "f_type e = t" using assms by (intro coherentD [OF assms(1)]) auto
  then show False using assms by auto
qed

lemma on_path_add:
  assumes "coherent T" "on_path T seen path mt" "wf_field f" "f_type f \<in> T" "f_type f \<notin> seen"
  shows "on_path T (insert (f_type f) seen) (path @ [f]) (ffs_add mt f)"
proof -
  have seen: "f_type ` set path \<subseteq> seen" "seen \<subseteq> T" using assms(2) by (simp_all add: on_path_def)
  have "\<not> type_eq (f_type e) (f_type f)" if "e \<in> set path" for e by (rule type_apart [OF assms(1) seen that assms(4,5)])
  then have "add_scan f (elements (included mt)) = (False, path)"
    using assms(2) by (auto simp: on_path_def intro: add_scan_fresh)
  then have "elements (mfs_add (included mt) f) = path @ [f]" by (simp add: mfs_add_def)
  moreover have "wf_mfs T (mfs_add (included mt) f)"
    using assms by (intro wf_mfs_add) (auto simp: on_path_def)
  ultimately show ?thesis using assms by (auto simp: on_path_def ffs_add_def)
qed

lemma on_path_erase:
  assumes "coherent T" "on_path T (insert (f_type f) seen) (path @ [f]) mt" "wf_field f" "f_type f \<notin> seen"
    "f_type ` set path \<subseteq> seen" "seen \<subseteq> T"
  shows "on_path T seen path (ffs_erase mt (mask_of f))"
proof -
  have f: "f_type f \<in> T" using assms(2) by (auto simp: on_path_def)
  have "\<not> type_eq (f_type e) (f_type f)" if "e \<in> set path" for e
    by (rule type_apart [OF assms(1,5,6) that f assms(4)])
  then have "erase_scan (mask_of f) (path @ [f]) = path"
    using and_not_mask_self [OF assms(3)] by (simp add: erase_scan_fresh mask_of_def)
  then show ?thesis using assms by (auto simp: on_path_def ffs_erase_def mfs_erase_def wf_mfs_def)
qed

lemma on_path_excluded [simp]:
  "on_path T seen path (ffs_exclude mt f) = on_path T seen path mt"
  "on_path T seen path (ffs_include mt m) = on_path T seen path mt"
  by (simp_all add: on_path_def ffs_exclude_def ffs_include_def)

lemma good_case_field:
  assumes "good_mask T seen m" "good_case m b"
  shows "wf_field (case_field m b)" "mask_of (case_field m b) = m" "f_type (case_field m b) = m_type m"
  using assms by (auto simp: good_mask_def good_case_def case_field_def mask_of_def wf_field_def wf_mask_def wf_value_def value_of_def)

text \<open>The compiled rules are the rules of the tree, and the match is left as it was.\<close>

lemma compile_rules:
  "coherent T \<Longrightarrow> m_ok T l r seen n \<Longrightarrow> on_path T seen path mt \<Longrightarrow>
      (\<exists>mt' cs. m_compile alive n (mt, calls) = (mt', calls @ cs) \<and> on_path T seen path mt' \<and>
        rules_of_calls cs = m_rules alive path n \<and> M_remove_all \<notin> set cs)"
  "coherent T \<Longrightarrow> m_ok_cases T l r seen' m cases \<Longrightarrow> seen' = insert (m_type m) seen \<Longrightarrow> good_mask T seen m \<Longrightarrow> on_path T seen path mt \<Longrightarrow>
      (\<exists>mt' cs. m_compile_cases alive m cases (mt, calls) = (mt', calls @ cs) \<and> on_path T seen path mt' \<and>
        rules_of_calls cs = m_rules_cases alive path m cases \<and> M_remove_all \<notin> set cs)"
proof (induction T l r seen n and T l r seen' m cases arbitrary: path mt calls and path mt calls seen rule: m_ok_m_ok_cases.induct)
  case (3 T l r seen f pos neg nid prio)
  have T: "coherent T" by (rule "3.prems")
  have f: "wf_field f" "f_type f \<in> T" "f_type f \<notin> seen" "f_type ` set path \<subseteq> seen" "seen \<subseteq> T"
    using "3.prems" by (auto simp: good_test_def good_mask_def mask_of_def on_path_def)
  obtain mt1 cs1 where c1: "m_compile alive neg (ffs_exclude mt f, calls) = (mt1, calls @ cs1)" "on_path T seen path mt1"
    "rules_of_calls cs1 = m_rules alive path neg" "M_remove_all \<notin> set cs1"
    using "3.IH"(2) [of path "ffs_exclude mt f" calls] "3.prems" by auto
  let ?mt2 = "ffs_add (ffs_include mt1 (mask_of f)) f"
  have mt2: "on_path T (insert (f_type f) seen) (path @ [f]) ?mt2"
    by (rule on_path_add [OF T _ f(1) f(2) f(3)]) (simp add: c1(2))
  obtain mt3 cs3 where c3: "m_compile alive pos (?mt2, calls @ cs1 @ [M_barrier_rule prio ?mt2 f nid]) =
      (mt3, (calls @ cs1 @ [M_barrier_rule prio ?mt2 f nid]) @ cs3)"
    "on_path T (insert (f_type f) seen) (path @ [f]) mt3" "rules_of_calls cs3 = m_rules alive (path @ [f]) pos" "M_remove_all \<notin> set cs3"
    using "3.IH"(1) [OF T _ mt2, of "calls @ cs1 @ [M_barrier_rule prio ?mt2 f nid]"] "3.prems" by auto
  have "elements (included ?mt2) = path @ [f]" using mt2 by (simp add: on_path_def)
  moreover have "on_path T seen path (ffs_erase mt3 (mask_of f))"
    by (rule on_path_erase [OF T c3(2) f(1,3,4,5)])
  ultimately show ?case using c1 c3 by (simp add: Let_def)
next
  case (4 T l r seen m cases)
  then show ?case by auto
next
  case (6 T l r seen' m b n cs)
  have T: "coherent T" by (rule "6.prems")
  have m: "good_mask T seen m" "good_case m b" "m_ok T l r (insert (m_type m) seen) n" "m_ok_cases T l r seen' m cs"
    using "6.prems" by auto
  note cf = good_case_field [OF m(1,2)]
  have s: "m_type m \<in> T" "m_type m \<notin> seen" "f_type ` set path \<subseteq> seen" "seen \<subseteq> T"
    using m(1) "6.prems"(5) by (auto simp: good_mask_def on_path_def)
  have p: "on_path T (insert (m_type m) seen) (path @ [case_field m b]) (ffs_add mt (case_field m b))"
    using on_path_add [OF T "6.prems"(5) cf(1)] s cf(3) by simp
  obtain mt1 cs1 where c1: "m_compile alive n (ffs_add mt (case_field m b), calls) = (mt1, calls @ cs1)"
    "on_path T (insert (m_type m) seen) (path @ [case_field m b]) mt1"
    "rules_of_calls cs1 = m_rules alive (path @ [case_field m b]) n" "M_remove_all \<notin> set cs1"
    using "6.IH"(1) [of "path @ [case_field m b]"] m(3) p "6.prems"(3) T by blast
  have "on_path T seen path (ffs_erase mt1 m)"
    using on_path_erase [OF T, of "case_field m b" seen path mt1] c1(2) cf s by simp
  then obtain mt2 cs2 where c2: "m_compile_cases alive m cs (ffs_erase mt1 m, calls @ cs1) = (mt2, (calls @ cs1) @ cs2)"
    "on_path T seen path mt2" "rules_of_calls cs2 = m_rules_cases alive path m cs" "M_remove_all \<notin> set cs2"
    using "6.IH"(2) [OF T m(4) "6.prems"(3) m(1)] by blast
  show ?case using c1 c2 by simp
qed (auto simp: on_path_def)

section \<open>The rule a packet hits\<close>

definition applies :: "('p \<Rightarrow> oxm_field \<Rightarrow> bool) \<Rightarrow> 'p \<Rightarrow> m_rule \<Rightarrow> bool" where
  "applies tst p x = list_all (tst p) (fst (snd x))"

definition hits :: "('p \<Rightarrow> oxm_field \<Rightarrow> bool) \<Rightarrow> 'p \<Rightarrow> m_rule list \<Rightarrow> m_rule \<Rightarrow> bool" where
  "hits tst p rs x = (x \<in> set rs \<and> applies tst p x \<and> (\<forall>y \<in> set rs. applies tst p y \<longrightarrow> y = x \<or> fst y < fst x))"

text \<open>The rule of highest priority sends the packet to its flow, or to the controller when the tree knows none.\<close>

definition serves :: "('p \<Rightarrow> oxm_field \<Rightarrow> bool) \<Rightarrow> 'p \<Rightarrow> m_rule list \<Rightarrow> nat option \<Rightarrow> bool" where
  "serves tst p rs fl = ((\<exists>x. hits tst p rs x \<and> snd (snd x) = fl) \<or> fl = None \<and> (\<forall>x \<in> set rs. \<not> applies tst p x))"

lemma rules_path:
  "x \<in> set (m_rules alive path n) \<Longrightarrow> \<exists>more. fst (snd x) = path @ more"
  "x \<in> set (m_rules_cases alive path m cases) \<Longrightarrow> \<exists>b more. b \<in> fst ` set cases \<and> fst (snd x) = path @ case_field m b # more"
proof (induction alive path n and alive path m cases rule: m_rules_m_rules_cases.induct)
  case (3 alive path f pos neg nid prio)
  then consider "x \<in> set (m_rules alive path neg)" | "x = (prio, path @ [f], None)" | "x \<in> set (m_rules alive (path @ [f]) pos)"
    by auto
  then show ?case by cases (use "3.IH" in auto)
next
  case (6 alive path m b n cs)
  then consider "x \<in> set (m_rules alive (path @ [case_field m b]) n)" | "x \<in> set (m_rules_cases alive path m cs)" by auto
  then show ?case
  proof cases
    case 2
    from "6.IH"(2) [OF this] show ?thesis by (metis image_insert insertCI list.simps(15))
  qed (use "6.IH"(1) in auto)
qed (auto split: if_splits)

lemma rules_bounds:
  "m_ok T l r seen n \<Longrightarrow> x \<in> set (m_rules alive path n) \<Longrightarrow> l < fst x \<and> fst x < r"
  "m_ok_cases T l r seen m cases \<Longrightarrow> x \<in> set (m_rules_cases alive path m cases) \<Longrightarrow> l < fst x \<and> fst x < r"
proof (induction T l r seen n and T l r seen m cases arbitrary: path and path rule: m_ok_m_ok_cases.induct)
  case (3 T l r seen f pos neg nid prio)
  then show ?case by fastforce
qed (auto split: if_splits)

lemma serves_hit: "hits tst p rs x \<Longrightarrow> snd (snd x) = fl \<Longrightarrow> serves tst p rs fl"
  unfolding serves_def by blast

lemma serves_miss: "\<forall>x \<in> set rs. \<not> applies tst p x \<Longrightarrow> serves tst p rs None"
  unfolding serves_def by blast

lemma serves_cases:
  assumes "serves tst p rs fl"
  obtains x where "hits tst p rs x" "snd (snd x) = fl" | "fl = None" "\<forall>x \<in> set rs. \<not> applies tst p x"
  using assms unfolding serves_def by blast

lemma serves_upper:
  assumes "serves tst p rs fl" "\<forall>x \<in> set qs. \<not> applies tst p x"
  shows "serves tst p (rs @ qs) fl" "serves tst p (qs @ rs) fl"
proof -
  have "serves tst p (rs @ qs) fl \<and> serves tst p (qs @ rs) fl"
  proof (rule serves_cases [OF assms(1)])
    fix x assume x: "hits tst p rs x" "snd (snd x) = fl"
    then have "hits tst p (rs @ qs) x" "hits tst p (qs @ rs) x" using assms(2) unfolding hits_def set_append by blast+
    with x(2) show ?thesis by (blast intro: serves_hit)
  next
    assume "fl = None" "\<forall>x \<in> set rs. \<not> applies tst p x"
    with assms(2) serves_miss [of "rs @ qs" tst p] serves_miss [of "qs @ rs" tst p] show ?thesis by auto
  qed
  then show "serves tst p (rs @ qs) fl" "serves tst p (qs @ rs) fl" by blast+
qed

lemma serves_above:
  assumes "serves tst p rs fl" "applies tst p (prio, path, None)" "\<forall>x \<in> set rs. prio < fst x" "\<forall>x \<in> set qs. fst x < prio"
  shows "serves tst p (qs @ (prio, path, None) # rs) fl"
proof (rule serves_cases [OF assms(1)])
  fix x assume x: "hits tst p rs x" "snd (snd x) = fl"
  then have "prio < fst x" using assms(3) unfolding hits_def by blast
  moreover have "\<forall>y \<in> set qs. fst y < fst x" using assms(4) calculation by (meson less_trans)
  ultimately have "hits tst p (qs @ (prio, path, None) # rs) x" using x(1) unfolding hits_def by auto
  then show ?thesis by (rule serves_hit [OF _ x(2)])
next
  assume n: "fl = None" "\<forall>x \<in> set rs. \<not> applies tst p x"
  have "hits tst p (qs @ (prio, path, None) # rs) (prio, path, None)"
    using assms(2,4) n(2) unfolding hits_def by auto
  then show ?thesis using n(1) by (auto intro: serves_hit)
qed

text \<open>What lookup and rules have in common: a case matches the packets that load its bits.\<close>

definition reads_cases :: "oxm_type set \<Rightarrow> ('p \<Rightarrow> oxm_mask \<Rightarrow> oxm_field) \<Rightarrow> ('p \<Rightarrow> oxm_field \<Rightarrow> bool) \<Rightarrow> 'p \<Rightarrow> bool" where
  "reads_cases T ld tst p = (\<forall>m b. wf_mask m \<and> m_type m \<in> T \<and> good_case m b \<longrightarrow> tst p (case_field m b) = (f_value (ld p m) = b))"

lemma m_ok_cases_good: "m_ok_cases T l r seen m cases \<Longrightarrow> b \<in> fst ` set cases \<Longrightarrow> good_case m b"
proof (induction cases)
  case (Cons c cs)
  then show ?case by (cases c) auto
qed simp

lemma rules_apply:
  "x \<in> set (m_rules alive path n) \<Longrightarrow> applies tst p x \<Longrightarrow> list_all (tst p) path"
  "x \<in> set (m_rules_cases alive path m cases) \<Longrightarrow> applies tst p x \<Longrightarrow> \<exists>b \<in> fst ` set cases. tst p (case_field m b)"
proof -
  show "x \<in> set (m_rules alive path n) \<Longrightarrow> applies tst p x \<Longrightarrow> list_all (tst p) path"
    using rules_path(1) [of x alive path n] by (auto simp: applies_def)
  show "x \<in> set (m_rules_cases alive path m cases) \<Longrightarrow> applies tst p x \<Longrightarrow> \<exists>b \<in> fst ` set cases. tst p (case_field m b)"
    using rules_path(2) [of x alive path m cases] unfolding applies_def by (metis list_all_append list.pred_inject(2))
qed

lemma lookup_serves:
  "reads_cases T ld tst p \<Longrightarrow> m_ok T l r seen n \<Longrightarrow> list_all (tst p) path \<Longrightarrow>
    serves tst p (m_rules alive path n) (m_lookup ld tst alive p n)"
  "reads_cases T ld tst p \<Longrightarrow> m_ok_cases T l r seen m cases \<Longrightarrow> wf_mask m \<Longrightarrow> m_type m \<in> T \<Longrightarrow> list_all (tst p) path \<Longrightarrow>
    serves tst p (m_rules_cases alive path m cases) (m_lookup_cases ld tst alive p m cases)"
proof (induction T l r seen n and T l r seen m cases arbitrary: path and path rule: m_ok_m_ok_cases.induct)
  case (1 T l r seen)
  then show ?case by (auto intro: serves_miss)
next
  case (2 T l r seen fl prio)
  show ?case
  proof (cases "alive fl")
    case True
    then have "hits tst p (m_rules alive path (M_flow fl prio)) (prio, path, Some fl)"
      using "2.prems" by (simp add: hits_def applies_def)
    then show ?thesis using True by (auto intro: serves_hit)
  qed (auto intro: serves_miss)
next
  case (3 T l r seen f pos neg nid prio)
  have ok: "m_ok T prio r (insert (f_type f) seen) pos" "m_ok T l prio seen neg" using "3.prems" by auto
  have neg: "serves tst p (m_rules alive path neg) (m_lookup ld tst alive p neg)" by (rule "3.IH"(2) [OF "3.prems"(1) ok(2) "3.prems"(3)])
  show ?case
  proof (cases "tst p f")
    case True
    have "serves tst p (m_rules alive (path @ [f]) pos) (m_lookup ld tst alive p pos)"
      using "3.IH"(1) [OF "3.prems"(1) ok(1)] "3.prems"(3) True by simp
    moreover have "\<forall>x \<in> set (m_rules alive (path @ [f]) pos). prio < fst x" using rules_bounds(1) [OF ok(1)] by blast
    moreover have "\<forall>x \<in> set (m_rules alive path neg). fst x < prio" using rules_bounds(1) [OF ok(2)] by blast
    moreover have "applies tst p (prio, path @ [f], None)" using "3.prems"(3) True by (simp add: applies_def)
    ultimately show ?thesis using serves_above [of tst p "m_rules alive (path @ [f]) pos"] True by simp
  next
    case False
    have "\<forall>x \<in> set ((prio, path @ [f], None) # m_rules alive (path @ [f]) pos). \<not> applies tst p x"
      using rules_apply(1) [of _ alive "path @ [f]" pos tst p] False by (auto simp: applies_def)
    from serves_upper(1) [OF neg this] show ?thesis using False by simp
  qed
next
  case (4 T l r seen m cases)
  then show ?case by (auto simp: good_mask_def)
next
  case (5 T l r seen m)
  then show ?case by (auto intro: serves_miss)
next
  case (6 T l r seen m b n cs)
  have ok: "good_case m b" "b \<notin> fst ` set cs" "m_ok T l r seen n" "m_ok_cases T l r seen m cs" using "6.prems" by auto
  have test: "tst p (case_field m c) \<longleftrightarrow> f_value (ld p m) = c" if "good_case m c" for c
    using "6.prems"(1,3,4) that by (simp add: reads_cases_def)
  show ?case
  proof (cases "b = f_value (ld p m)")
    case True
    have "serves tst p (m_rules alive (path @ [case_field m b]) n) (m_lookup ld tst alive p n)"
      using "6.IH"(1) [OF "6.prems"(1) ok(3)] "6.prems"(5) test [OF ok(1)] True by simp
    moreover have "\<forall>x \<in> set (m_rules_cases alive path m cs). \<not> applies tst p x"
      using rules_apply(2) [of _ alive path m cs tst p] m_ok_cases_good [OF ok(4)] test ok(2) True by metis
    ultimately show ?thesis using serves_upper(1) True by simp
  next
    case False
    have "serves tst p (m_rules_cases alive path m cs) (m_lookup_cases ld tst alive p m cs)"
      by (rule "6.IH"(2) [OF "6.prems"(1) ok(4) "6.prems"(3-5)])
    moreover have "\<forall>x \<in> set (m_rules alive (path @ [case_field m b]) n). \<not> applies tst p x"
      using rules_apply(1) [of _ alive "path @ [case_field m b]" n tst p] test [OF ok(1)] False by auto
    ultimately show ?thesis using serves_upper(2) False by simp
  qed
qed

end
