(* ===== verification/Maple_Install.thy ===== *)
theory Maple_Install
  imports Maple_Rules
begin

text \<open>
  The rules that are installed trace by trace are the rules of the tree, and a trace that is added
  changes what is looked up for exactly the packets that agree with it.
\<close>

section \<open>The table the calls leave behind\<close>

text \<open>A rule replaces the one with its priority and match, as a flow of OpenFlow does.\<close>

type_synonym m_table = "((16 word \<times> oxm_field list) \<times> nat option) list"

definition table_call :: "maple_call \<Rightarrow> m_table \<Rightarrow> m_table" where
  "table_call c t = (case c of
     M_install prio mt fl \<Rightarrow> put (prio, elements (included mt)) (Some fl) t
   | M_barrier_rule prio mt f nid \<Rightarrow> put (prio, elements (included mt)) None t
   | M_barrier \<Rightarrow> t
   | M_remove_all \<Rightarrow> [])"

definition run_calls :: "maple_call list \<Rightarrow> m_table" where
  "run_calls cs = fold table_call cs []"

definition keyed :: "m_rule \<Rightarrow> (16 word \<times> oxm_field list) \<times> nat option" where
  "keyed x = ((fst x, fst (snd x)), snd (snd x))"

definition unkeyed :: "(16 word \<times> oxm_field list) \<times> nat option \<Rightarrow> m_rule" where
  "unkeyed e = (fst (fst e), snd (fst e), snd e)"

lemma keyed_simps [simp]: "keyed (a, b, c) = ((a, b), c)" "unkeyed ((a, b), c) = (a, b, c)" "unkeyed (keyed x) = x"
  by (simp_all add: keyed_def unkeyed_def)

definition as_map :: "m_rule list \<Rightarrow> 16 word \<times> oxm_field list \<Rightarrow> nat option option" where
  "as_map rs = map_of (map keyed rs)"

definition changes :: "m_rule list \<Rightarrow> 16 word \<times> oxm_field list \<Rightarrow> nat option option" where
  "changes rs = map_of (map keyed (rev rs))"

lemma as_map_simps [simp]:
  "as_map [] = Map.empty" "as_map ((prio, path, out) # rs) = (as_map rs)((prio, path) \<mapsto> out)"
  "as_map (xs @ ys) = as_map ys ++ as_map xs"
  by (simp_all add: as_map_def)

lemma changes_simps [simp]:
  "changes [] = Map.empty" "changes (xs @ ys) = changes xs ++ changes ys"
  "changes [(prio, path, out)] = [(prio, path) \<mapsto> out]"
  by (simp_all add: changes_def)

lemma changes_Cons: "changes (x # xs) = changes [x] ++ changes xs"
  using changes_simps(2) [of "[x]" xs] by simp

lemma dom_as_map: "dom (as_map rs) = (\<lambda>x. (fst x, fst (snd x))) ` set rs"
  by (simp add: as_map_def dom_map_of_conv_image_fst image_image keyed_def)

lemma table_calls:
  "M_remove_all \<notin> set cs \<Longrightarrow> map_of (fold table_call cs t) = map_of t ++ changes (rules_of_calls cs)"
proof (induction cs arbitrary: t)
  case (Cons c cs)
  have "map_of (table_call c t) = map_of t ++ changes (rule_of_call c)"
    using Cons.prems by (cases c) (auto simp: table_call_def)
  with Cons show ?case by simp
qed simp

text \<open>No two rules of a tree have one priority and one match.\<close>

lemma apart_cases:
  assumes "m_ok_cases T l r seen m cs" "good_case m b" "b \<notin> fst ` set cs"
    "x \<in> set (m_rules alive (path @ [case_field m b]) n)" "y \<in> set (m_rules_cases alive path m cs)"
  shows "fst (snd x) \<noteq> fst (snd y)"
proof
  assume e: "fst (snd x) = fst (snd y)"
  obtain more where "fst (snd x) = path @ case_field m b # more" using rules_path(1) [OF assms(4)] by auto
  moreover obtain c rest where c: "c \<in> fst ` set cs" "fst (snd y) = path @ case_field m c # rest"
    using rules_path(2) [OF assms(5)] by blast
  ultimately have "case_field m b = case_field m c" using e by simp
  then have "b = c" using assms(2) m_ok_cases_good [OF assms(1) c(1)] by (simp add: case_field_def good_case_def)
  with assms(3) c(1) show False by simp
qed

lemma rules_distinct:
  "m_ok T l r seen n \<Longrightarrow> distinct (map (fst \<circ> keyed) (m_rules alive path n))"
  "m_ok_cases T l r seen m cases \<Longrightarrow> distinct (map (fst \<circ> keyed) (m_rules_cases alive path m cases))"
proof (induction T l r seen n and T l r seen m cases arbitrary: path and path rule: m_ok_m_ok_cases.induct)
  case (3 T l r seen f pos neg nid prio)
  have ok: "m_ok T prio r (insert (f_type f) seen) pos" "m_ok T l prio seen neg" using "3.prems" by auto
  have b: "prio < fst x" if "x \<in> set (m_rules alive (path @ [f]) pos)" for x using rules_bounds(1) [OF ok(1) that] by simp
  have c: "fst x < prio" if "x \<in> set (m_rules alive path neg)" for x using rules_bounds(1) [OF ok(2) that] by simp
  have "(fst \<circ> keyed) ` set (m_rules alive path neg) \<inter> (fst \<circ> keyed) ` set (m_rules alive (path @ [f]) pos) = {}"
    "(prio, path @ [f]) \<notin> (fst \<circ> keyed) ` set (m_rules alive path neg)"
    "(prio, path @ [f]) \<notin> (fst \<circ> keyed) ` set (m_rules alive (path @ [f]) pos)"
    using b c by (force simp: keyed_def)+
  then show ?case using "3.IH"(1) [OF ok(1), of "path @ [f]"] "3.IH"(2) [OF ok(2), of path] by simp
next
  case (6 T l r seen m b n cs)
  have ok: "good_case m b" "b \<notin> fst ` set cs" "m_ok T l r seen n" "m_ok_cases T l r seen m cs" using "6.prems" by auto
  have "(fst \<circ> keyed) ` set (m_rules alive (path @ [case_field m b]) n) \<inter> (fst \<circ> keyed) ` set (m_rules_cases alive path m cs) = {}"
    using apart_cases [OF ok(4,1,2)] by (force simp: keyed_def)
  then show ?case using "6.IH"(1) [OF ok(3), of "path @ [case_field m b]"] "6.IH"(2) [OF ok(4), of path] by simp
qed auto

lemma serves_map:
  assumes "map_of (map keyed rs) = map_of t" "distinct (map (fst \<circ> keyed) rs)" "distinct (map fst t)"
  shows "serves tst p (map unkeyed t) fl = serves tst p rs fl"
proof -
  have "set t = set (map keyed rs)"
  proof -
    have "distinct (map fst (map keyed rs))" using assms(2) by simp
    then have "(e \<in> set (map keyed rs)) = (e \<in> set t)" for e
      using map_of_eq_Some_iff [of "map keyed rs" "fst e" "snd e"] map_of_eq_Some_iff [OF assms(3), of "fst e" "snd e"] assms(1)
      by simp
    then show ?thesis by blast
  qed
  then have "set (map unkeyed t) = set rs" by (simp add: image_image)
  then show ?thesis by (simp add: serves_def hits_def)
qed

lemma table_distinct: "distinct (map fst t) \<Longrightarrow> distinct (map fst (fold table_call cs t))"
proof (induction cs arbitrary: t)
  case (Cons c cs)
  have "distinct (map fst (table_call c t))" using Cons.prems by (cases c) (simp_all add: table_call_def distinct_put)
  with Cons show ?case by simp
qed simp

section \<open>Calls that change a tree\<close>

definition grows :: "(nat \<Rightarrow> bool) \<Rightarrow> oxm_type set \<Rightarrow> 16 word \<Rightarrow> 16 word \<Rightarrow> oxm_type set \<Rightarrow> oxm_field list \<Rightarrow>
  mnode \<Rightarrow> maple_call list \<Rightarrow> mnode \<Rightarrow> bool" where
  "grows alive T l r seen path cur cs n = (m_ok T l r seen n \<and> M_remove_all \<notin> set cs \<and>
     as_map (m_rules alive path n) = as_map (m_rules alive path cur) ++ changes (rules_of_calls cs))"

lemma grows_refl: "m_ok T l r seen n \<Longrightarrow> grows alive T l r seen path n [] n"
  by (simp add: grows_def)

lemma grows_trans:
  "grows alive T l r seen path a cs b \<Longrightarrow> grows alive T l r seen path b ds c \<Longrightarrow> grows alive T l r seen path a (cs @ ds) c"
  by (simp add: grows_def)

lemma as_map_bounds:
  assumes "m_ok T l r seen n" "as_map (m_rules alive path n) k = Some out"
  shows "l < fst k" "fst k < r" "\<exists>more. snd k = path @ more"
proof -
  have "k \<in> dom (as_map (m_rules alive path n))" using assms(2) by blast
  then obtain x where x: "x \<in> set (m_rules alive path n)" "k = (fst x, fst (snd x))" by (auto simp: dom_as_map)
  then show "l < fst k" "fst k < r" "\<exists>more. snd k = path @ more"
    using rules_bounds(1) [OF assms(1) x(1)] rules_path(1) [OF x(1)] by auto
qed

lemma changes_bounds:
  assumes "grows alive T l r seen path cur cs n" "changes (rules_of_calls cs) k = Some out"
  shows "l < fst k" "fst k < r" "\<exists>more. snd k = path @ more"
proof -
  have "m_ok T l r seen n" "as_map (m_rules alive path n) k = Some out" using assms by (simp_all add: grows_def)
  from as_map_bounds [OF this] show "l < fst k" "fst k < r" "\<exists>more. snd k = path @ more" by blast+
qed

lemma map_add_swap: "(\<And>x. f x = None \<or> g x = None) \<Longrightarrow> R ++ f ++ g = R ++ g ++ f"
proof
  fix x assume "\<And>x. f x = None \<or> g x = None"
  from this [of x] show "(R ++ f ++ g) x = (R ++ g ++ f) x" by (auto simp: map_add_def split: option.splits)
qed

lemma grows_test_pos:
  assumes "m_ok T l r seen (M_test f pos neg nid prio)" "grows alive T prio r (insert (f_type f) seen) (path @ [f]) pos cs n"
  shows "grows alive T l r seen path (M_test f pos neg nid prio) cs (M_test f n neg nid prio)"
proof -
  let ?A = "as_map (m_rules alive (path @ [f]) pos)" and ?D = "changes (rules_of_calls cs)" and ?N = "as_map (m_rules alive path neg)"
  have neg: "m_ok T l prio seen neg" using assms(1) by simp
  have "?D k = None \<or> ?N k = None" for k
  proof (rule ccontr)
    assume "\<not> (?D k = None \<or> ?N k = None)"
    then obtain x y where "?D k = Some x" "?N k = Some y" by auto
    from changes_bounds(1) [OF assms(2) this(1)] as_map_bounds(2) [OF neg this(2)] show False by simp
  qed
  note swap = map_add_swap [of ?D ?N, OF this]
  have "?D (prio, path @ [f]) = None" using changes_bounds(1) [OF assms(2), of "(prio, path @ [f])"] by (cases "?D (prio, path @ [f])") auto
  then have "(?A ++ ?D)((prio, path @ [f]) \<mapsto> None) = ?A((prio, path @ [f]) \<mapsto> None) ++ ?D" by (simp add: map_add_upd_left domIff)
  with swap have "(?A ++ ?D)((prio, path @ [f]) \<mapsto> None) ++ ?N = (?A((prio, path @ [f]) \<mapsto> None) ++ ?N) ++ ?D" by simp
  then show ?thesis using assms by (simp add: grows_def)
qed

lemma grows_test_neg:
  assumes "m_ok T l r seen (M_test f pos neg nid prio)" "grows alive T l prio seen path neg cs n"
  shows "grows alive T l r seen path (M_test f pos neg nid prio) cs (M_test f pos n nid prio)"
  using assms by (simp add: grows_def)

lemma grows_load_case:
  assumes "m_ok_cases T l r seen m cases" "good_case m b"
    and "grows alive T l r seen (path @ [case_field m b]) (case m_find_case b cases of None \<Rightarrow> M_unexplored | Some n \<Rightarrow> n) cs n"
  shows "m_ok_cases T l r seen m (put b n cases) \<and> as_map (m_rules_cases alive path m (put b n cases)) =
    as_map (m_rules_cases alive path m cases) ++ changes (rules_of_calls cs)"
  using assms
proof (induction cases)
  case Nil
  then show ?case by (simp add: grows_def)
next
  case (Cons c cases)
  obtain d k where c: "c = (d, k)" by (cases c)
  let ?D = "changes (rules_of_calls cs)"
  show ?case
  proof (cases "d = b")
    case True
    let ?R = "as_map (m_rules_cases alive path m cases)"
    have ok: "m_ok_cases T l r seen m cases" "b \<notin> fst ` set cases" "m_ok T l r seen n"
      and e: "as_map (m_rules alive (path @ [case_field m b]) n) = as_map (m_rules alive (path @ [case_field m b]) k) ++ ?D"
      using Cons.prems c True by (simp_all add: grows_def)
    have "?D x = None \<or> ?R x = None" for x
    proof (rule ccontr)
      assume "\<not> (?D x = None \<or> ?R x = None)"
      then have "x \<in> dom (as_map (m_rules alive (path @ [case_field m b]) n))" "x \<in> dom ?R"
        using e by (auto simp: map_add_Some_iff)
      then obtain y z where "y \<in> set (m_rules alive (path @ [case_field m b]) n)" "z \<in> set (m_rules_cases alive path m cases)"
        "fst (snd y) = fst (snd z)" unfolding dom_as_map by auto
      then show False using apart_cases [OF ok(1) Cons.prems(2) ok(2)] by blast
    qed
    then show ?thesis using Cons.prems c True ok e by simp
  next
    case False
    have ih: "m_ok_cases T l r seen m (put b n cases)"
      "as_map (m_rules_cases alive path m (put b n cases)) = as_map (m_rules_cases alive path m cases) ++ ?D"
      using Cons.IH Cons.prems c False by auto
    have d: "good_case m d" "d \<notin> fst ` set cases" "m_ok_cases T l r seen m cases" using Cons.prems c by auto
    have key: "fst ` set (put b n cases) = insert b (fst ` set cases)" using set_fst_put [of b n cases] by simp
    let ?K = "as_map (m_rules alive (path @ [case_field m d]) k)"
    have "?K x = None \<or> ?D x = None" for x
    proof (rule ccontr)
      assume "\<not> (?K x = None \<or> ?D x = None)"
      then have "x \<in> dom ?K" "x \<in> dom (as_map (m_rules_cases alive path m (put b n cases)))" using ih(2) by auto
      then obtain y z where "y \<in> set (m_rules alive (path @ [case_field m d]) k)" "z \<in> set (m_rules_cases alive path m (put b n cases))"
        "fst (snd y) = fst (snd z)" unfolding dom_as_map by auto
      then show False using apart_cases [OF ih(1) d(1)] d(2) key False by blast
    qed
    then have "(R ++ ?D) ++ ?K = (R ++ ?K) ++ ?D" for R
      by (metis map_add_swap)
    then show ?thesis using Cons.prems c False ih d key by simp
  qed
qed

text \<open>A header is asked for until it is known: after a load or a successful test it does not come again.\<close>

fun good_trace :: "oxm_type set \<Rightarrow> oxm_type set \<Rightarrow> obs list \<Rightarrow> bool" where
  "good_trace T seen [] = True"
| "good_trace T seen (Load_obs f # xs) =
     (wf_field f \<and> good_mask T seen (mask_of f) \<and> good_trace T (insert (f_type f) seen) xs)"
| "good_trace T seen (Test_obs f ret # xs) =
     (good_test T seen f \<and> good_trace T (if ret then insert (f_type f) seen else seen) xs)"

lemma middle_between: "ti_middle s = Inr prio \<Longrightarrow> ti_left s < prio \<and> prio < ti_right s"
  by (auto simp: ti_middle_def Let_def split: if_splits)

lemma case_of_field: "wf_field f \<Longrightarrow> case_field (mask_of f) (f_value f) = f"
  by (simp add: case_field_def mask_of_def wf_field_def)

lemma good_case_of_field: "wf_field f \<Longrightarrow> good_case (mask_of f) (f_value f)"
  by (simp add: good_case_def wf_field_def wf_value_def mask_of_def)

lemma same_mask:
  assumes "coherent T" "m_type m \<in> T" "m_type k \<in> T" "mask_eq m k"
  shows "m = k"
  using assms coherentD [OF assms(1), of "m_type m" "m_type k"] by (simp add: mask_eq_def)

lemma same_field:
  assumes "coherent T" "f_type f \<in> T" "f_type g \<in> T" "field_eq f g"
  shows "f = g"
  using assms coherentD [OF assms(1), of "f_type f" "f_type g"] by (simp add: field_eq_def)

text \<open>The tracer stands at a node.\<close>

definition ti_at :: "oxm_type set \<Rightarrow> oxm_type set \<Rightarrow> oxm_field list \<Rightarrow> mnode \<Rightarrow> tracer_impl \<Rightarrow> bool" where
  "ti_at T seen path cur s = (m_ok T (ti_left s) (ti_right s) seen cur \<and> on_path T seen path (ti_match s))"

definition steps_on :: "(nat \<Rightarrow> bool) \<Rightarrow> oxm_type set \<Rightarrow> oxm_type set \<Rightarrow> oxm_field list \<Rightarrow> mnode \<Rightarrow> tracer_impl \<Rightarrow> obs list \<Rightarrow>
  (mnode \<Rightarrow> mnode) \<Rightarrow> mnode \<Rightarrow> tracer_impl \<Rightarrow> bool" where
  "steps_on alive T seen path cur s xs rebuild cur' s' = (\<exists>ds seen' path'. ti_calls s' = ti_calls s @ ds \<and>
     ti_at T seen' path' cur' s' \<and> good_trace T seen' xs \<and>
     (\<forall>cs n. grows alive T (ti_left s') (ti_right s') seen' path' cur' cs n \<longrightarrow>
        grows alive T (ti_left s) (ti_right s) seen path cur (ds @ cs) (rebuild n)))"

lemma steps_on_load:
  assumes T: "coherent T" and at: "ti_at T seen path cur s" and g: "good_trace T seen (Load_obs f # xs)"
    and step: "ti_load f cur s = Inr (rebuild, cur', s')"
  shows "steps_on alive T seen path cur s xs rebuild cur' s'"
proof -
  have f: "wf_field f" "good_mask T seen (mask_of f)" "f_type f \<in> T" "f_type f \<notin> seen" "good_trace T (insert (f_type f) seen) xs"
    using g by (auto simp: good_mask_def mask_of_def)
  have s': "s' = s\<lparr>ti_match := ffs_add (ti_match s) f\<rparr>"
    using step by (auto simp: ti_load_def Let_def split: mnode.splits if_splits)
  have path: "on_path T (insert (f_type f) seen) (path @ [f]) (ti_match s')"
    using on_path_add [OF T _ f(1,3,4)] at s' by (simp add: ti_at_def)
  have ok: "m_ok T (ti_left s) (ti_right s) seen cur" using at by (simp add: ti_at_def)
  have "m_ok T (ti_left s) (ti_right s) (insert (f_type f) seen) cur' \<and>
    (\<forall>cs n. grows alive T (ti_left s) (ti_right s) (insert (f_type f) seen) (path @ [f]) cur' cs n \<longrightarrow>
      grows alive T (ti_left s) (ti_right s) seen path cur cs (rebuild n))"
  proof (cases cur)
    case M_unexplored
    have "m_type (mask_of f) = f_type f" by (simp add: mask_of_def)
    then show ?thesis using M_unexplored step f(2) good_case_of_field [OF f(1)] case_of_field [OF f(1)]
      by (auto simp: ti_load_def grows_def)
  next
    case (M_load m cases)
    have e: "mask_eq m (mask_of f)" "rebuild = (\<lambda>n. M_load m (put (f_value f) n cases))"
      "cur' = (case m_find_case (f_value f) cases of None \<Rightarrow> M_unexplored | Some n \<Rightarrow> n)"
      using step M_load by (auto simp: ti_load_def Let_def split: if_splits)
    have "m = mask_of f" using e(1) ok M_load f(2) by (intro same_mask [OF T]) (auto simp: good_mask_def)
    then have m: "m = mask_of f" "m_ok_cases T (ti_left s) (ti_right s) (insert (f_type f) seen) m cases"
      using ok M_load by auto
    have "m_ok T (ti_left s) (ti_right s) (insert (f_type f) seen) cur'"
      unfolding e(3) using m(2) by (induction cases) (auto split: option.splits if_splits)
    then show ?thesis
      using grows_load_case [OF m(2), of "f_value f" alive path] good_case_of_field [OF f(1)] case_of_field [OF f(1)] e m(1) M_load f(2)
      by (auto simp: grows_def)
  qed (use step in \<open>simp_all add: ti_load_def\<close>)
  then show ?thesis
    unfolding steps_on_def using path s' f(5)
    by (intro exI [of _ "[]"] exI [of _ "insert (f_type f) seen"] exI [of _ "path @ [f]"]) (simp add: ti_at_def)
qed

lemma steps_on_test:
  assumes T: "coherent T" and at: "ti_at T seen path cur s" and g: "good_trace T seen (Test_obs f ret # xs)"
    and step: "ti_test f ret cur s = Inr (rebuild, cur', s')"
  shows "steps_on alive T seen path cur s xs rebuild cur' s'"
proof -
  have f: "wf_field f" "good_test T seen f" "f_type f \<in> T" "f_type f \<notin> seen"
    "good_trace T (if ret then insert (f_type f) seen else seen) xs"
    using g by (auto simp: good_test_def good_mask_def mask_of_def)
  let ?seen = "if ret then insert (f_type f) seen else seen" and ?path = "if ret then path @ [f] else path"
  have at': "on_path T seen path (ti_match s)" "m_ok T (ti_left s) (ti_right s) seen cur" using at by (simp_all add: ti_at_def)
  have add: "on_path T (insert (f_type f) seen) (path @ [f]) (ffs_add (ti_match s) f)" by (rule on_path_add [OF T at'(1) f(1,3,4)])
  obtain need pos neg nid prio ds s1 where node:
    "grows alive T (ti_left s) (ti_right s) seen path cur ds (M_test need pos neg nid prio)"
    "rebuild = (\<lambda>n. if ret then M_test need n neg nid prio else M_test need pos n nid prio)"
    "cur' = (if ret then pos else neg)" "s' = ti_after_test f ret prio s1" "ti_calls s1 = ti_calls s @ ds" "ti_match s1 = ti_match s"
    "ti_left s1 = ti_left s" "ti_right s1 = ti_right s" "need = f"
  proof (cases cur)
    case M_unexplored
    obtain prio where p: "ti_middle s = Inr prio" using step M_unexplored by (auto simp: ti_test_def rbind_eq_Inr)
    let ?c = "M_barrier_rule prio (ffs_add (ti_match s) f) f (ti_next_id s)"
    have "grows alive T (ti_left s) (ti_right s) seen path cur [?c] (M_test f M_unexplored M_unexplored (ti_next_id s) prio)"
      using middle_between [OF p] f(2) add M_unexplored by (simp add: grows_def on_path_def)
    then show thesis
      using step p M_unexplored
      by (intro that [of "[?c]" f M_unexplored M_unexplored "ti_next_id s" prio "s\<lparr>ti_next_id := ti_next_id s + 1, ti_calls := ti_calls s @ [?c]\<rparr>"])
        (auto simp: ti_test_def Let_def split: if_splits)
  next
    case (M_test need pos neg nid prio)
    have e: "field_eq need f" using step M_test by (auto simp: ti_test_def split: if_splits)
    have "need = f" using at'(2) M_test f by (intro same_field [OF T _ _ e]) (auto simp: good_test_def good_mask_def mask_of_def)
    then show thesis
      using step M_test grows_refl [OF at'(2), of alive path]
      by (intro that [of "[]" need pos neg nid prio s]) (auto simp: ti_test_def split: if_splits)
  qed (use step in \<open>simp_all add: ti_test_def\<close>)
  have ok: "m_ok T (ti_left s) (ti_right s) seen (M_test f pos neg nid prio)" using node(1,9) by (simp add: grows_def)
  have "ti_at T ?seen ?path cur' s'"
    using ok add at'(1) node by (auto simp: ti_at_def ti_after_test_def)
  moreover have "grows alive T (ti_left s) (ti_right s) seen path cur (ds @ cs) (rebuild n)"
    if "grows alive T (ti_left s') (ti_right s') ?seen ?path cur' cs n" for cs n
    using that grows_test_pos [OF ok, of alive path cs n] grows_test_neg [OF ok, of alive path cs n]
      grows_trans [OF node(1), of cs] node
    by (auto simp: ti_after_test_def split: if_splits)
  ultimately show ?thesis
    unfolding steps_on_def using node(4,5) f(5)
    by (intro exI [of _ ds] exI [of _ ?seen] exI [of _ ?path]) (auto simp: ti_after_test_def)
qed

text \<open>A trace, with the calls of its installer.\<close>

definition install_calls :: "(nat \<Rightarrow> bool) \<Rightarrow> tracer_impl \<Rightarrow> mnode res \<Rightarrow> maple_call list" where
  "install_calls alive s res = (case res of Inl e \<Rightarrow> [] | Inr leaf \<Rightarrow> ti_installer alive leaf (ti_match s))"

lemma m_at_unexplored [simp]: "m_at xs M_unexplored = M_unexplored"
  by (cases xs) simp_all

lemma ti_step_at: "ti_step x cur s = Inr (rebuild, cur', s') \<Longrightarrow> m_at (x # xs) cur = m_at xs cur'"
  by (cases x; cases cur) (auto simp: ti_step_def ti_load_def ti_test_def rbind_eq_Inr Let_def split: if_splits)

text \<open>The flow is alive, or the leaf holds no other flow that is.\<close>

definition may_end :: "(nat \<Rightarrow> bool) \<Rightarrow> nat res \<Rightarrow> mnode \<Rightarrow> bool" where
  "may_end alive fin leaf = (\<forall>fl. fin = Inr fl \<longrightarrow> alive fl \<or> (\<forall>g prio. leaf = M_flow g prio \<longrightarrow> \<not> alive g))"

lemma augment_grows:
  assumes "coherent T" "\<And>leaf. res = Inr leaf \<Longrightarrow> may_end alive fin (m_at xs cur)"
    and "ti_at T seen path cur s" "good_trace T seen xs" "m_augment xs fin cur s = (n, s', res)"
  shows "\<exists>cs. ti_calls s' = ti_calls s @ cs \<and> grows alive T (ti_left s) (ti_right s) seen path cur (cs @ install_calls alive s' res) n"
  using assms(2-5)
proof (induction xs arbitrary: seen path cur s n)
  case Nil
  have at: "m_ok T (ti_left s) (ti_right s) seen cur" "on_path T seen path (ti_match s)" using Nil by (simp_all add: ti_at_def)
  show ?case
  proof (cases "rbind fin (\<lambda>fl. ti_finish fl cur s)")
    case (Inl e)
    then have "n = cur \<and> s' = s \<and> res = Inl e" using Nil.prems by simp
    then show ?thesis using grows_refl [OF at(1)] by (simp add: install_calls_def)
  next
    case (Inr leaf)
    have "res = Inr leaf" using Nil.prems(4) unfolding m_augment.simps Inr by auto
    then have me: "may_end alive fin cur" using Nil.prems(1) by simp
    from Inr obtain fl prio where p: "fin = Inr fl" "leaf = M_flow fl prio" "ti_left s < prio" "prio < ti_right s"
      "as_map (m_rules alive path cur) ++ [(prio, path) \<mapsto> Some fl] = [(prio, path) \<mapsto> Some fl]"
      "alive fl \<or> as_map (m_rules alive path cur) = Map.empty"
      using at(1) middle_between [of s] me
      by (cases cur) (auto simp: ti_finish_def rbind_eq_Inr may_end_def split: if_splits)
    then show ?thesis using Nil.prems(4) Inr at(2)
      by (cases "alive fl") (auto simp: install_calls_def grows_def ti_installer_def on_path_def)
  qed
next
  case (Cons x xs)
  show ?case
  proof (cases "ti_step x cur s")
    case (Inl e)
    then show ?thesis using Cons.prems grows_refl [of T "ti_left s" "ti_right s" seen cur alive path]
      by (auto simp: install_calls_def ti_at_def)
  next
    case (Inr y)
    obtain rebuild cur' s1 where y: "ti_step x cur s = Inr (rebuild, cur', s1)" using Inr by (cases y) auto
    obtain n1 where n1: "m_augment xs fin cur' s1 = (n1, s', res)" "n = rebuild n1"
      using Cons.prems y by (auto split: prod.splits)
    have "steps_on alive T seen path cur s xs rebuild cur' s1"
      using y steps_on_load [OF assms(1) Cons.prems(2)] steps_on_test [OF assms(1) Cons.prems(2)] Cons.prems(3)
      by (cases x) (auto simp: ti_step_def)
    then obtain ds seen' path' where d: "ti_calls s1 = ti_calls s @ ds" "ti_at T seen' path' cur' s1" "good_trace T seen' xs"
      "\<And>cs n. grows alive T (ti_left s1) (ti_right s1) seen' path' cur' cs n \<Longrightarrow>
        grows alive T (ti_left s) (ti_right s) seen path cur (ds @ cs) (rebuild n)"
      unfolding steps_on_def by blast
    have "may_end alive fin (m_at xs cur')" if "res = Inr leaf" for leaf using Cons.prems(1) [OF that] ti_step_at [OF y] by simp
    from Cons.IH [OF this d(2,3) n1(1)] d n1(2) show ?thesis by fastforce
  qed
qed

end
