(* ===== verification/Maple_Lookup.thy ===== *)
theory Maple_Lookup
  imports Maple_Install
begin

text \<open>
  What adding traces does to the packets: a packet that agrees with the new trace is given the new
  flow, the others keep theirs, and the rules installed so far send every packet to the flow that
  is looked up for it.
\<close>

section \<open>Lookup after a trace\<close>

lemma lookup_cases_find:
  "m_lookup_cases ld tst alive p m cases =
    (case m_find_case (f_value (ld p m)) cases of None \<Rightarrow> None | Some n \<Rightarrow> m_lookup ld tst alive p n)"
  by (induction cases) (auto split: prod.splits)

lemma find_case_put: "m_find_case b (put c n cases) = (if b = c then Some n else m_find_case b cases)"
  by (induction cases) auto

lemma ti_step_lookup:
  assumes T: "coherent T" and at: "ti_at T seen path cur s" and g: "good_trace T seen (x # xs)"
    and step: "ti_step x cur s = Inr (rebuild, cur', s')"
  shows "m_lookup ld tst alive q (rebuild n) = (if answers ld tst q x then m_lookup ld tst alive q n else m_lookup ld tst alive q cur)"
    and "answers ld tst q x \<Longrightarrow> m_lookup ld tst alive q cur' = m_lookup ld tst alive q cur"
proof -
  have ok: "m_ok T (ti_left s) (ti_right s) seen cur" using at by (simp add: ti_at_def)
  have "m_lookup ld tst alive q (rebuild n) = (if answers ld tst q x then m_lookup ld tst alive q n else m_lookup ld tst alive q cur) \<and>
    (answers ld tst q x \<longrightarrow> m_lookup ld tst alive q cur' = m_lookup ld tst alive q cur)"
  proof (cases x)
    case (Load_obs f)
    have f: "good_mask T seen (mask_of f)" using g Load_obs by simp
    show ?thesis
    proof (cases cur)
      case (M_load m cases)
      have "mask_eq m (mask_of f)" using step M_load Load_obs by (auto simp: ti_step_def ti_load_def Let_def split: if_splits)
      then have "m = mask_of f" using ok M_load f by (intro same_mask [OF T]) (auto simp: good_mask_def)
      then show ?thesis using step M_load Load_obs
        by (auto simp: ti_step_def ti_load_def Let_def answers_def lookup_cases_find find_case_put split: if_splits option.splits)
    qed (use step Load_obs in \<open>auto simp: ti_step_def ti_load_def answers_def\<close>)
  next
    case (Test_obs f ret)
    have f: "good_test T seen f" using g Test_obs by simp
    show ?thesis
    proof (cases cur)
      case (M_test need pos neg nid prio)
      have "field_eq need f" using step M_test Test_obs by (auto simp: ti_step_def ti_test_def split: if_splits)
      then have "need = f" using ok M_test f by (intro same_field [OF T]) (auto simp: good_test_def good_mask_def mask_of_def)
      then show ?thesis using step M_test Test_obs
        by (auto simp: ti_step_def ti_test_def answers_def split: if_splits)
    next
      case M_unexplored
      then obtain nid prio where "rebuild = (if ret then (\<lambda>n. M_test f n M_unexplored nid prio) else (\<lambda>n. M_test f M_unexplored n nid prio))"
        "cur' = M_unexplored"
        using step Test_obs by (cases "ti_middle s") (auto simp: ti_step_def ti_test_def Let_def)
      then show ?thesis using M_unexplored Test_obs by (auto simp: answers_def)
    qed (use step Test_obs in \<open>simp_all add: ti_step_def ti_test_def\<close>)
  qed
  then show "m_lookup ld tst alive q (rebuild n) = (if answers ld tst q x then m_lookup ld tst alive q n else m_lookup ld tst alive q cur)"
    "answers ld tst q x \<Longrightarrow> m_lookup ld tst alive q cur' = m_lookup ld tst alive q cur" by blast+
qed

lemma augment_lookup:
  assumes "coherent T" "\<forall>fl. fin = Inr fl \<longrightarrow> alive fl" "ti_at T seen path cur s" "good_trace T seen xs" "m_augment xs fin cur s = (n, s', res)"
  shows "m_lookup ld tst alive q n =
    (case res of Inr leaf \<Rightarrow> (if list_all (answers ld tst q) xs then (case fin of Inr fl \<Rightarrow> Some fl | Inl e \<Rightarrow> None) else m_lookup ld tst alive q cur)
     | Inl e \<Rightarrow> m_lookup ld tst alive q cur)"
  using assms(3-5)
proof (induction xs arbitrary: seen path cur s n)
  case Nil
  show ?case
  proof (cases "rbind fin (\<lambda>fl. ti_finish fl cur s)")
    case (Inr leaf)
    then obtain fl prio where "fin = Inr fl" "leaf = M_flow fl prio"
      by (cases cur) (auto simp: ti_finish_def rbind_eq_Inr)
    then show ?thesis using Nil Inr assms(2) by auto
  next
    case (Inl e)
    then have "n = cur \<and> res = Inl e" using Nil.prems by simp
    then show ?thesis by simp
  qed
next
  case (Cons x xs)
  show ?case
  proof (cases "ti_step x cur s")
    case (Inr y)
    obtain rebuild cur' s1 where y: "ti_step x cur s = Inr (rebuild, cur', s1)" using Inr by (cases y) auto
    obtain n1 where n1: "m_augment xs fin cur' s1 = (n1, s', res)" "n = rebuild n1"
      using Cons.prems y by (auto split: prod.splits)
    have "steps_on alive T seen path cur s xs rebuild cur' s1"
      using y steps_on_load [OF assms(1) Cons.prems(1)] steps_on_test [OF assms(1) Cons.prems(1)] Cons.prems(2)
      by (cases x) (auto simp: ti_step_def)
    then obtain seen' path' where "ti_at T seen' path' cur' s1" "good_trace T seen' xs" unfolding steps_on_def by blast
    from Cons.IH [OF this n1(1)] ti_step_lookup [OF assms(1) Cons.prems(1,2) y, where ld = ld and tst = tst and alive = alive and q = q] n1(2) show ?thesis
      by (cases "answers ld tst q x"; cases res) simp_all
  qed (use Cons.prems in auto)
qed

lemma augment_fin: "m_augment xs fin cur s = (n, s', Inr leaf) \<Longrightarrow> \<exists>fl. fin = Inr fl"
  by (induction xs arbitrary: cur s n) (auto simp: rbind_eq_Inr split: sum.splits prod.splits)

section \<open>The tree with its table\<close>

text \<open>The entries of the table are the rules of the tree.\<close>

definition tree_ok :: "(nat \<Rightarrow> bool) \<Rightarrow> oxm_type set \<Rightarrow> trace_tree \<Rightarrow> m_table \<Rightarrow> bool" where
  "tree_ok alive T t tbl = (m_ok T (tr_left t) (tr_right t) {} (tr_root t) \<and> distinct (map fst tbl) \<and>
     map_of tbl = as_map (m_rules alive [] (tr_root t)))"

text \<open>The entry of highest priority sends the packet to its flow, or no entry but a barrier matches.\<close>

definition table_serves :: "('p \<Rightarrow> oxm_field \<Rightarrow> bool) \<Rightarrow> 'p \<Rightarrow> m_table \<Rightarrow> nat option \<Rightarrow> bool" where
  "table_serves tst p tbl fl = serves tst p (map unkeyed tbl) fl"

lemma on_path_empty: "on_path T {} [] (ffs_make [] [])"
  by (simp add: on_path_def ffs_make_def mfs_of_list_def wf_mfs_def mfs_empty_def)

lemma tree_ok_init: "tree_ok alive T (tree_init l r) []"
  by (simp add: tree_ok_def tree_init_def)

lemma tree_ok_serves:
  assumes "tree_ok alive T t tbl" "reads_cases T ld tst p"
  shows "table_serves tst p tbl (m_lookup ld tst alive p (tr_root t))"
proof -
  have ok: "m_ok T (tr_left t) (tr_right t) {} (tr_root t)" and
    e: "map_of (map keyed (m_rules alive [] (tr_root t))) = map_of tbl"
    using assms(1) by (simp_all add: tree_ok_def as_map_def)
  have "distinct (map fst tbl)" using assms(1) by (simp add: tree_ok_def)
  with lookup_serves(1) [OF assms(2) ok, of "[]" alive] serves_map [OF e rules_distinct(1) [OF ok], of tst p]
  show ?thesis by (simp add: table_serves_def)
qed

lemma tree_augment_ok:
  assumes "coherent T" "tree_ok alive T t tbl" "\<forall>fl. fin = Inr fl \<longrightarrow> alive fl" "good_trace T {} xs" "tree_augment alive xs fin t = (t', res)"
  shows "\<exists>cs. tr_calls t' = tr_calls t @ cs \<and> tree_ok alive T t' (fold table_call cs tbl)"
    and "m_lookup ld tst alive q (tr_root t') =
      (if res = Inr () \<and> list_all (answers ld tst q) xs then (case fin of Inr fl \<Rightarrow> Some fl | Inl e \<Rightarrow> None)
       else m_lookup ld tst alive q (tr_root t))"
proof -
  obtain n s r where n: "m_augment xs fin (tr_root t) (tracer_init (tr_left t) (tr_right t) (tr_next_id t)) = (n, s, r)"
    by (cases "m_augment xs fin (tr_root t) (tracer_init (tr_left t) (tr_right t) (tr_next_id t))") auto
  have t': "tr_root t' = n" "tr_left t' = tr_left t" "tr_right t' = tr_right t"
    "tr_calls t' = tr_calls t @ (ti_calls s @ install_calls alive s r)" "res = Inr () \<longleftrightarrow> (\<exists>leaf. r = Inr leaf)"
    using assms(5) n by (auto simp: tree_augment_def install_calls_def split: sum.splits)
  have at: "ti_at T {} [] (tr_root t) (tracer_init (tr_left t) (tr_right t) (tr_next_id t))"
    using assms(2) by (simp add: ti_at_def tree_ok_def tracer_init_def on_path_empty)
  have "may_end alive fin (m_at xs (tr_root t))" using assms(3) by (simp add: may_end_def)
  then obtain cs where cs: "ti_calls s = cs"
    "grows alive T (tr_left t) (tr_right t) {} [] (tr_root t) (cs @ install_calls alive s r) n"
    using augment_grows [where alive = alive, OF assms(1) _ at assms(4) n] by (auto simp: tracer_init_def)
  have "map_of (fold table_call (cs @ install_calls alive s r) tbl) = as_map (m_rules alive [] n)"
    using cs table_calls [of "cs @ install_calls alive s r" tbl] assms(2) unfolding grows_def tree_ok_def by metis
  moreover have "distinct (map fst (fold table_call (cs @ install_calls alive s r) tbl))"
    using assms(2) by (intro table_distinct) (simp add: tree_ok_def)
  ultimately have "tree_ok alive T t' (fold table_call (cs @ install_calls alive s r) tbl)"
    using cs(2) t' unfolding tree_ok_def grows_def by simp
  then show "\<exists>cs. tr_calls t' = tr_calls t @ cs \<and> tree_ok alive T t' (fold table_call cs tbl)" using t'(4) cs(1) by blast
  show "m_lookup ld tst alive q (tr_root t') =
      (if res = Inr () \<and> list_all (answers ld tst q) xs then (case fin of Inr fl \<Rightarrow> Some fl | Inl e \<Rightarrow> None)
       else m_lookup ld tst alive q (tr_root t))"
    using augment_lookup [where alive = alive, OF assms(1,3) at assms(4) n, of ld tst q] t'(1,5) by (cases r) simp_all
qed

lemma tree_augment_fin: "tree_augment alive xs fin t = (t', Inr ()) \<Longrightarrow> \<exists>fl. fin = Inr fl"
  by (auto simp: tree_augment_def split: prod.splits sum.splits dest: augment_fin)

text \<open>Committing the tree replaces whatever was installed by the rules of the tree.\<close>

lemma changes_distinct:
  assumes "distinct (map (fst \<circ> keyed) rs)"
  shows "changes rs = as_map rs"
proof -
  have "distinct (map fst (map keyed rs))" "distinct (map fst (map keyed (rev rs)))"
    using assms by (simp_all add: rev_map [symmetric] del: rev_map)
  then show ?thesis unfolding changes_def as_map_def by (subst map_of_inject_set) auto
qed

lemma tree_commit_ok:
  assumes "coherent T" "m_ok T (tr_left t) (tr_right t) {} (tr_root t)"
  shows "tree_ok alive T (tree_commit alive t) (run_calls (tr_calls (tree_commit alive t)))"
proof -
  obtain mt' cs where c: "m_compile alive (tr_root t) (ffs_make [] [], [M_remove_all, M_barrier]) = (mt', [M_remove_all, M_barrier] @ cs)"
    "rules_of_calls cs = m_rules alive [] (tr_root t)" "M_remove_all \<notin> set cs"
    using compile_rules(1) [OF assms on_path_empty] by metis
  have t: "run_calls (tr_calls (tree_commit alive t)) = fold table_call (cs @ [M_barrier]) []"
    by (simp add: run_calls_def tree_commit_def c table_call_def)
  have "map_of (fold table_call (cs @ [M_barrier]) []) = changes (m_rules alive [] (tr_root t))"
    using c table_calls [of "cs @ [M_barrier]" "[]"] by simp
  also have "\<dots> = as_map (m_rules alive [] (tr_root t))" by (rule changes_distinct [OF rules_distinct(1) [OF assms(2)]])
  moreover have "distinct (map fst (fold table_call (cs @ [M_barrier]) []))" by (intro table_distinct) simp
  ultimately show ?thesis using assms(2) unfolding tree_ok_def t by (simp add: tree_commit_def)
qed

section \<open>Packets\<close>

text \<open>A case of a load tests true on the packets that load its bits.\<close>

lemma reads_cases_fs:
  assumes "full_fs (set known_types) p"
  shows "reads_cases (set known_types) fs_load fs_test p"
proof -
  have "fs_test p (case_field m b) = (f_value (fs_load p m) = b)"
    if m: "wf_mask m" "m_type m \<in> set known_types" "good_case m b" for m b
  proof -
    have m': "mask_of (case_field m b) = m" "f_type (case_field m b) = m_type m" "f_value (case_field m b) = b" "f_mask (case_field m b) = m_mask m"
      using m(3) by (simp_all add: good_case_def case_field_def mask_of_def)
    have "wf_field (case_field m b)"
      unfolding wf_field_def m'(1) using m m'(2-4) by (simp add: wf_value_def good_case_def)
    then have o: "obs_ok (set known_types) (Load_obs (case_field m b))" "obs_ok (set known_types) (Test_obs (case_field m b) True)"
      using m(2) m'(2) by (simp_all add: obs_ok_def)
    show ?thesis using answers_fs [OF assms o(1)] answers_fs [OF assms o(2)] m' by (simp add: answers_def)
  qed
  then show ?thesis by (simp add: reads_cases_def)
qed

lemma rules_no_overlap:
  "reads_cases T ld tst p \<Longrightarrow> m_ok T l r seen n \<Longrightarrow> x \<in> set (m_rules alive path n) \<Longrightarrow> y \<in> set (m_rules alive path n) \<Longrightarrow>
    applies tst p x \<Longrightarrow> applies tst p y \<Longrightarrow> fst x = fst y \<Longrightarrow> x = y"
  "reads_cases T ld tst p \<Longrightarrow> m_ok_cases T l r seen m cases \<Longrightarrow> wf_mask m \<Longrightarrow> m_type m \<in> T \<Longrightarrow>
    x \<in> set (m_rules_cases alive path m cases) \<Longrightarrow> y \<in> set (m_rules_cases alive path m cases) \<Longrightarrow>
    applies tst p x \<Longrightarrow> applies tst p y \<Longrightarrow> fst x = fst y \<Longrightarrow> x = y"
proof (induction T l r seen n and T l r seen m cases arbitrary: path and path rule: m_ok_m_ok_cases.induct)
  case (2 T l r seen fl prio)
  then show ?case by (auto split: if_splits)
next
  case (3 T l r seen f pos neg nid prio)
  have ok: "m_ok T prio r (insert (f_type f) seen) pos" "m_ok T l prio seen neg" using "3.prems" by auto
  have b: "prio < fst z" if "z \<in> set (m_rules alive (path @ [f]) pos)" for z using rules_bounds(1) [OF ok(1) that] by simp
  have c: "fst z < prio" if "z \<in> set (m_rules alive path neg)" for z using rules_bounds(1) [OF ok(2) that] by simp
  have "x \<in> set (m_rules alive path neg) \<and> y \<in> set (m_rules alive path neg) \<or>
      x \<in> set (m_rules alive (path @ [f]) pos) \<and> y \<in> set (m_rules alive (path @ [f]) pos) \<or> x = y"
    using "3.prems"(3,4,7) b c by fastforce
  then show ?case using "3.IH"(1) [OF "3.prems"(1) ok(1)] "3.IH"(2) [OF "3.prems"(1) ok(2)] "3.prems"(5-7) by blast
next
  case (4 T l r seen m cases)
  then show ?case by (auto simp: good_mask_def)
next
  case (6 T l r seen m b n cs)
  have ok: "good_case m b" "b \<notin> fst ` set cs" "m_ok T l r seen n" "m_ok_cases T l r seen m cs" using "6.prems" by auto
  have t: "tst p (case_field m c) \<longleftrightarrow> f_value (ld p m) = c" if "good_case m c" for c
    using "6.prems"(1,3,4) that by (simp add: reads_cases_def)
  have one: "False" if u: "u \<in> set (m_rules alive (path @ [case_field m b]) n)" "applies tst p u"
    and v: "v \<in> set (m_rules_cases alive path m cs)" "applies tst p v" for u v
  proof -
    have "f_value (ld p m) = b" using rules_apply(1) [OF u] t [OF ok(1)] by simp
    moreover obtain c where "c \<in> fst ` set cs" "tst p (case_field m c)" using rules_apply(2) [OF v] by blast
    ultimately show False using t m_ok_cases_good [OF ok(4)] ok(2) by metis
  qed
  have "x \<in> set (m_rules alive (path @ [case_field m b]) n) \<and> y \<in> set (m_rules alive (path @ [case_field m b]) n) \<or>
      x \<in> set (m_rules_cases alive path m cs) \<and> y \<in> set (m_rules_cases alive path m cs)"
    using "6.prems"(5-8) one [of x y] one [of y x] by auto
  then show ?case using "6.IH"(1) [OF "6.prems"(1) ok(3)] "6.IH"(2) [OF "6.prems"(1) ok(4) "6.prems"(3,4)] "6.prems"(7-9) by blast
qed auto

lemma tree_ok_no_overlap:
  assumes "tree_ok alive T t tbl" "reads_cases T ld tst p" "a \<in> set tbl" "b \<in> set tbl"
    "applies tst p (unkeyed a)" "applies tst p (unkeyed b)" "fst (fst a) = fst (fst b)"
  shows "a = b"
proof -
  have ok: "m_ok T (tr_left t) (tr_right t) {} (tr_root t)" using assms(1) by (simp add: tree_ok_def)
  have in_rules: "unkeyed e \<in> set (m_rules alive [] (tr_root t))" if "e \<in> set tbl" for e
  proof -
    have "map_of (map keyed (m_rules alive [] (tr_root t))) (fst e) = Some (snd e)"
    proof -
      have "distinct (map fst tbl)" "(fst e, snd e) \<in> set tbl" using assms(1) that by (simp_all add: tree_ok_def)
      then have "map_of tbl (fst e) = Some (snd e)" by (rule map_of_is_SomeI)
      then show ?thesis using assms(1) by (simp add: tree_ok_def as_map_def)
    qed
    then have "e \<in> keyed ` set (m_rules alive [] (tr_root t))" using map_of_SomeD by fastforce
    then show ?thesis by auto
  qed
  have "unkeyed a = unkeyed b"
    using rules_no_overlap(1) [OF assms(2) ok in_rules [OF assms(3)] in_rules [OF assms(4)] assms(5,6)] assms(7)
    by (simp add: unkeyed_def)
  then show "a = b" by (simp add: unkeyed_def prod_eq_iff)
qed

section \<open>Property\<close>

fun augment_all :: "(nat \<Rightarrow> bool) \<Rightarrow> (obs list \<times> nat res) list \<Rightarrow> trace_tree \<Rightarrow> trace_tree" where
  "augment_all alive [] t = t"
| "augment_all alive ((xs, fin) # ts) t = augment_all alive ts (fst (tree_augment alive xs fin t))"

definition traces_ok :: "(nat \<Rightarrow> bool) \<Rightarrow> (obs list \<times> nat res) list \<Rightarrow> bool" where
  "traces_ok alive ts = list_all (\<lambda>(xs, fin). good_trace (set known_types) {} xs \<and>
     (case fin of Inr fl \<Rightarrow> alive fl | Inl e \<Rightarrow> True)) ts"

lemma augment_all_ok:
  "traces_ok alive ts \<Longrightarrow> tree_ok alive (set known_types) t tbl \<Longrightarrow>
    \<exists>cs. tr_calls (augment_all alive ts t) = tr_calls t @ cs \<and> tree_ok alive (set known_types) (augment_all alive ts t) (fold table_call cs tbl)"
proof (induction ts arbitrary: t tbl)
  case (Cons x ts)
  obtain xs fin where x: "x = (xs, fin)" by (cases x)
  obtain t1 res where t1: "tree_augment alive xs fin t = (t1, res)" by (cases "tree_augment alive xs fin t")
  have g: "\<forall>fl. fin = Inr fl \<longrightarrow> alive fl" "good_trace (set known_types) {} xs" "traces_ok alive ts"
    using Cons.prems(1) x by (auto simp: traces_ok_def)
  obtain cs where cs: "tr_calls t1 = tr_calls t @ cs" "tree_ok alive (set known_types) t1 (fold table_call cs tbl)"
    using tree_augment_ok(1) [OF coherent_known Cons.prems(2) g(1,2) t1] by blast
  obtain ds where "tr_calls (augment_all alive ts t1) = tr_calls t1 @ ds"
    "tree_ok alive (set known_types) (augment_all alive ts t1) (fold table_call ds (fold table_call cs tbl))"
    using Cons.IH [OF g(3) cs(2)] by blast
  with cs(1) t1 x show ?case by (intro exI [of _ "cs @ ds"]) simp
qed simp


text \<open>Two flows: packets of type 7 by their port, the others together.\<close>

definition sample_traces :: "(obs list \<times> nat res) list" where
  "sample_traces = [([Test_obs (num_field ofb_eth_type 7) False], Inr 1),
     ([Test_obs (num_field ofb_eth_type 7) True, Load_obs (num_field ofb_in_port 3)], Inr 2)]"

lemma sample_traces_ok: "traces_ok (\<lambda>_. True) sample_traces"
  by code_simp


end
