(* ===== verification/Maple_Bounds.thy ===== *)
theory Maple_Bounds
  imports Maple_Lookup
begin

text \<open>
  How far the 16 bits of a priority reach: every test of a trace halves the range that is left, so
  the default range serves all traces with at most 14 tests, and no more.
\<close>

section \<open>Ranges\<close>

fun m_halved :: "16 word \<Rightarrow> 16 word \<Rightarrow> mnode \<Rightarrow> bool"
  and m_halved_cases :: "16 word \<Rightarrow> 16 word \<Rightarrow> (bits \<times> mnode) list \<Rightarrow> bool" where
  "m_halved l r M_unexplored = True"
| "m_halved l r (M_flow fl prio) = True"
| "m_halved l r (M_test f pos neg nid prio) = (prio = mid_prio l r \<and> m_halved prio r pos \<and> m_halved l prio neg)"
| "m_halved l r (M_load m cases) = m_halved_cases l r cases"
| "m_halved_cases l r [] = True"
| "m_halved_cases l r ((b, n) # cs) = (m_halved l r n \<and> m_halved_cases l r cs)"

lemma halved_cases_iff: "m_halved_cases l r cases = list_all (\<lambda>c. m_halved l r (snd c)) cases"
  by (induction cases) auto

lemma halved_put: "m_halved_cases l r cases \<Longrightarrow> m_halved l r n \<Longrightarrow> m_halved_cases l r (put b n cases)"
  by (induction cases) (auto simp: halved_cases_iff)

lemma halved_find: "m_halved_cases l r cases \<Longrightarrow> m_halved l r (case m_find_case b cases of None \<Rightarrow> M_unexplored | Some n \<Rightarrow> n)"
  by (induction cases) auto

text \<open>Room for \<open>k\<close> tests and the flow.\<close>

definition room :: "nat \<Rightarrow> 16 word \<Rightarrow> 16 word \<Rightarrow> bool" where
  "room k l r = (unat l + 2 ^ Suc k \<le> unat r)"

lemma room_middle: "room k (ti_left s) (ti_right s) \<Longrightarrow> ti_middle s = Inr (mid_prio (ti_left s) (ti_right s))"
proof -
  assume a: "room k (ti_left s) (ti_right s)"
  have "1 \<le> (2 :: nat) ^ k" by simp
  with a have "unat (ti_left s) + 2 \<le> unat (ti_right s)" unfolding room_def power_Suc by linarith
  then show ?thesis by (simp add: ti_middle_def Let_def word_le_nat_alt unat_mid_prio) presburger
qed

lemma room_halves:
  assumes "room (Suc k) l r"
  shows "room k l (mid_prio l r)" "room k (mid_prio l r) r"
  using assms by (simp_all add: room_def unat_mid_prio)

lemma room_mono: "room k l r \<Longrightarrow> j \<le> k \<Longrightarrow> room j l r"
  unfolding room_def using power_increasing [of "Suc j" "Suc k" "2 :: nat"] by linarith

fun count_tests :: "obs list \<Rightarrow> nat" where
  "count_tests [] = 0"
| "count_tests (Load_obs f # xs) = count_tests xs"
| "count_tests (Test_obs f r # xs) = Suc (count_tests xs)"

lemma augment_has_room:
  assumes "m_halved (ti_left s) (ti_right s) cur" "room (count_tests xs) (ti_left s) (ti_right s)"
    "m_augment xs fin cur s = (n, s', res)" "fin \<noteq> Inl Priority_exceeded"
  shows "m_halved (ti_left s) (ti_right s) n \<and> res \<noteq> Inl Priority_exceeded"
  using assms(1-3)
proof (induction xs arbitrary: cur s n)
  case Nil
  have "ti_finish fl cur s \<noteq> Inl Priority_exceeded" for fl
    using room_middle [OF Nil.prems(2)] by (cases cur) (simp_all add: ti_finish_def)
  moreover have "m_halved (ti_left s) (ti_right s) leaf" if "ti_finish fl cur s = Inr leaf" for fl leaf
    using that by (cases cur) (auto simp: ti_finish_def rbind_eq_Inr)
  ultimately show ?case using Nil assms(4) by (cases fin) (auto split: sum.splits)
next
  case (Cons x xs)
  have rm: "room (count_tests xs) (ti_left s) (ti_right s)"
    using Cons.prems(2) by (cases x) (auto intro: room_mono)
  show ?case
  proof (cases x)
    case (Load_obs f)
    show ?thesis
    proof (cases "ti_load f cur s")
      case (Inl e)
      then have "e = Inconsistent_trace" by (cases cur) (auto simp: ti_load_def Let_def split: if_splits)
      then show ?thesis using Cons.prems Load_obs Inl by (auto simp: ti_step_def)
    next
      case (Inr y)
      then obtain rebuild cur' s1 where y: "ti_load f cur s = Inr (rebuild, cur', s1)" by (cases y) auto
      obtain n1 where n1: "m_augment xs fin cur' s1 = (n1, s', res)" "n = rebuild n1"
        using Cons.prems y Load_obs by (auto simp: ti_step_def split: prod.splits)
      have s1: "ti_left s1 = ti_left s" "ti_right s1 = ti_right s" "m_halved (ti_left s) (ti_right s) cur'"
        "m_halved (ti_left s) (ti_right s) k \<Longrightarrow> m_halved (ti_left s) (ti_right s) (rebuild k)" for k
        using y Cons.prems(1) halved_put halved_find
        by (cases cur; auto simp: ti_load_def Let_def split: if_splits)+
      show ?thesis using Cons.IH [OF _ _ n1(1)] s1 rm n1(2) by simp
    qed
  next
    case (Test_obs f ret)
    have half: "room (count_tests xs) (ti_left s) (mid_prio (ti_left s) (ti_right s))"
      "room (count_tests xs) (mid_prio (ti_left s) (ti_right s)) (ti_right s)"
      using room_halves [of "count_tests xs"] Cons.prems(2) Test_obs by simp_all
    show ?thesis
    proof (cases "ti_test f ret cur s")
      case (Inl e)
      then have "e = Inconsistent_trace" using room_middle [OF rm]
        by (cases cur) (auto simp: ti_test_def Let_def split: if_splits)
      then show ?thesis using Cons.prems Test_obs Inl by (auto simp: ti_step_def)
    next
      case (Inr y)
      then obtain rebuild cur' s1 where y: "ti_test f ret cur s = Inr (rebuild, cur', s1)" by (cases y) auto
      obtain n1 where n1: "m_augment xs fin cur' s1 = (n1, s', res)" "n = rebuild n1"
        using Cons.prems y Test_obs by (auto simp: ti_step_def split: prod.splits)
      let ?m = "mid_prio (ti_left s) (ti_right s)"
      have s1: "ti_left s1 = (if ret then ?m else ti_left s)" "ti_right s1 = (if ret then ti_right s else ?m)"
        "m_halved (ti_left s1) (ti_right s1) cur'"
        "m_halved (ti_left s1) (ti_right s1) k \<Longrightarrow> m_halved (ti_left s) (ti_right s) (rebuild k)" for k
        using y Cons.prems(1) room_middle [OF rm]
        by (cases cur; auto simp: ti_test_def ti_after_test_def Let_def split: if_splits)+
      show ?thesis using Cons.IH [OF s1(3) _ n1(1)] s1(1,2,4) half n1(2) by (auto split: if_splits)
    qed
  qed
qed

lemma tree_augment_room:
  assumes "m_halved (tr_left t) (tr_right t) (tr_root t)" "room (count_tests xs) (tr_left t) (tr_right t)"
    "fin \<noteq> Inl Priority_exceeded"
  shows "m_halved (tr_left t) (tr_right t) (tr_root (fst (tree_augment alive xs fin t))) \<and>
    snd (tree_augment alive xs fin t) \<noteq> Inl Priority_exceeded \<and>
    tr_left (fst (tree_augment alive xs fin t)) = tr_left t \<and> tr_right (fst (tree_augment alive xs fin t)) = tr_right t"
proof -
  obtain n s r where n: "m_augment xs fin (tr_root t) (tracer_init (tr_left t) (tr_right t) (tr_next_id t)) = (n, s, r)"
    by (cases "m_augment xs fin (tr_root t) (tracer_init (tr_left t) (tr_right t) (tr_next_id t))") auto
  show ?thesis
    using augment_has_room [OF _ _ n assms(3)] assms(1,2) n
    by (auto simp: tree_augment_def tracer_init_def split: sum.splits)
qed

text \<open>
  C27: sixteen bits of priority are enough for 14 tests. In the default range from 1 to 65535 no trace
  that makes at most 14 tests runs out of priorities, whatever traces of that kind were added
  before it; and the bound is sharp, since 15 failing tests in a row do run out.
\<close>

theorem fourteen_tests_fit:
  assumes "\<forall>(xs, fin) \<in> set ts. count_tests xs \<le> 14 \<and> fin \<noteq> Inl Priority_exceeded" "count_tests xs \<le> 14"
  shows "snd (tree_augment alive xs (Inr fl) (augment_all alive ts (tree_init 1 65535))) \<noteq> Inl Priority_exceeded \<and>
    snd (tree_augment alive (map (\<lambda>i. Test_obs (num_field ofb_eth_type i) False) [0..<15]) (Inr fl) (tree_init 1 65535)) =
      Inl Priority_exceeded"
proof -
  have rm: "room (count_tests xs) 1 65535" if "count_tests xs \<le> 14" for xs
    by (rule room_mono [OF _ that]) (simp add: room_def)
  have "m_halved l r (tr_root (augment_all alive ts t)) \<and> tr_left (augment_all alive ts t) = l \<and> tr_right (augment_all alive ts t) = r"
    if "m_halved l r (tr_root t)" "tr_left t = l" "tr_right t = r" "l = 1" "r = 65535" for l r t
    using that assms(1)
  proof (induction ts arbitrary: t)
    case (Cons x ts)
    obtain ys fin where x: "x = (ys, fin)" by (cases x)
    with Cons show ?case using tree_augment_room [of t ys fin alive] rm [of ys] by simp
  qed simp
  from this [of 1 65535 "tree_init 1 65535"]
  have "m_halved 1 65535 (tr_root (augment_all alive ts (tree_init 1 65535)))"
    "tr_left (augment_all alive ts (tree_init 1 65535)) = 1" "tr_right (augment_all alive ts (tree_init 1 65535)) = 65535"
    by (simp_all add: tree_init_def)
  then have "snd (tree_augment alive xs (Inr fl) (augment_all alive ts (tree_init 1 65535))) \<noteq> Inl Priority_exceeded"
    using tree_augment_room [of "augment_all alive ts (tree_init 1 65535)" xs "Inr fl" alive] rm [OF assms(2)] by simp
  moreover have "snd (tree_augment alive (map (\<lambda>i. Test_obs (num_field ofb_eth_type i) False) [0..<15]) (Inr fl) (tree_init 1 65535)) =
      Inl Priority_exceeded"
    by (simp add: tree_augment_def tree_init_def tracer_init_def upt_rec ti_step_def ti_test_def ti_after_test_def ti_middle_def
        ti_finish_def mid_prio_def)
  ultimately show ?thesis by blast
qed

lemma fourteen_tests_fit_witness:
  "snd (tree_augment (\<lambda>_. True) [Test_obs (num_field ofb_eth_type 9) False] (Inr 3)
     (augment_all (\<lambda>_. True) sample_traces (tree_init 1 65535))) \<noteq> Inl Priority_exceeded"
  using fourteen_tests_fit [of sample_traces "[Test_obs (num_field ofb_eth_type 9) False]" "\<lambda>_. True" 3]
  by (simp add: sample_traces_def)

end
