(* ===== verification/Decision.thy ===== *)
theory Decision
  imports Oxm_Field
begin

text \<open>
  The decisions of Maple handlers, \<^verbatim>\<open>src/Decision.hh\<close> and \<^verbatim>\<open>src/Decision.cc\<close>, and the
  actions and timeouts a flow makes of them (\<open>FlowImpl\<close> of \<^verbatim>\<open>src/Maple.cc\<close>). Handlers and
  bodies are known by their addresses. The main result: what a pipeline decides does not depend
  on the order of its requests.
\<close>

section \<open>Decisions\<close>

text \<open>Durations are seconds in 32 bits; a port set is listed in its order of iteration.\<close>

definition decision_duration_max :: "32 word" where
  "decision_duration_max = - 1"

datatype decision_data =
    Undefined
  | Drop
  | Unicast "32 word"
  | Multicast "32 word list"
  | Broadcast
  | Inspect "16 word" nat
  | Custom nat

record decision =
  d_return :: bool
  d_idle :: "32 word"
  d_hard :: "32 word"
  d_data :: decision_data

definition no_decision :: decision where
  "no_decision = \<lparr>d_return = False, d_idle = decision_duration_max, d_hard = decision_duration_max, d_data = Undefined\<rparr>"

definition decide_return :: "decision \<Rightarrow> decision" where
  "decide_return d = d\<lparr>d_return := True\<rparr>"

definition decide_idle :: "32 word \<Rightarrow> decision \<Rightarrow> decision" where
  "decide_idle t d = d\<lparr>d_idle := min t (d_idle d)\<rparr>"

definition decide_hard :: "32 word \<Rightarrow> decision \<Rightarrow> decision" where
  "decide_hard t d = d\<lparr>d_hard := min t (d_hard d), d_idle := min t (d_idle d)\<rparr>"

definition decide_unicast :: "32 word \<Rightarrow> decision \<Rightarrow> decision res" where
  "decide_unicast port d =
     (if d_data d \<noteq> Undefined \<and> (case d_data d of Unicast u \<Rightarrow> u \<noteq> port | _ \<Rightarrow> True) then Inl Decision_conflict
      else Inr (d\<lparr>d_data := Unicast port\<rparr>))"

definition decide_multicast :: "32 word list \<Rightarrow> decision \<Rightarrow> decision res" where
  "decide_multicast ps d =
     (if d_data d \<noteq> Undefined \<and> (case d_data d of Multicast qs \<Rightarrow> set qs \<noteq> set ps | _ \<Rightarrow> True) then Inl Decision_conflict
      else Inr (d\<lparr>d_data := Multicast ps\<rparr>))"

definition decide_broadcast :: "decision \<Rightarrow> decision res" where
  "decide_broadcast d =
     (if d_data d \<noteq> Undefined \<and> d_data d \<noteq> Broadcast then Inl Decision_conflict
      else Inr (d\<lparr>d_data := Broadcast\<rparr>))"

definition decide_inspect :: "16 word \<Rightarrow> nat \<Rightarrow> decision \<Rightarrow> decision res" where
  "decide_inspect bytes h d = (case d_data d of
       Undefined \<Rightarrow> Inr (d\<lparr>d_data := Inspect bytes h\<rparr>)
     | Inspect old _ \<Rightarrow> Inr (d\<lparr>d_data := Inspect (max bytes old) h\<rparr>)
     | _ \<Rightarrow> Inl Decision_conflict)"

definition decide_drop :: "decision \<Rightarrow> decision" where
  "decide_drop d = d\<lparr>d_data := Drop\<rparr>"

definition decide_custom :: "nat \<Rightarrow> decision \<Rightarrow> decision res" where
  "decide_custom body d =
     (if d_data d \<noteq> Undefined \<and> (case d_data d of Custom _ \<Rightarrow> False | _ \<Rightarrow> True) then Inl Decision_conflict
      else Inr (d\<lparr>d_data := Custom body\<rparr>))"

definition decide_clear :: "decision \<Rightarrow> decision" where
  "decide_clear d = no_decision"

section \<open>What a flow makes of its decision\<close>

datatype maple_action = SetFieldAction oxm_field | OutputAction "32 word" "16 word"

definition port_flood :: "32 word" where "port_flood = 0xfffffffb"
definition port_controller :: "32 word" where "port_controller = 0xfffffffd"

text \<open>The actions of a custom body are a parameter.\<close>

definition decision_actions :: "(nat \<Rightarrow> 64 word \<Rightarrow> maple_action list) \<Rightarrow> 64 word \<Rightarrow> decision_data \<Rightarrow> maple_action list res" where
  "decision_actions body dpid d = (case d of
       Undefined \<Rightarrow> Inl Runtime_error
     | Drop \<Rightarrow> Inr []
     | Unicast port \<Rightarrow> Inr [OutputAction port 0]
     | Multicast ports \<Rightarrow> Inr (map (\<lambda>p. OutputAction p 0) ports)
     | Broadcast \<Rightarrow> Inr [OutputAction port_flood 0]
     | Inspect bytes h \<Rightarrow> Inr [OutputAction port_controller bytes]
     | Custom b \<Rightarrow> Inr (body b dpid))"

definition flow_actions :: "(nat \<Rightarrow> 64 word \<Rightarrow> maple_action list) \<Rightarrow> 64 word \<Rightarrow> oxm_field list \<Rightarrow> decision \<Rightarrow> maple_action list res" where
  "flow_actions body dpid mods d = rbind (decision_actions body dpid (d_data d)) (\<lambda>out. Inr (map SetFieldAction mods @ out))"

text \<open>Seconds in the 16 bits of a flow entry, where zero stands for no timeout.\<close>

definition entry_timeout :: "32 word \<Rightarrow> 16 word" where
  "entry_timeout t = (if t = decision_duration_max then 0 else ucast (min t 65535))"

definition disposable :: "decision \<Rightarrow> bool" where
  "disposable d = (d_idle d \<le> 0)"

section \<open>Requests\<close>

datatype request =
    R_return
  | R_idle "32 word"
  | R_hard "32 word"
  | R_unicast "32 word"
  | R_multicast "32 word list"
  | R_broadcast
  | R_inspect "16 word" nat
  | R_custom nat
  | R_drop
  | R_clear

fun decide :: "request \<Rightarrow> decision \<Rightarrow> decision res" where
  "decide R_return d = Inr (decide_return d)"
| "decide (R_idle t) d = Inr (decide_idle t d)"
| "decide (R_hard t) d = Inr (decide_hard t d)"
| "decide (R_unicast p) d = decide_unicast p d"
| "decide (R_multicast ps) d = decide_multicast ps d"
| "decide R_broadcast d = decide_broadcast d"
| "decide (R_inspect n h) d = decide_inspect n h d"
| "decide (R_custom b) d = decide_custom b d"
| "decide R_drop d = Inr (decide_drop d)"
| "decide R_clear d = Inr (decide_clear d)"

text \<open>What a request asks to be done with the packet, up to the length of an inspection and the order of ports.\<close>

fun wants :: "request \<Rightarrow> decision_data option" where
  "wants (R_unicast p) = Some (Unicast p)"
| "wants (R_multicast ps) = Some (Multicast ps)"
| "wants R_broadcast = Some Broadcast"
| "wants (R_inspect n h) = Some (Inspect n h)"
| "wants (R_custom b) = Some (Custom b)"
| "wants _ = None"

fun same_kind :: "decision_data \<Rightarrow> decision_data \<Rightarrow> bool" where
  "same_kind (Unicast p) (Unicast q) = (p = q)"
| "same_kind (Multicast ps) (Multicast qs) = (set ps = set qs)"
| "same_kind Broadcast Broadcast = True"
| "same_kind (Inspect n h) (Inspect m k) = True"
| "same_kind (Custom b) (Custom c) = True"
| "same_kind _ _ = False"

definition overriding :: "request \<Rightarrow> bool" where
  "overriding r = (r = R_drop \<or> r = R_clear)"

text \<open>The requests name one handler, one body and one listing of each port set.\<close>

definition one_target :: "request set \<Rightarrow> bool" where
  "one_target R = ((\<forall>n h m k. R_inspect n h \<in> R \<and> R_inspect m k \<in> R \<longrightarrow> h = k) \<and>
     (\<forall>b c. R_custom b \<in> R \<and> R_custom c \<in> R \<longrightarrow> b = c) \<and>
     (\<forall>ps qs. R_multicast ps \<in> R \<and> R_multicast qs \<in> R \<and> set ps = set qs \<longrightarrow> ps = qs))"

definition decide_all :: "request list \<Rightarrow> decision \<Rightarrow> decision res" where
  "decide_all rs d = rfold decide rs d"

lemma decide_commute:
  assumes "one_target R" "a \<in> R" "b \<in> R" "\<not> overriding a" "\<not> overriding b"
  shows "rbind (decide a d) (decide b) = rbind (decide b d) (decide a)"
  using assms
  by (cases a; cases b; cases "d_data d")
    (auto simp: overriding_def one_target_def decide_return_def decide_idle_def decide_hard_def decide_unicast_def
      decide_multicast_def decide_broadcast_def decide_inspect_def decide_custom_def min.left_commute max.left_commute
      min.commute max.commute)

lemma decide_all_simps [simp]:
  "decide_all [] d = Inr d" "decide_all (r # rs) d = rbind (decide r d) (decide_all rs)"
  unfolding decide_all_def by (auto intro: rbind_cong)

text \<open>The order of requests does not show.\<close>

lemma decide_all_fold: "decide_all rs d = fold (\<lambda>r x. rbind x (decide r)) rs (Inr d)"
proof (induction rs arbitrary: d)
  case (Cons r rs)
  have err: "fold (\<lambda>r x. rbind x (decide r)) rs (Inl e) = Inl e" for e by (induction rs) auto
  show ?case using Cons err by (cases "decide r d") simp_all
qed simp

lemma decide_all_permute:
  assumes "one_target (set rs)" "\<forall>r \<in> set rs. \<not> overriding r" "mset qs = mset rs"
  shows "decide_all qs d = decide_all rs d"
proof -
  have "rbind (rbind x (decide a)) (decide b) = rbind (rbind x (decide b)) (decide a)"
    if "a \<in> set rs" "b \<in> set rs" for a b x
    using that assms(2) decide_commute [OF assms(1) that] by (cases x) simp_all
  then have "fold (\<lambda>r x. rbind x (decide r)) rs = fold (\<lambda>r x. rbind x (decide r)) qs"
    using assms(3) by (intro fold_multiset_equiv) (auto simp: fun_eq_iff)
  then show ?thesis by (simp add: decide_all_fold)
qed

text \<open>Which requests conflict.\<close>

lemma same_kind_sym: "same_kind x y \<Longrightarrow> same_kind y x"
  by (induction x y rule: same_kind.induct) auto

lemma same_kind_trans: "same_kind x y \<Longrightarrow> same_kind y z \<Longrightarrow> same_kind x z"
  by (cases x; cases y; cases z) simp_all

lemmas decide_defs = overriding_def decide_return_def decide_idle_def decide_hard_def decide_unicast_def
  decide_multicast_def decide_broadcast_def decide_inspect_def decide_custom_def decide_drop_def decide_clear_def

lemma decide_succeeds:
  "\<not> overriding r \<Longrightarrow> d_data d \<noteq> Drop \<Longrightarrow>
    (\<exists>d'. decide r d = Inr d') \<longleftrightarrow> (\<forall>x. wants r = Some x \<longrightarrow> d_data d = Undefined \<or> same_kind (d_data d) x)"
  by (cases r; cases "d_data d") (auto simp: decide_defs split: if_splits)

lemma decide_keeps_kind:
  "\<not> overriding r \<Longrightarrow> decide r d = Inr d' \<Longrightarrow> (case wants r of None \<Rightarrow> d_data d' = d_data d | Some x \<Rightarrow> same_kind x (d_data d'))"
  by (cases r; cases "d_data d") (auto simp: decide_defs split: if_splits)

definition agreeing :: "decision_data \<Rightarrow> request list \<Rightarrow> bool" where
  "agreeing k rs = ((\<forall>a \<in> set rs. \<forall>b \<in> set rs. \<forall>x y. wants a = Some x \<and> wants b = Some y \<longrightarrow> same_kind x y) \<and>
     (k \<noteq> Undefined \<longrightarrow> (\<forall>a \<in> set rs. \<forall>x. wants a = Some x \<longrightarrow> same_kind k x)))"

lemma wants_refl: "wants r = Some x \<Longrightarrow> same_kind x x"
  by (cases r) auto

lemma agreeing_kind:
  assumes "x \<noteq> Undefined" "y \<noteq> Undefined" "same_kind x y"
  shows "agreeing x rs = agreeing y rs"
proof -
  have "same_kind x z = same_kind y z" for z
    using same_kind_trans [OF assms(3), of z] same_kind_trans [OF same_kind_sym [OF assms(3)], of z] by blast
  then show ?thesis using assms(1,2) by (simp add: agreeing_def)
qed

lemma agreeing_Some:
  assumes "wants r = Some x"
  shows "agreeing k (r # rs) \<longleftrightarrow> (k = Undefined \<or> same_kind k x) \<and> agreeing x rs"
proof -
  have x: "same_kind x x" "x \<noteq> Undefined" using wants_refl [OF assms] assms by (cases r; auto)+
  show ?thesis
  proof
    assume "agreeing k (r # rs)"
    then show "(k = Undefined \<or> same_kind k x) \<and> agreeing x rs" using assms unfolding agreeing_def by auto
  next
    assume a: "(k = Undefined \<or> same_kind k x) \<and> agreeing x rs"
    then have xs: "same_kind x y" if "b \<in> set (r # rs)" "wants b = Some y" for b y
      using that assms x by (auto simp: agreeing_def)
    then have "same_kind y z" if "b \<in> set (r # rs)" "wants b = Some y" "c \<in> set (r # rs)" "wants c = Some z" for b c y z
      using that same_kind_sym same_kind_trans by blast
    moreover have "same_kind k y" if "k \<noteq> Undefined" "b \<in> set (r # rs)" "wants b = Some y" for b y
      using that a xs same_kind_trans by blast
    ultimately show "agreeing k (r # rs)" unfolding agreeing_def by blast
  qed
qed

lemma agreeing_None: "wants r = None \<Longrightarrow> agreeing k (r # rs) = agreeing k rs"
  by (auto simp: agreeing_def)

lemma decide_all_succeeds:
  "\<forall>r \<in> set rs. \<not> overriding r \<Longrightarrow> d_data d \<noteq> Drop \<Longrightarrow> (\<exists>d'. decide_all rs d = Inr d') \<longleftrightarrow> agreeing (d_data d) rs"
proof (induction rs arbitrary: d)
  case Nil
  then show ?case by (simp add: agreeing_def)
next
  case (Cons r rs)
  have r: "\<not> overriding r" using Cons.prems by simp
  show ?case
  proof (cases "decide r d")
    case (Inl e)
    then obtain x where "wants r = Some x" "\<not> (d_data d = Undefined \<or> same_kind (d_data d) x)"
      using decide_succeeds [OF r Cons.prems(2)] by auto
    then show ?thesis using Inl agreeing_Some [of r x "d_data d" rs] by auto
  next
    case (Inr d1)
    note k = decide_keeps_kind [OF r Inr]
    show ?thesis
    proof (cases "wants r")
      case None
      then show ?thesis using Cons.IH [of d1] Cons.prems Inr k agreeing_None by simp
    next
      case (Some x)
      have sk: "same_kind x (d_data d1)" using k Some by simp
      then have nu: "d_data d1 \<noteq> Undefined" "d_data d1 \<noteq> Drop" "x \<noteq> Undefined"
        by (cases x; cases "d_data d1"; simp)+
      have "d_data d = Undefined \<or> same_kind (d_data d) x" using decide_succeeds [OF r Cons.prems(2)] Inr Some by auto
      then show ?thesis
        using Cons.IH [of d1] Cons.prems Inr agreeing_Some [OF Some, of "d_data d" rs] agreeing_kind [OF nu(3,1) sk, of rs] nu(2) by simp
    qed
  qed
qed

lemma decide_all_kind:
  "\<forall>r \<in> set rs. \<not> overriding r \<Longrightarrow> d_data d \<noteq> Drop \<Longrightarrow> d_data d \<noteq> Undefined \<Longrightarrow> decide_all rs d = Inr d' \<Longrightarrow>
    same_kind (d_data d) (d_data d')"
proof (induction rs arbitrary: d)
  case Nil
  then show ?case by (cases "d_data d") auto
next
  case (Cons r rs)
  obtain d1 where d1: "decide r d = Inr d1" "decide_all rs d1 = Inr d'" using Cons.prems by (auto simp: rbind_eq_Inr)
  have r: "\<not> overriding r" using Cons.prems by simp
  have "same_kind (d_data d) (d_data d1)"
    using decide_keeps_kind [OF r d1(1)] decide_succeeds [OF r Cons.prems(2)] d1(1) Cons.prems(2,3) same_kind_trans
    by (cases "wants r"; cases "d_data d") (auto split: option.splits)
  moreover from this have "d_data d1 \<noteq> Drop" "d_data d1 \<noteq> Undefined" by (cases "d_data d"; auto)+
  ultimately show ?case using Cons.IH [OF _ _ _ d1(2)] Cons.prems(1) same_kind_trans by simp
qed

text \<open>Timeouts only shrink.\<close>

lemma decide_base:
  assumes "r \<noteq> R_clear" "decide r d = Inr d'"
  shows "d_return d' \<longleftrightarrow> d_return d \<or> r = R_return"
    and "d_hard d' = (case r of R_hard t \<Rightarrow> min t (d_hard d) | _ \<Rightarrow> d_hard d)"
    and "d_idle d' = (case r of R_hard t \<Rightarrow> min t (d_idle d) | R_idle t \<Rightarrow> min t (d_idle d) | _ \<Rightarrow> d_idle d)"
  using assms by (cases r; auto simp: decide_defs split: if_splits decision_data.splits)+

lemma decide_all_base:
  assumes "R_clear \<notin> set rs" "decide_all rs d = Inr d'"
  shows "(d_return d' \<longleftrightarrow> d_return d \<or> R_return \<in> set rs) \<and>
    d_hard d' \<le> d_hard d \<and> (\<forall>t. R_hard t \<in> set rs \<longrightarrow> d_hard d' \<le> t) \<and> (d_hard d' = d_hard d \<or> R_hard (d_hard d') \<in> set rs) \<and>
    d_idle d' \<le> d_idle d \<and> (\<forall>t. R_hard t \<in> set rs \<or> R_idle t \<in> set rs \<longrightarrow> d_idle d' \<le> t) \<and>
    (d_idle d' = d_idle d \<or> R_hard (d_idle d') \<in> set rs \<or> R_idle (d_idle d') \<in> set rs)"
  using assms
proof (induction rs arbitrary: d)
  case (Cons r rs)
  obtain d1 where d1: "decide r d = Inr d1" "decide_all rs d1 = Inr d'" using Cons.prems by (auto simp: rbind_eq_Inr)
  have r: "r \<noteq> R_clear" using Cons.prems by auto
  note b = decide_base [OF r d1(1)]
  have "R_clear \<notin> set rs" using Cons.prems by simp
  note ih = Cons.IH [OF this d1(2)]
  have "d_hard d1 \<le> d_hard d" "d_idle d1 \<le> d_idle d"
    "d_hard d1 = d_hard d \<or> r = R_hard (d_hard d1)" "d_idle d1 = d_idle d \<or> r = R_hard (d_idle d1) \<or> r = R_idle (d_idle d1)"
    "\<And>t. r = R_hard t \<Longrightarrow> d_hard d1 \<le> t" "\<And>t. r = R_hard t \<or> r = R_idle t \<Longrightarrow> d_idle d1 \<le> t"
    using b(2,3) by (cases r; auto simp: min_def)+
  with ih b(1) show ?case by (auto intro: order_trans) 
qed simp

lemma decide_all_wants:
  "\<forall>r \<in> set rs. \<not> overriding r \<Longrightarrow> d_data d \<noteq> Drop \<Longrightarrow> decide_all rs d = Inr d' \<Longrightarrow> a \<in> set rs \<Longrightarrow>
    (case wants a of None \<Rightarrow> True | Some x \<Rightarrow> same_kind x (d_data d'))"
proof (induction rs arbitrary: d a)
  case (Cons r rs)
  obtain d1 where d1: "decide r d = Inr d1" "decide_all rs d1 = Inr d'" using Cons.prems by (auto simp: rbind_eq_Inr)
  have r: "\<not> overriding r" using Cons.prems by simp
  note k = decide_keeps_kind [OF r d1(1)]
  have nd: "d_data d1 \<noteq> Drop" using k Cons.prems(2) by (cases "wants r") (auto elim: same_kind.elims)
  note ih = Cons.IH [OF _ nd d1(2)]
  show ?case
  proof (cases "a \<in> set rs")
    case True
    then show ?thesis using ih Cons.prems(1) by simp
  next
    case False
    then have a: "a = r" using Cons.prems by simp
    show ?thesis
    proof (cases "wants r")
      case (Some x)
      have sk: "same_kind x (d_data d1)" using k Some by simp
      have "d_data d1 \<noteq> Undefined" using sk by (cases x) auto
      then have "same_kind (d_data d1) (d_data d')" using decide_all_kind [OF _ nd _ d1(2)] Cons.prems(1) by simp
      then show ?thesis using sk Some a same_kind_trans by simp
    qed (simp add: a)
  qed
qed simp

section \<open>Property\<close>

text \<open>
  C28: a pipeline decides the same whatever the order of its requests. Requests for forwarding (no drop
  and no clear, one handler, body and port list at a time) succeed exactly when no two of them want
  different things, otherwise there is a conflict; the order does not matter for either. The
  decision returns iff one request said so, and its timeouts are the least that were asked for,
  where a hard timeout bounds the idle timeout too.
\<close>

theorem decisions_merge:
  assumes "\<forall>r \<in> set rs. \<not> overriding r" "one_target (set rs)"
  shows "(\<forall>qs. mset qs = mset rs \<longrightarrow> decide_all qs no_decision = decide_all rs no_decision) \<and>
    ((\<exists>d. decide_all rs no_decision = Inr d) \<longleftrightarrow>
       (\<forall>a \<in> set rs. \<forall>b \<in> set rs. \<forall>x y. wants a = Some x \<and> wants b = Some y \<longrightarrow> same_kind x y)) \<and>
    (\<forall>d. decide_all rs no_decision = Inr d \<longrightarrow> (d_return d \<longleftrightarrow> R_return \<in> set rs) \<and>
       (\<forall>r \<in> set rs. case wants r of None \<Rightarrow> True | Some x \<Rightarrow> same_kind x (d_data d)) \<and>
       (\<forall>t. R_hard t \<in> set rs \<longrightarrow> d_hard d \<le> t) \<and> (d_hard d = decision_duration_max \<or> R_hard (d_hard d) \<in> set rs) \<and>
       (\<forall>t. R_hard t \<in> set rs \<or> R_idle t \<in> set rs \<longrightarrow> d_idle d \<le> t) \<and>
       (d_idle d = decision_duration_max \<or> R_hard (d_idle d) \<in> set rs \<or> R_idle (d_idle d) \<in> set rs))"
proof -
  have nd: "d_data no_decision = Undefined" "d_hard no_decision = decision_duration_max" "d_idle no_decision = decision_duration_max" "\<not> d_return no_decision"
    by (simp_all add: no_decision_def)
  have nc: "R_clear \<notin> set rs" using assms(1) by (auto simp: overriding_def)
  have "case wants r of None \<Rightarrow> True | Some x \<Rightarrow> same_kind x (d_data d)"
    if "decide_all rs no_decision = Inr d" "r \<in> set rs" for r d
    using decide_all_wants [OF assms(1) _ that] nd(1) by simp
  moreover have "(\<exists>d. decide_all rs no_decision = Inr d) \<longleftrightarrow>
      (\<forall>a \<in> set rs. \<forall>b \<in> set rs. \<forall>x y. wants a = Some x \<and> wants b = Some y \<longrightarrow> same_kind x y)"
    using decide_all_succeeds [OF assms(1), of no_decision] unfolding agreeing_def nd(1) by simp
  moreover note decide_all_permute [OF assms(2,1)] decide_all_base [OF nc, of no_decision, unfolded nd]
  ultimately show ?thesis using nd(4) by (intro conjI allI impI ballI) blast+
qed

text \<open>A flow may be unicast and time out, once two handlers have agreed on its port.\<close>

lemma decisions_merge_witness:
  "decide_all [R_hard 1800, R_unicast 3, R_idle 60, R_unicast 3] no_decision =
   decide_all [R_unicast 3, R_idle 60, R_unicast 3, R_hard 1800] no_decision"
proof -
  have "\<forall>r \<in> set [R_unicast 3, R_idle 60, R_unicast 3, R_hard 1800]. \<not> overriding r"
    "one_target (set [R_unicast 3, R_idle 60, R_unicast 3, R_hard 1800])"
    by (simp_all add: overriding_def one_target_def)
  from decisions_merge [OF this]
  have "\<forall>qs. mset qs = mset [R_unicast 3, R_idle 60, R_unicast 3, R_hard 1800] \<longrightarrow>
      decide_all qs no_decision = decide_all [R_unicast 3, R_idle 60, R_unicast 3, R_hard 1800] no_decision" by (rule conjunct1)
  moreover have "mset [R_hard 1800, R_unicast 3, R_idle 60, R_unicast 3] = mset [R_unicast 3, R_idle 60, R_unicast 3, R_hard 1800]" by simp
  ultimately show ?thesis by blast
qed

text \<open>A drop overrides what was decided before, but what comes after it conflicts.\<close>

lemma drop_is_not_symmetric:
  "decide_all [R_unicast 3, R_drop] no_decision = Inr (no_decision\<lparr>d_data := Drop\<rparr>)"
  "decide_all [R_drop, R_unicast 3] no_decision = Inl Decision_conflict"
  by (simp_all add: decide_defs no_decision_def)

end
