(* ===== verification/Maple_Handlers.thy ===== *)
theory Maple_Handlers
  imports Maple_Lookup Decision Traverse
begin

text \<open>
  The handlers of Maple, \<^verbatim>\<open>src/api/PacketMissHandler.hh\<close>, their pipeline
  (\<open>MapleImpl::process\<close> of \<^verbatim>\<open>src/Maple.cc\<close>) and their runs on a traceable packet. They trace
  like the handlers of Retic, whose results carry over.
\<close>

section \<open>Handlers\<close>

text \<open>A handler reads and rewrites the packet and ends in a decision or an exception.\<close>

datatype 'd mhandler =
    M_return 'd
  | M_loading oxm_mask "oxm_field \<Rightarrow> 'd mhandler"
  | M_testing oxm_field "bool \<Rightarrow> 'd mhandler"
  | M_rewriting oxm_field "'d mhandler"

primrec mbind :: "'d mhandler \<Rightarrow> ('d \<Rightarrow> 'e mhandler) \<Rightarrow> 'e mhandler" where
  "mbind (M_return d) k = k d"
| "mbind (M_loading m h) k = M_loading m (\<lambda>f. mbind (h f) k)"
| "mbind (M_testing f h) k = M_testing f (\<lambda>b. mbind (h b) k)"
| "mbind (M_rewriting f h) k = M_rewriting f (mbind h k)"

text \<open>\<open>process\<close>: the handlers in order, until one of them returns or throws.\<close>

type_synonym miss_handler = "nat \<Rightarrow> decision \<Rightarrow> decision res mhandler"

fun pipeline_from :: "miss_handler list \<Rightarrow> nat \<Rightarrow> decision \<Rightarrow> decision res mhandler" where
  "pipeline_from [] fl d = M_return (Inr d)"
| "pipeline_from (h # hs) fl d = mbind (h fl d) (\<lambda>r. case r of
     Inl e \<Rightarrow> M_return (Inl e)
   | Inr d1 \<Rightarrow> (if d_return d1 then M_return (Inr d1) else pipeline_from hs fl d1))"

definition process :: "miss_handler list \<Rightarrow> nat \<Rightarrow> decision res mhandler" where
  "process hs fl = pipeline_from hs fl no_decision"

primrec m_run :: "'d mhandler \<Rightarrow> ('p \<Rightarrow> oxm_mask \<Rightarrow> oxm_field) \<Rightarrow> ('p \<Rightarrow> oxm_field \<Rightarrow> 'p) \<Rightarrow> 'p run_state \<Rightarrow> 'd \<times> 'p run_state" where
  "m_run (M_return d) ld md r = (d, r)"
| "m_run (M_loading m k) ld md r =
     (case tp_load ld (r_traced r) m of (f, s) \<Rightarrow> m_run (k f) ld md (r\<lparr>r_traced := s\<rparr>))"
| "m_run (M_testing f k) ld md r =
     (case tp_test ld (r_traced r) f of (b, s) \<Rightarrow> m_run (k b) ld md (r\<lparr>r_traced := s\<rparr>))"
| "m_run (M_rewriting f h) ld md r = m_run h ld md (mt_modify md r f)"

text \<open>The same handler on the packet itself: its result, the packet it leaves and the rewrites.\<close>

primrec m_plain :: "'d mhandler \<Rightarrow> ('p \<Rightarrow> oxm_mask \<Rightarrow> oxm_field) \<Rightarrow> ('p \<Rightarrow> oxm_field \<Rightarrow> bool) \<Rightarrow>
  ('p \<Rightarrow> oxm_field \<Rightarrow> 'p) \<Rightarrow> 'p \<Rightarrow> field_set \<Rightarrow> 'd \<times> 'p \<times> field_set" where
  "m_plain (M_return d) ld tst md p mods = (d, p, mods)"
| "m_plain (M_loading m k) ld tst md p mods = m_plain (k (ld p m)) ld tst md p mods"
| "m_plain (M_testing f k) ld tst md p mods = m_plain (k (tst p f)) ld tst md p mods"
| "m_plain (M_rewriting f h) ld tst md p mods = m_plain h ld tst md (md p f) (fs_modify mods f)"

section \<open>Whole headers\<close>

text \<open>
  Handlers that load and test whole headers: a header is then recorded at most once. The identity of
  the switch may be loaded but is neither tested nor rewritten.
\<close>

primrec whole :: "oxm_type set \<Rightarrow> handler \<Rightarrow> bool" where
  "whole T (Return pol) = True"
| "whole T (Load m k) = (m_type m \<in> T \<and> m = exact_mask (m_type m) \<and> (\<forall>f. whole T (k f)))"
| "whole T (Test f k) = (in_types T f \<and> f_type f \<noteq> ofb_switch_id \<and> (\<forall>b. whole T (k b)))"
| "whole T (Rewrite f h) = (wf_field f \<and> f_type f \<in> T \<and> f_type f \<noteq> ofb_switch_id \<and> whole T h)"

primrec m_whole :: "oxm_type set \<Rightarrow> 'd mhandler \<Rightarrow> bool" where
  "m_whole T (M_return d) = True"
| "m_whole T (M_loading m k) = (m_type m \<in> T \<and> m = exact_mask (m_type m) \<and> (\<forall>f. m_whole T (k f)))"
| "m_whole T (M_testing f k) = (in_types T f \<and> f_type f \<noteq> ofb_switch_id \<and> (\<forall>b. m_whole T (k b)))"
| "m_whole T (M_rewriting f h) = (wf_field f \<and> f_type f \<in> T \<and> f_type f \<noteq> ofb_switch_id \<and> m_whole T h)"

lemma mhandler_induct [case_names M_return M_loading M_testing M_rewriting]:
  assumes "\<And>d. P (M_return d)" "\<And>m k. (\<And>f. P (k f)) \<Longrightarrow> P (M_loading m k)"
    and "\<And>f k. (\<And>b. P (k b)) \<Longrightarrow> P (M_testing f k)" "\<And>f h. P h \<Longrightarrow> P (M_rewriting f h)"
  shows "P h"
  by (rule mhandler.induct [of P]) (auto intro: assms)

lemma whole_mbind: "m_whole T h \<Longrightarrow> (\<And>d. m_whole T (k d)) \<Longrightarrow> m_whole T (mbind h k)"
  by (induction h rule: mhandler_induct) auto

lemma whole_pipeline: "\<forall>h \<in> set hs. \<forall>d. m_whole T (h fl d) \<Longrightarrow> m_whole T (pipeline_from hs fl d)"
  by (induction hs arbitrary: d) (auto intro!: whole_mbind split: sum.splits)

lemma whole_ok: "whole T h \<Longrightarrow> handler_ok T h"
proof (induction h rule: handler_induct)
  case (Load m k)
  then have "wf_mask m" by (metis wf_exact_mask whole.simps(2))
  with Load show ?case by auto
qed (auto simp: in_types_def wf_exact_def)

text \<open>Two results are told apart by a handler of Retic.\<close>

primrec as_handler :: "('d \<Rightarrow> bool) \<Rightarrow> 'd mhandler \<Rightarrow> handler" where
  "as_handler P (M_return d) = Return (if P d then Ident else Stop)"
| "as_handler P (M_loading m k) = Load m (\<lambda>f. as_handler P (k f))"
| "as_handler P (M_testing f k) = Test f (\<lambda>b. as_handler P (k b))"
| "as_handler P (M_rewriting f h) = Rewrite f (as_handler P h)"

lemma whole_as_handler: "whole T (as_handler P h) = m_whole T h"
  by (induction h rule: mhandler_induct) auto

lemma run_as_handler:
  "run_handler (as_handler P h) ld md r = (case m_run h ld md r of (d, r') \<Rightarrow> (if P d then Ident else Stop, r'))"
  by (induction h arbitrary: r rule: mhandler_induct) (auto split: prod.splits)

lemma plain_as_handler:
  "plain_run (as_handler P h) ld tst md p mods = (case m_plain h ld tst md p mods of (d, r) \<Rightarrow> (if P d then Ident else Stop, r))"
  by (induction h arbitrary: p mods rule: mhandler_induct) (auto split: prod.splits)

section \<open>Traces of whole headers\<close>

text \<open>The cache knows the headers that were read, and nothing of the switch before it is read.\<close>

definition cache_known :: "oxm_type set \<Rightarrow> oxm_type set \<Rightarrow> field_set \<Rightarrow> bool" where
  "cache_known T seen fs = (seen \<subseteq> T \<and> (\<forall>t \<in> seen. \<forall>i < nbits t. f_mask (entry fs t) ! i) \<and>
     (ofb_switch_id \<in> T \<and> ofb_switch_id \<notin> seen \<longrightarrow> (\<forall>i < nbits ofb_switch_id. \<not> f_mask (entry fs ofb_switch_id) ! i)))"

definition goes_on :: "oxm_type set \<Rightarrow> oxm_type set \<Rightarrow> obs list \<Rightarrow> oxm_type set \<Rightarrow> bool" where
  "goes_on T seen new seen' = (\<forall>xs. good_trace T seen' xs \<longrightarrow> good_trace T seen (new @ xs))"

lemma goes_on_trans: "goes_on T a xs b \<Longrightarrow> goes_on T b ys c \<Longrightarrow> goes_on T a (xs @ ys) c"
  by (simp add: goes_on_def)

lemma exact_mask_nth: "i < nbits t \<Longrightarrow> m_mask (exact_mask t) ! i"
  by (simp add: exact_mask_def bits_simps)

context packet_view
begin

lemma cache_known_learn:
  assumes "cache_known T seen cache" "wf_fs T cache" "wf_field u" "f_type u \<in> T"
    and "\<And>i. i < nbits (f_type u) \<Longrightarrow> f_mask (entry cache (f_type u)) ! i \<or> f_mask u ! i"
  shows "cache_known T (insert (f_type u) seen) (fs_modify cache u)"
proof -
  have e: "f_mask (entry (fs_modify cache u) t) ! i = (f_mask (entry cache t) ! i \<or> t = f_type u \<and> f_mask u ! i)"
    if t: "t \<in> T" "i < nbits t" for t i
    using entry_wf [OF types assms(2) t(1)] t(2) assms(3)
    by (auto simp: entry_modify [OF types assms(3,4) t(1)] rewrite_nth)
  show ?thesis using assms e unfolding cache_known_def by (auto simp: subset_iff)
qed

lemma load_goes_on:
  assumes s: "traced_ok T valid val p0 s" and m: "m = exact_mask t" "t \<in> T" and k: "cache_known T seen (tp_cache s)"
  shows "\<exists>new seen'. tp_trace (snd (tp_load load s m)) = tp_trace s @ new \<and> goes_on T seen new seen' \<and>
    cache_known T seen' (tp_cache (snd (tp_load load s m)))"
proof -
  have "m_type m = t" unfolding m(1) by (simp add: exact_mask_def)
  moreover have "wf_mask m" unfolding m(1) by (rule wf_exact_mask)
  ultimately have mt: "m_type m = t" "wf_mask m" "m_type m \<in> T" using m(2) by simp_all
  define u where "u = new_bits (val (tp_pkt s) t) (entry (tp_cache s) t) m"
  note l = tp_load_eq [OF s mt(2,3), unfolded mt(1), folded u_def]
  note a = unexplored [OF s mt(2,3), unfolded mt(1), folded u_def]
  have wf: "wf_fs T (tp_cache s)" using s by (simp add: traced_ok_def)
  show ?thesis
  proof (cases "wildcard u")
    case True
    then show ?thesis using l k by (intro exI [of _ "[]"] exI [of _ seen]) (simp add: goes_on_def)
  next
    case False
    have bits: "f_mask u ! i = (\<not> f_mask (entry (tp_cache s) t) ! i)" if "i < nbits t" for i
      using a(3) [OF that] exact_mask_nth [OF that] m(1) by simp
    have "t \<notin> seen"
    proof
      assume "t \<in> seen"
      then have "\<forall>i < nbits t. \<not> f_mask u ! i" using k bits by (simp add: cache_known_def)
      then show False using False a(1,2) by (simp add: wildcard_def bits_none_iff wf_field_length)
    qed
    moreover have "mask_of u = exact_mask ofb_switch_id" if "t = ofb_switch_id"
    proof -
      have "\<forall>i < nbits t. f_mask u ! i" using k bits calculation m(2) that by (simp add: cache_known_def)
      then have "f_mask u = m_mask (exact_mask t)"
        using a(1,2) exact_mask_nth by (intro list_eqI2) (auto simp: wf_field_length exact_mask_def bits_simps)
      then show ?thesis using a(2) that by (simp add: mask_of_def exact_mask_def)
    qed
    ultimately have "good_mask T seen (mask_of u)"
      using a(1,2) m(2) False by (simp add: good_mask_def wf_mask_of wildcard_def)
    then have "goes_on T seen [Load_obs u] (insert t seen)" using a(1,2) by (simp add: goes_on_def)
    moreover have "cache_known T (insert t seen) (fs_modify (tp_cache s) u)"
      using cache_known_learn [OF k wf a(1)] a(2) m(2) bits by auto
    ultimately show ?thesis using l False
      by (intro exI [of _ "[Load_obs u]"] exI [of _ "insert t seen"]) simp
  qed
qed

lemma test_goes_on:
  assumes s: "traced_ok T valid val p0 s" and f: "in_types T f" "f_type f \<noteq> ofb_switch_id" and k: "cache_known T seen (tp_cache s)"
  shows "\<exists>new seen'. tp_trace (snd (tp_test load s f)) = tp_trace s @ new \<and> goes_on T seen new seen' \<and>
    cache_known T seen' (tp_cache (snd (tp_test load s f)))"
proof -
  let ?t = "f_type f"
  have ft: "wf_field f" "?t \<in> T" "wf_exact f" using f by (simp_all add: in_types_def wf_exact_wf)
  define u where "u = new_bits (val (tp_pkt s) ?t) (entry (tp_cache s) ?t) (mask_of f)"
  have mm: "wf_mask (mask_of f)" "m_type (mask_of f) \<in> T" using ft by (auto intro: wf_mask_of)
  note l = tp_test_eq [OF s ft(1,2), folded u_def]
  note a = unexplored [OF s mm, simplified, folded u_def]
  note b = test_bits [OF s ft(1,2), folded u_def]
  have wf: "wf_fs T (tp_cache s)" using s by (simp add: traced_ok_def)
  let ?x = "and_mask f (mask_of u)"
  show ?thesis
  proof (cases "\<not> matches (and_mask (entry (tp_cache s) ?t) (mask_of f)) f \<or> wildcard u")
    case True
    then show ?thesis using l k by (intro exI [of _ "[]"] exI [of _ seen]) (auto simp: goes_on_def Let_def)
  next
    case False
    have bits: "f_mask u ! i = (\<not> f_mask (entry (tp_cache s) ?t) ! i)" if "i < nbits ?t" for i
      using a(3) [OF that] wf_exact_nth [OF ft(3) that] by simp
    have "?t \<notin> seen"
    proof
      assume "?t \<in> seen"
      then have "\<forall>i < nbits ?t. \<not> f_mask u ! i" using k bits by (simp add: cache_known_def)
      then show False using False a(1,2) by (simp add: wildcard_def bits_none_iff wf_field_length)
    qed
    moreover have xt: "f_type ?x = ?t" by simp
    moreover have "\<not> wildcard ?x"
    proof -
      obtain i where i: "i < nbits ?t" "f_mask u ! i" using False a(1,2) by (auto simp: wildcard_def bits_none_iff wf_field_length)
      then have "f_mask ?x ! i" using b(5) [OF i(1)] bits wf_exact_nth [OF ft(3) i(1)] by simp
      moreover have "length (f_mask ?x) = nbits ?t" using wf_field_length(2) [OF b(4)] unfolding xt .
      ultimately show ?thesis unfolding wildcard_def bits_none_iff using i(1) by metis
    qed
    ultimately have "good_test T seen ?x"
      using b(4) ft(2) f(2) by (simp add: good_test_def good_mask_def wf_mask_of wildcard_def)
    then have g: "goes_on T seen [Test_obs ?x r] (if r then insert ?t seen else seen)" for r
      using xt by (simp add: goes_on_def)
    have "cache_known T (insert ?t seen) (fs_modify (tp_cache s) u)"
      using cache_known_learn [OF k wf a(1)] a(2) ft(2) bits by auto
    then show ?thesis using l False k g [of "matches u f"]
      by (intro exI [of _ "[Test_obs ?x (matches u f)]"] exI [of _ "if matches u f then insert ?t seen else seen"]) (auto simp: Let_def)
  qed
qed

lemma modify_knows:
  assumes "cache_known T seen cache" "wf_fs T cache" "wf_field f" "f_type f \<in> T" "f_type f \<noteq> ofb_switch_id"
  shows "cache_known T seen (fs_modify cache f)"
proof -
  have e: "f_mask (entry (fs_modify cache f) t) ! i = (f_mask (entry cache t) ! i \<or> t = f_type f \<and> f_mask f ! i)"
    if t: "t \<in> T" "i < nbits t" for t i
    using entry_wf [OF types assms(2) t(1)] t(2) assms(3)
    by (auto simp: entry_modify [OF types assms(3,4) t(1)] rewrite_nth)
  show ?thesis using assms e unfolding cache_known_def by (auto simp: subset_iff)
qed

lemma run_goes_on:
  assumes "whole T h" "traced_ok T valid val p0 (r_traced r)" "cache_known T seen (tp_cache (r_traced r))"
  shows "\<exists>new seen'. tp_trace (r_traced (snd (run_handler h load modify r))) = tp_trace (r_traced r) @ new \<and> goes_on T seen new seen'"
  using assms
proof (induction h arbitrary: r seen rule: handler_induct)
  case (Return pol)
  show ?case by (intro exI [of _ "[]"] exI [of _ seen]) (simp add: goes_on_def)
next
  case (Load m k)
  have m: "m_type m \<in> T" "m = exact_mask (m_type m)" using Load.prems(1) by auto
  obtain f s where fs: "tp_load load (r_traced r) m = (f, s)" by fastforce
  obtain n1 s1 where n1: "tp_trace s = tp_trace (r_traced r) @ n1" "goes_on T seen n1 s1" "cache_known T s1 (tp_cache s)"
    using load_goes_on [OF Load.prems(2) m(2,1) Load.prems(3)] fs by auto
  have "wf_mask m" using m(2) wf_exact_mask by metis
  then have "traced_ok T valid val p0 s" using tp_load_step [OF Load.prems(2) _ m(1)] fs by auto
  then obtain n2 s2 where "tp_trace (r_traced (snd (run_handler (k f) load modify (r\<lparr>r_traced := s\<rparr>)))) = tp_trace s @ n2" "goes_on T s1 n2 s2"
    using Load.IH [of f "r\<lparr>r_traced := s\<rparr>" s1] Load.prems(1) n1(3) by auto
  then show ?case using n1 fs goes_on_trans [OF n1(2)] by (intro exI [of _ "n1 @ n2"] exI [of _ s2]) simp
next
  case (Test f k)
  have f: "in_types T f" "f_type f \<noteq> ofb_switch_id" using Test.prems(1) by auto
  obtain b s where fs: "tp_test load (r_traced r) f = (b, s)" by fastforce
  obtain n1 s1 where n1: "tp_trace s = tp_trace (r_traced r) @ n1" "goes_on T seen n1 s1" "cache_known T s1 (tp_cache s)"
    using test_goes_on [OF Test.prems(2) f Test.prems(3)] fs by auto
  have "wf_field f" "f_type f \<in> T" using f by (auto simp: in_types_def wf_exact_wf)
  then have "traced_ok T valid val p0 (snd (tp_test load (r_traced r) f))" by (rule tp_test_step [OF Test.prems(2)]) simp
  then have "traced_ok T valid val p0 s" using fs by simp
  then obtain n2 s2 where "tp_trace (r_traced (snd (run_handler (k b) load modify (r\<lparr>r_traced := s\<rparr>)))) = tp_trace s @ n2" "goes_on T s1 n2 s2"
    using Test.IH [of b "r\<lparr>r_traced := s\<rparr>" s1] Test.prems(1) n1(3) by auto
  then show ?case using n1 fs goes_on_trans [OF n1(2)] by (intro exI [of _ "n1 @ n2"] exI [of _ s2]) simp
next
  case (Rewrite f h)
  have f: "wf_field f" "f_type f \<in> T" "f_type f \<noteq> ofb_switch_id" "whole T h" using Rewrite.prems(1) by auto
  let ?r = "mt_modify modify r f"
  have c: "tp_cache (r_traced ?r) = fs_modify (tp_cache (r_traced r)) f" "tp_trace (r_traced ?r) = tp_trace (r_traced r)"
    by (simp_all add: mt_modify_def tp_modify_def)
  have t: "traced_ok T valid val p0 (r_traced ?r)"
    using traced_ok_modify [OF Rewrite.prems(2) f(1,2)] by (simp add: mt_modify_def)
  have "wf_fs T (tp_cache (r_traced r))" using Rewrite.prems(2) by (simp add: traced_ok_def)
  then have "cache_known T seen (tp_cache (r_traced ?r))" unfolding c(1) by (rule modify_knows [OF Rewrite.prems(3) _ f(1-3)])
  from Rewrite.IH [OF f(4) t this] c(2) show ?case by simp
qed

lemma whole_trace_good:
  assumes "whole T h" "valid p"
  shows "good_trace T {} (trace_values (tracer_trace load modify h p))"
proof -
  have "cache_known T {} []" by (simp add: cache_known_def wildcard_field_nth)
  then obtain new seen' where n: "tp_trace (r_traced (snd (run_handler h load modify (run_init p)))) = new" "goes_on T {} new seen'"
    using run_goes_on [OF assms(1), of p "run_init p" "{}"] traced_ok_init [OF assms(2), of "[]"] by (auto simp: run_init_def)
  have "good_trace T {} (new @ [])" using n(2) unfolding goes_on_def by (metis good_trace.simps(1))
  then show ?thesis using n(1) by (cases "run_handler h load modify (run_init p)") (simp add: tracer_trace_def)
qed

end

section \<open>Runs on field sets\<close>

text \<open>What a handler makes of a packet: its result and its rewrites.\<close>

definition outcome :: "'d mhandler \<Rightarrow> field_set \<Rightarrow> 'd \<times> field_set" where
  "outcome h p = (case m_plain h fs_load fs_test fs_modify p [] of (d, _, mods) \<Rightarrow> (d, mods))"

definition traced_run :: "'d mhandler \<Rightarrow> field_set \<Rightarrow> 'd \<times> obs list \<times> field_set" where
  "traced_run h p = (case m_run h fs_load fs_modify (run_init p) of (d, r) \<Rightarrow> (d, tp_trace (r_traced r), r_mods r))"

lemma prefix_mods_inj:
  "prefix_mods ms (if a then Ident else Stop) = prefix_mods ns (if b then Ident else Stop) \<Longrightarrow> ms = ns \<and> a = b"
proof (induction ms arbitrary: ns rule: rev_induct)
  case Nil
  then show ?case by (cases ns rule: rev_cases) (auto simp: prefix_mods_def split: if_splits)
next
  case (snoc f ms)
  then show ?case by (cases ns rule: rev_cases) (auto simp: prefix_mods_def split: if_splits)
qed

lemma traced_run_props:
  assumes "m_whole (set known_types) h" "full_fs (set known_types) p" "traced_run h p = (d, xs, mods)"
  shows "outcome h p = (d, mods)" "list_all (obs_ok (set known_types)) xs" "agrees entry p xs" "good_trace (set known_types) {} xs"
    and "full_fs (set known_types) q \<Longrightarrow> agrees entry q xs \<Longrightarrow> outcome h q = (d, mods)"
proof -
  let ?h = "as_handler (\<lambda>d'. d' = d) h"
  have w: "whole (set known_types) ?h" using assms(1) by (simp add: whole_as_handler)
  note ok = whole_ok [OF w]
  obtain r where r: "m_run h fs_load fs_modify (run_init p) = (d, r)" "tp_trace (r_traced r) = xs" "r_mods r = mods"
    using assms(3) by (auto simp: traced_run_def split: prod.splits)
  have t: "tracer_trace fs_load fs_modify ?h p = \<lparr>trace_values = xs, trace_result = prefix_mods mods (if d = d then Ident else Stop)\<rparr>"
    using r by (simp add: tracer_trace_def run_as_handler)
  have out: "outcome h q = (d, mods)"
    if q: "full_fs (set known_types) q" "trace_result (tracer_trace fs_load fs_modify ?h q) = prefix_mods mods (if d = d then Ident else Stop)" for q
  proof -
    obtain d1 p1 ms where m: "m_plain h fs_load fs_test fs_modify q [] = (d1, p1, ms)" by (metis prod_cases3)
    have "prefix_mods ms (if d1 = d then Ident else Stop) = prefix_mods mods (if d = d then Ident else Stop)"
      using fsv.trace_correct(1) [OF ok q(1), unfolded plain_run_fs [OF ok q(1)], unfolded plain_as_handler] q(2) m by simp
    then show ?thesis using prefix_mods_inj [of ms "d1 = d" mods "d = d"] m by (simp add: outcome_def)
  qed
  show "outcome h p = (d, mods)" by (rule out [OF assms(2)]) (simp add: t)
  show "list_all (obs_ok (set known_types)) xs" "agrees entry p xs" "good_trace (set known_types) {} xs"
    using fsv.trace_correct(2,3) [OF ok assms(2)] fsv.whole_trace_good [OF w assms(2)] t by simp_all
  show "outcome h q = (d, mods)" if "full_fs (set known_types) q" "agrees entry q xs"
    using fsv.trace_determines [OF ok assms(2) that(1)] that(2) t by (intro out [OF that(1)]) simp
qed

end
