(* ===== verification/Maple_Runtime.thy ===== *)
theory Maple_Runtime
  imports Maple_Handlers
begin

text \<open>
  The Maple runtime, \<^verbatim>\<open>src/maple/Runtime.hh\<close>, and the handling of packets and flows of
  \<^verbatim>\<open>src/Maple.cc\<close>: the pipeline is run on a traceable packet, its decision becomes a flow, the
  trace is added to the tree and the flow is installed. Left out are the second attempt after
  \<open>priority_exceeded\<close>, whose reassignment of priorities is not modelled, and the packets that are
  sent out again.
\<close>

section \<open>Flows\<close>

datatype flow_state = Egg | Active | Evicted | Idle | Expired

text \<open>The installer is the closure of \<open>TracerImpl::finish\<close>: the trace that leads to its node and the match.\<close>

record flow_obj =
  fo_state :: flow_state
  fo_decision :: decision
  fo_mods :: field_set
  fo_installer :: "(obs list \<times> full_field_set) option"

definition fresh_flow :: flow_obj where
  "fresh_flow = \<lparr>fo_state = Egg, fo_decision = no_decision, fo_mods = [], fo_installer = None\<rparr>"

text \<open>
  The application: the tree, the flows by their cookies, and the next cookie. The cookies come from
  one counter for all flows, which starts at \<open>first_cookie\<close>; the flow of the table miss takes one too.
\<close>

record maple =
  mp_tree :: trace_tree
  mp_flows :: "(nat \<times> flow_obj) list"
  mp_next :: nat

definition first_cookie :: nat where
  "first_cookie = 2 ^ 63"

definition maple_init :: "nat \<Rightarrow> maple" where
  "maple_init cookie = \<lparr>mp_tree = tree_init 1 65535, mp_flows = [], mp_next = cookie\<rparr>"

definition find_obj :: "nat \<Rightarrow> maple \<Rightarrow> flow_obj option" where
  "find_obj fl m = map_of (mp_flows m) fl"

definition set_obj :: "nat \<Rightarrow> flow_obj \<Rightarrow> maple \<Rightarrow> maple" where
  "set_obj fl fo m = m\<lparr>mp_flows := put fl fo (mp_flows m)\<rparr>"

text \<open>The weak pointers of the tree are alive as long as the flow is in the map.\<close>

definition live :: "maple \<Rightarrow> nat \<Rightarrow> bool" where
  "live m fl = (find_obj fl m \<noteq> None)"

definition emit_calls :: "maple_call list \<Rightarrow> maple \<Rightarrow> maple" where
  "emit_calls cs m = m\<lparr>mp_tree := (mp_tree m)\<lparr>tr_calls := tr_calls (mp_tree m) @ cs\<rparr>\<rparr>"

text \<open>
  \<open>FlowImpl::activate\<close> runs the installer. Installing an undefined decision throws at the first
  switch, after the first barrier.
\<close>

definition activate :: "nat \<Rightarrow> maple \<Rightarrow> maple \<times> unit res" where
  "activate fl m = (case find_obj fl m of
     None \<Rightarrow> (m, Inl Nullptr_dereference)
   | Some fo \<Rightarrow> (case fo_installer fo of
       None \<Rightarrow> (m, Inl Runtime_error)
     | Some (xs, mt) \<Rightarrow>
         (if d_data (fo_decision fo) = Undefined then (emit_calls [M_barrier] m, Inl Runtime_error)
          else (set_obj fl (fo\<lparr>fo_state := if disposable (fo_decision fo) then Evicted else Active\<rparr>)
                  (emit_calls (ti_installer (live m) (m_at xs (tr_root (mp_tree m))) mt) m), Inr ()))))"

text \<open>
  \<open>Runtime::augment\<close> with the steps that follow it in \<open>processPacketIn\<close>. After an exception the flow
  keeps its old decision here; the code has assigned the new one when \<open>finish\<close> itself throws, but
  then no node holds the flow.
\<close>

definition augment_flow :: "miss_handler list \<Rightarrow> ('p \<Rightarrow> oxm_mask \<Rightarrow> oxm_field) \<Rightarrow> ('p \<Rightarrow> oxm_field \<Rightarrow> 'p) \<Rightarrow>
  'p \<Rightarrow> nat \<Rightarrow> flow_obj \<Rightarrow> maple \<Rightarrow> maple \<times> unit res" where
  "augment_flow hs ld md p fl fo m =
     (case m_run (process hs fl) ld md (run_init p) of (d, r) \<Rightarrow>
        let xs = tp_trace (r_traced r); t = mp_tree m in
        case m_augment xs (rbind d (\<lambda>_. Inr fl)) (tr_root t) (tracer_init (tr_left t) (tr_right t) (tr_next_id t)) of (n, s, res) \<Rightarrow>
          let m1 = m\<lparr>mp_tree := t\<lparr>tr_root := n, tr_next_id := ti_next_id s, tr_calls := tr_calls t @ ti_calls s\<rparr>\<rparr> in
          case rbind res (\<lambda>_. d) of
            Inl e \<Rightarrow> (m1, Inl e)
          | Inr dec \<Rightarrow> activate fl (set_obj fl (fo\<lparr>fo_decision := dec, fo_mods := r_mods r, fo_installer := Some (xs, ti_match s)\<rparr>) m1))"

text \<open>
  \<open>processPacketIn\<close>. \<open>miss\<close> says whether the packet missed the table; \<open>insp\<close> is what the handlers of
  inspect decisions answer.
\<close>

definition flow_for :: "('p \<Rightarrow> oxm_mask \<Rightarrow> oxm_field) \<Rightarrow> ('p \<Rightarrow> oxm_field \<Rightarrow> bool) \<Rightarrow> 'p \<Rightarrow> maple \<Rightarrow> nat \<times> maple" where
  "flow_for ld tst p m = (let new = (mp_next m, (set_obj (mp_next m) fresh_flow m)\<lparr>mp_next := mp_next m + 1\<rparr>) in
     case m_lookup ld tst (live m) p (tr_root (mp_tree m)) of
       None \<Rightarrow> new
     | Some fl \<Rightarrow> (case find_obj fl m of None \<Rightarrow> new | Some fo \<Rightarrow> if fo_state fo = Expired then new else (fl, m)))"

definition preprocess :: "(nat \<Rightarrow> 'p \<Rightarrow> bool) \<Rightarrow> 'p \<Rightarrow> flow_obj \<Rightarrow> bool" where
  "preprocess insp p fo = (case d_data (fo_decision fo) of Inspect n h \<Rightarrow> insp h p | _ \<Rightarrow> False)"

definition packet_in_maple :: "miss_handler list \<Rightarrow> (nat \<Rightarrow> 'p \<Rightarrow> bool) \<Rightarrow> ('p \<Rightarrow> oxm_mask \<Rightarrow> oxm_field) \<Rightarrow> ('p \<Rightarrow> oxm_field \<Rightarrow> bool) \<Rightarrow>
  ('p \<Rightarrow> oxm_field \<Rightarrow> 'p) \<Rightarrow> bool \<Rightarrow> 'p \<Rightarrow> maple \<Rightarrow> maple \<times> unit res" where
  "packet_in_maple hs insp ld tst md miss p m = (case flow_for ld tst p m of (fl, m1) \<Rightarrow>
     case find_obj fl m1 of
       None \<Rightarrow> (m1, Inl Nullptr_dereference)
     | Some fo \<Rightarrow>
         (if preprocess insp p fo then (m1, Inr ())
          else case fo_state fo of
            Expired \<Rightarrow> (m1, Inl Assertion_failure)
          | Active \<Rightarrow>
              (if miss then activate fl m1
               else case m_plain (process hs fl) ld tst md p [] of (d, _, _) \<Rightarrow>
                 (case d of Inl e \<Rightarrow> (m1, Inl e) | Inr dec \<Rightarrow> (set_obj fl (fo\<lparr>fo_decision := dec\<rparr>) m1, Inr ())))
          | _ \<Rightarrow> augment_flow hs ld md p fl fo m1))"

text \<open>\<open>processFlowRemoved\<close>: only an expired flow is forgotten.\<close>

datatype removed_reason = Removed_by_delete | Removed_idle | Removed_hard

definition flow_removed_maple :: "removed_reason \<Rightarrow> nat \<Rightarrow> maple \<Rightarrow> maple" where
  "flow_removed_maple why fl m = (case find_obj fl m of
     None \<Rightarrow> m
   | Some fo \<Rightarrow> (case why of
       Removed_by_delete \<Rightarrow> set_obj fl (fo\<lparr>fo_state := Evicted\<rparr>) m
     | Removed_idle \<Rightarrow> set_obj fl (fo\<lparr>fo_state := Idle\<rparr>) m
     | Removed_hard \<Rightarrow> m\<lparr>mp_flows := remove_key fl (mp_flows m)\<rparr>))"

section \<open>The table of the switches\<close>

text \<open>
  \<open>MapleBackend::install\<close> reaches \<open>FlowImpl::install\<close>, which sends_flow a flow entry only for a decision
  that is meant to last.
\<close>

definition lasting :: "decision \<Rightarrow> bool" where
  "lasting d = (d_data d \<noteq> Undefined \<and> \<not> disposable d)"

definition sends_flow :: "maple \<Rightarrow> nat \<Rightarrow> bool" where
  "sends_flow m fl = (case find_obj fl m of None \<Rightarrow> False | Some fo \<Rightarrow> lasting (fo_decision fo))"

text \<open>A flow is on the switches while it is active.\<close>

definition installed :: "maple \<Rightarrow> nat \<Rightarrow> bool" where
  "installed m fl = (case find_obj fl m of None \<Rightarrow> False | Some fo \<Rightarrow> fo_state fo = Active)"

definition call_effect :: "(nat \<Rightarrow> bool) \<Rightarrow> maple_call \<Rightarrow> m_table \<Rightarrow> m_table" where
  "call_effect lasts c tbl = (case c of
     M_install prio mt fl \<Rightarrow> if lasts fl then table_call c tbl else tbl
   | _ \<Rightarrow> table_call c tbl)"

definition table_after :: "maple \<Rightarrow> maple \<Rightarrow> m_table \<Rightarrow> m_table" where
  "table_after m m' tbl = fold (call_effect (sends_flow m')) (drop (length (tr_calls (mp_tree m))) (tr_calls (mp_tree m'))) tbl"

end
