(* ===== verification/Maple_Flows.thy ===== *)
theory Maple_Flows
  imports Maple_Runtime
begin

text \<open>
  Which flows the tree of Maple holds, and where: a flow has one leaf, the one its trace leads to.
\<close>

section \<open>Flows of a tree\<close>

fun m_flows :: "mnode \<Rightarrow> nat set" and m_flows_cases :: "(bits \<times> mnode) list \<Rightarrow> nat set" where
  "m_flows M_unexplored = {}"
| "m_flows (M_flow fl prio) = {fl}"
| "m_flows (M_test f pos neg nid prio) = m_flows pos \<union> m_flows neg"
| "m_flows (M_load m cases) = m_flows_cases cases"
| "m_flows_cases [] = {}"
| "m_flows_cases ((b, n) # cs) = m_flows n \<union> m_flows_cases cs"

lemma lookup_flows:
  "m_lookup ld tst alive p n = Some fl \<Longrightarrow> fl \<in> m_flows n"
  "m_lookup_cases ld tst alive p m cs = Some fl \<Longrightarrow> fl \<in> m_flows_cases cs"
  by (induction ld tst alive p n and ld tst alive p m cs rule: m_lookup_m_lookup_cases.induct) (auto split: if_splits)

lemma lookup_narrow:
  "(\<And>fl. a fl \<Longrightarrow> b fl) \<Longrightarrow> m_lookup ld tst a p n = (case m_lookup ld tst b p n of None \<Rightarrow> None | Some fl \<Rightarrow> if a fl then Some fl else None)"
  "(\<And>fl. a fl \<Longrightarrow> b fl) \<Longrightarrow> m_lookup_cases ld tst a p m cs =
    (case m_lookup_cases ld tst b p m cs of None \<Rightarrow> None | Some fl \<Rightarrow> if a fl then Some fl else None)"
  by (induction ld tst a p n and ld tst a p m cs rule: m_lookup_m_lookup_cases.induct) (auto split: if_splits)

lemma lookup_cong:
  "(\<And>fl. fl \<in> m_flows n \<Longrightarrow> a fl = b fl) \<Longrightarrow> m_lookup ld tst a p n = m_lookup ld tst b p n"
  "(\<And>fl. fl \<in> m_flows_cases cs \<Longrightarrow> a fl = b fl) \<Longrightarrow> m_lookup_cases ld tst a p m cs = m_lookup_cases ld tst b p m cs"
  by (induction ld tst a p n and ld tst a p m cs rule: m_lookup_m_lookup_cases.induct) auto

lemma rules_cong:
  "(\<And>fl. fl \<in> m_flows n \<Longrightarrow> a fl = b fl) \<Longrightarrow> m_rules a path n = m_rules b path n"
  "(\<And>fl. fl \<in> m_flows_cases cs \<Longrightarrow> a fl = b fl) \<Longrightarrow> m_rules_cases a path m cs = m_rules_cases b path m cs"
  by (induction a path n and a path m cs rule: m_rules_m_rules_cases.induct) auto

lemma flows_put: "m_flows_cases (put b n cs) \<subseteq> m_flows n \<union> m_flows_cases cs"
  by (induction cs) auto

lemma flows_find: "m_flows (case m_find_case b cs of None \<Rightarrow> M_unexplored | Some n \<Rightarrow> n) \<subseteq> m_flows_cases cs"
  by (induction cs) (auto split: if_splits option.splits)

text \<open>The three ways a step goes down the tree.\<close>

lemma ti_step_cases:
  assumes "ti_step x cur s = Inr (rebuild, cur', s')"
  obtains f m cases where "x = Load_obs f" "rebuild = (\<lambda>n. M_load m (put (f_value f) n cases))"
      "cur' = (case m_find_case (f_value f) cases of None \<Rightarrow> M_unexplored | Some n \<Rightarrow> n)"
      "cur = M_load m cases \<or> cur = M_unexplored \<and> cases = []" "ti_calls s' = ti_calls s"
  | f r need pos neg nid prio where "x = Test_obs f r" "rebuild = (\<lambda>n. if r then M_test need n neg nid prio else M_test need pos n nid prio)"
      "cur' = (if r then pos else neg)"
      "cur = M_test need pos neg nid prio \<and> ti_calls s' = ti_calls s \<or>
       cur = M_unexplored \<and> pos = M_unexplored \<and> neg = M_unexplored \<and> (\<exists>mt. ti_calls s' = ti_calls s @ [M_barrier_rule prio mt need nid])"
proof (cases x)
  case (Load_obs f)
  show thesis
  proof (cases cur)
    case M_unexplored
    show thesis by (rule that(1) [of f "mask_of f" "[]"]) (use assms Load_obs M_unexplored in \<open>auto simp: ti_step_def ti_load_def Let_def\<close>)
  next
    case (M_load m cases)
    show thesis by (rule that(1) [of f m cases])
        (use assms Load_obs M_load in \<open>auto simp: ti_step_def ti_load_def Let_def split: if_splits\<close>)
  qed (use assms Load_obs in \<open>simp_all add: ti_step_def ti_load_def\<close>)
next
  case (Test_obs f r)
  show thesis
  proof (cases cur)
    case M_unexplored
    obtain prio where p: "ti_middle s = Inr prio" using assms Test_obs M_unexplored by (cases "ti_middle s") (auto simp: ti_step_def ti_test_def)
    show thesis by (rule that(2) [where f = f and r = r and need = f and pos = M_unexplored and neg = M_unexplored and nid = "ti_next_id s" and prio = prio])
        (use assms Test_obs M_unexplored p in \<open>auto simp: ti_step_def ti_test_def ti_after_test_def Let_def split: if_splits\<close>)
  next
    case (M_test need pos neg nid prio)
    show thesis by (rule that(2) [where f = f and r = r and need = need and pos = pos and neg = neg and nid = nid and prio = prio])
        (use assms Test_obs M_test in \<open>auto simp: ti_step_def ti_test_def ti_after_test_def split: if_splits\<close>)
  qed (use assms Test_obs in \<open>simp_all add: ti_step_def ti_test_def\<close>)
qed

lemma step_flows:
  assumes "ti_step x cur s = Inr (rebuild, cur', s')"
  shows "m_flows cur' \<subseteq> m_flows cur" "m_flows (rebuild n) \<subseteq> m_flows n \<union> m_flows cur"
proof -
  have "m_flows cur' \<subseteq> m_flows cur \<and> m_flows (rebuild n) \<subseteq> m_flows n \<union> m_flows cur"
    using assms
  proof (cases rule: ti_step_cases)
    case (1 f m cases)
    then show ?thesis using flows_put [of "f_value f" n cases] flows_find [of "f_value f" cases] by auto
  qed (auto split: if_splits)
  then show "m_flows cur' \<subseteq> m_flows cur" "m_flows (rebuild n) \<subseteq> m_flows n \<union> m_flows cur" by blast+
qed

lemma augment_flows:
  "m_augment xs fin cur s = (n, s', res) \<Longrightarrow> m_flows n \<subseteq> m_flows cur \<union> {fl. fin = Inr fl \<and> (\<exists>leaf. res = Inr leaf)}"
proof (induction xs arbitrary: cur s n)
  case Nil
  then show ?case by (cases cur) (auto simp: ti_finish_def rbind_eq_Inr split: sum.splits)
next
  case (Cons x xs)
  show ?case
  proof (cases "ti_step x cur s")
    case (Inr y)
    obtain rebuild cur' s1 where y: "ti_step x cur s = Inr (rebuild, cur', s1)" using Inr by (cases y) auto
    obtain n1 where n1: "m_augment xs fin cur' s1 = (n1, s', res)" "n = rebuild n1"
      using Cons.prems y by (auto split: prod.splits)
    show ?thesis using Cons.IH [OF n1(1)] step_flows(1) [OF y] step_flows(2) [OF y, of n1] n1(2) by blast
  qed (use Cons.prems in auto)
qed

section \<open>The leaf of a trace\<close>

lemma step_at_rebuild: "ti_step x cur s = Inr (rebuild, cur', s') \<Longrightarrow> m_at (x # xs) (rebuild n) = m_at xs n"
  by (erule ti_step_cases) (auto simp: find_case_put)

lemma augment_leaf:
  "m_augment xs fin cur s = (n, s', Inr leaf) \<Longrightarrow> m_at xs n = leaf \<and> (\<exists>fl prio. fin = Inr fl \<and> leaf = M_flow fl prio)"
proof (induction xs arbitrary: cur s n)
  case Nil
  then show ?case by (cases cur) (auto simp: ti_finish_def rbind_eq_Inr split: sum.splits)
next
  case (Cons x xs)
  then obtain rebuild cur' s1 n1 where y: "ti_step x cur s = Inr (rebuild, cur', s1)" "m_augment xs fin cur' s1 = (n1, s', Inr leaf)" "n = rebuild n1"
    by (auto split: sum.splits prod.splits)
  show ?case using Cons.IH [OF y(2)] step_at_rebuild [OF y(1)] y(3) by simp
qed

lemma augment_at:
  assumes "coherent T" "ti_at T seen path cur s" "good_trace T seen xs" "m_augment xs fin cur s = (n, s', Inr leaf)"
    "list_all (answers ld tst p) xs"
  shows "m_lookup ld tst alive p cur = m_lookup ld tst alive p (m_at xs cur)"
  using assms(2-)
proof (induction xs arbitrary: seen path cur s n)
  case (Cons x xs)
  then obtain rebuild cur' s1 n1 where y: "ti_step x cur s = Inr (rebuild, cur', s1)" "m_augment xs fin cur' s1 = (n1, s', Inr leaf)"
    by (auto split: sum.splits prod.splits)
  have "steps_on alive T seen path cur s xs rebuild cur' s1"
    using y(1) steps_on_load [OF assms(1) Cons.prems(1)] steps_on_test [OF assms(1) Cons.prems(1)] Cons.prems(2)
    by (cases x) (auto simp: ti_step_def)
  then obtain seen' path' where "ti_at T seen' path' cur' s1" "good_trace T seen' xs" unfolding steps_on_def by blast
  from Cons.IH [OF this y(2)] Cons.prems(4) ti_step_lookup(2) [OF assms(1) Cons.prems(1,2) y(1), of ld tst p alive] ti_step_at [OF y(1)]
  show ?case by simp
qed simp

lemma augment_barriers:
  "m_augment xs fin cur s = (n, s', res) \<Longrightarrow> \<exists>cs. ti_calls s' = ti_calls s @ cs \<and> (\<forall>c \<in> set cs. \<exists>prio mt f nid. c = M_barrier_rule prio mt f nid)"
proof (induction xs arbitrary: cur s n)
  case Nil
  then show ?case by (auto split: sum.splits)
next
  case (Cons x xs)
  show ?case
  proof (cases "ti_step x cur s")
    case (Inr y)
    obtain rebuild cur' s1 where y: "ti_step x cur s = Inr (rebuild, cur', s1)" using Inr by (cases y) auto
    obtain n1 where n1: "m_augment xs fin cur' s1 = (n1, s', res)" "n = rebuild n1"
      using Cons.prems y by (auto split: prod.splits)
    have "\<exists>cs. ti_calls s1 = ti_calls s @ cs \<and> (\<forall>c \<in> set cs. \<exists>prio mt f nid. c = M_barrier_rule prio mt f nid)"
      using y by (cases rule: ti_step_cases) auto
    with Cons.IH [OF n1(1)] show ?thesis by fastforce
  qed (use Cons.prems in auto)
qed

lemma augment_ends:
  "m_augment xs fin cur s = (n, s', Inr leaf) \<Longrightarrow> m_at xs cur = M_unexplored \<or> (\<exists>g k. m_at xs cur = M_flow g k)"
proof (induction xs arbitrary: cur s n)
  case Nil
  then show ?case by (cases cur) (auto simp: ti_finish_def rbind_eq_Inr split: sum.splits)
next
  case (Cons x xs)
  then obtain rebuild cur' s1 n1 where y: "ti_step x cur s = Inr (rebuild, cur', s1)" "m_augment xs fin cur' s1 = (n1, s', Inr leaf)"
    by (auto split: sum.splits prod.splits)
  show ?case using Cons.IH [OF y(2)] ti_step_at [OF y(1)] by simp
qed

section \<open>Every flow has one leaf\<close>

fun m_apart :: "mnode \<Rightarrow> bool" and m_apart_cases :: "(bits \<times> mnode) list \<Rightarrow> bool" where
  "m_apart M_unexplored = True"
| "m_apart (M_flow fl prio) = True"
| "m_apart (M_test f pos neg nid prio) = (m_apart pos \<and> m_apart neg \<and> m_flows pos \<inter> m_flows neg = {})"
| "m_apart (M_load m cases) = m_apart_cases cases"
| "m_apart_cases [] = True"
| "m_apart_cases ((b, n) # cs) = (m_apart n \<and> m_apart_cases cs \<and> m_flows n \<inter> m_flows_cases cs = {})"

abbreviation found_case :: "bits \<Rightarrow> (bits \<times> mnode) list \<Rightarrow> mnode" where
  "found_case b cs \<equiv> (case m_find_case b cs of None \<Rightarrow> M_unexplored | Some n \<Rightarrow> n)"

lemma grown_apart: "A \<subseteq> B \<union> D \<Longrightarrow> D \<inter> (B \<union> C) \<subseteq> B \<Longrightarrow> B \<inter> C = {} \<Longrightarrow> A \<inter> C = {}"
  by blast

lemma apart_found: "m_apart_cases cs \<Longrightarrow> m_apart (found_case b cs)"
  by (induction cs) auto

lemma apart_put:
  assumes "m_apart_cases cs" "m_apart n" "m_flows n \<subseteq> m_flows (found_case b cs) \<union> D" "D \<inter> m_flows_cases cs \<subseteq> m_flows (found_case b cs)"
  shows "m_apart_cases (put b n cs)"
  using assms
proof (induction cs)
  case (Cons c cs)
  obtain d k where c: "c = (d, k)" by (cases c)
  show ?case
  proof (cases "d = b")
    case True
    then show ?thesis using Cons.prems c by auto
  next
    case False
    have "m_apart_cases (put b n cs)" using Cons c False by auto
    moreover have "m_flows n \<inter> m_flows k = {}"
      by (rule grown_apart [OF Cons.prems(3)]) (use flows_find [of b cs] Cons.prems c False in auto)
    then have "m_flows k \<inter> m_flows_cases (put b n cs) = {}"
      using flows_put [of b n cs] Cons.prems(1) c by auto
    ultimately show ?thesis using Cons.prems c False by auto
  qed
qed simp

lemma flows_at: "m_at xs n = M_flow fl k \<Longrightarrow> fl \<in> m_flows n"
proof (induction xs arbitrary: n)
  case (Cons x xs)
  then show ?case
  proof (cases n)
    case (M_load m cases)
    with Cons obtain f where "x = Load_obs f" "m_at xs (found_case (f_value f) cases) = M_flow fl k" by (cases x) auto
    with Cons.IH flows_find [of "f_value f" cases] M_load show ?thesis by auto
  qed (use Cons in \<open>auto split: obs.splits if_splits\<close>)
qed simp

text \<open>A trace puts its flow at one leaf, if the flow was nowhere or at this leaf before.\<close>

lemma augment_apart:
  assumes "m_apart cur" "m_augment xs fin cur s = (n, s', res)"
    and "\<And>leaf fl. res = Inr leaf \<Longrightarrow> fin = Inr fl \<Longrightarrow> fl \<in> m_flows cur \<Longrightarrow> \<exists>k. m_at xs cur = M_flow fl k"
  shows "m_apart n"
  using assms
proof (induction xs arbitrary: cur s n)
  case Nil
  then show ?case by (cases cur) (auto simp: ti_finish_def rbind_eq_Inr split: sum.splits)
next
  case (Cons x xs)
  show ?case
  proof (cases "ti_step x cur s")
    case (Inr y)
    obtain rebuild cur' s1 where y: "ti_step x cur s = Inr (rebuild, cur', s1)" using Inr by (cases y) auto
    obtain n1 where n1: "m_augment xs fin cur' s1 = (n1, s', res)" "n = rebuild n1"
      using Cons.prems y by (auto split: prod.splits)
    define D where "D = {fl. fin = Inr fl \<and> (\<exists>leaf. res = Inr leaf)}"
    have f: "m_flows n1 \<subseteq> m_flows cur' \<union> D" using augment_flows [OF n1(1)] by (auto simp: D_def)
    have at: "\<exists>k. m_at xs cur' = M_flow fl k" if "fl \<in> D" "fl \<in> m_flows cur" for fl
      using Cons.prems(3) that ti_step_at [OF y] by (auto simp: D_def)
    then have d: "D \<inter> m_flows cur \<subseteq> m_flows cur'" using flows_at by blast
    have sub: "m_flows cur' \<subseteq> m_flows cur" by (rule step_flows(1) [OF y])
    have "m_apart n1 \<and> m_apart n"
      using y
    proof (cases rule: ti_step_cases)
      case (1 f m cases)
      have a: "m_apart cur'" using 1 Cons.prems(1) apart_found [of cases "f_value f"] by auto
      have "m_apart n1" by (rule Cons.IH [OF a n1(1)]) (use at sub in \<open>auto simp: D_def\<close>)
      then show ?thesis using apart_put [of cases n1 "f_value f" D] 1 Cons.prems(1) f d n1(2) by auto
    next
      case (2 f r need pos neg nid prio)
      have a: "m_apart cur'" using 2 Cons.prems(1) by auto
      have "m_apart n1" by (rule Cons.IH [OF a n1(1)]) (use at sub in \<open>auto simp: D_def\<close>)
      moreover have "m_flows n1 \<inter> m_flows (if r then neg else pos) = {}"
        by (rule grown_apart [OF f]) (use 2 Cons.prems(1) d in \<open>auto split: if_splits\<close>)
      ultimately show ?thesis using 2 Cons.prems(1) n1(2) by (auto split: if_splits)
    qed
    then show ?thesis ..
  qed (use Cons.prems in auto)
qed

text \<open>A flow under another cookie: a leaf that is overwritten may have had any flow.\<close>

fun rename_flow :: "nat \<Rightarrow> nat \<Rightarrow> mnode \<Rightarrow> mnode" and rename_cases :: "nat \<Rightarrow> nat \<Rightarrow> (bits \<times> mnode) list \<Rightarrow> (bits \<times> mnode) list" where
  "rename_flow a b M_unexplored = M_unexplored"
| "rename_flow a b (M_flow fl prio) = M_flow (if fl = a then b else fl) prio"
| "rename_flow a b (M_test f pos neg nid prio) = M_test f (rename_flow a b pos) (rename_flow a b neg) nid prio"
| "rename_flow a b (M_load m cases) = M_load m (rename_cases a b cases)"
| "rename_cases a b [] = []"
| "rename_cases a b ((v, n) # cs) = (v, rename_flow a b n) # rename_cases a b cs"

lemma rename_keys [simp]: "fst ` set (rename_cases a b cs) = fst ` set cs"
proof (induction cs)
  case (Cons c cs)
  then show ?case by (cases c) simp
qed simp

lemma rename_ok:
  "m_ok T l r seen (rename_flow a b n) = m_ok T l r seen n"
  "m_ok_cases T l r seen m (rename_cases a b cs) = m_ok_cases T l r seen m cs"
  by (induction T l r seen n and T l r seen m cs rule: m_ok_m_ok_cases.induct) auto

lemma rename_rules:
  "\<not> alive b \<Longrightarrow> m_rules alive path (rename_flow a b n) = m_rules (\<lambda>g. g \<noteq> a \<and> alive g) path n"
  "\<not> alive b \<Longrightarrow> m_rules_cases alive path m (rename_cases a b cs) = m_rules_cases (\<lambda>g. g \<noteq> a \<and> alive g) path m cs"
  by (induction alive path n and alive path m cs rule: m_rules_m_rules_cases.induct) auto

lemma rename_id:
  "a \<notin> m_flows n \<Longrightarrow> rename_flow a b n = n"
  "a \<notin> m_flows_cases cs \<Longrightarrow> rename_cases a b cs = cs"
  by (induction n and cs rule: m_flows_m_flows_cases.induct) auto

lemma rename_found: "found_case v (rename_cases a b cs) = rename_flow a b (found_case v cs)"
  by (induction cs) auto

lemma rename_at: "m_at xs (rename_flow a b n) = rename_flow a b (m_at xs n)"
proof (induction xs arbitrary: n)
  case (Cons x xs)
  then show ?case by (cases n; cases x) (auto simp: rename_found)
qed simp

lemma rename_put:
  assumes "m_apart_cases cs" "a \<in> m_flows (found_case v cs)"
  shows "put v n (rename_cases a b cs) = put v n cs"
  using assms
proof (induction cs)
  case (Cons c cs)
  obtain d k where c: "c = (d, k)" by (cases c)
  show ?case
  proof (cases "d = v")
    case True
    then show ?thesis using Cons.prems c rename_id(2) [of a cs b] by auto
  next
    case False
    then have a: "a \<in> m_flows (found_case v cs)" using Cons.prems c by simp
    with flows_find [of v cs] have "a \<notin> m_flows k" using Cons.prems(1) c by auto
    then show ?thesis using Cons.IH a Cons.prems(1) c False rename_id(1) [of a k b] by simp
  qed
qed simp

lemma augment_renamed:
  assumes "m_apart cur" "m_augment xs (Inr a) cur s = (n, s', Inr leaf)" "a \<in> m_flows cur \<Longrightarrow> \<exists>k. m_at xs cur = M_flow a k"
  shows "m_augment xs (Inr a) (rename_flow a b cur) s = (n, s', Inr leaf)"
proof (cases "a \<in> m_flows cur")
  case False
  then show ?thesis using assms(2) by (simp add: rename_id)
next
  case True
  then obtain k where "m_at xs cur = M_flow a k" using assms(3) by blast
  with assms(1,2) show ?thesis
  proof (induction xs arbitrary: cur s n)
    case Nil
    then have cur: "cur = M_flow a k" by simp
    from Nil show ?case unfolding cur by (auto simp: ti_finish_def)
  next
    case (Cons x xs)
    obtain rebuild cur' s1 n1 where y: "ti_step x cur s = Inr (rebuild, cur', s1)" "m_augment xs (Inr a) cur' s1 = (n1, s', Inr leaf)" "n = rebuild n1"
      using Cons.prems by (auto split: sum.splits prod.splits)
    have at: "m_at xs cur' = M_flow a k" using ti_step_at [OF y(1)] Cons.prems(3) by simp
    have a: "a \<in> m_flows cur'" by (rule flows_at [OF at])
    have "m_apart cur' \<and> (\<exists>re. ti_step x (rename_flow a b cur) s = Inr (re, rename_flow a b cur', s1) \<and> re n1 = rebuild n1)"
    proof (cases cur)
      case (M_load m cases)
      then obtain f where x: "x = Load_obs f" using Cons.prems(3) by (cases x) auto
      then have "cur' = found_case (f_value f) cases" "rebuild = (\<lambda>n. M_load m (put (f_value f) n cases))" "mask_eq m (mask_of f)"
        "s1 = s\<lparr>ti_match := ffs_add (ti_match s) f\<rparr>"
        using y(1) M_load by (auto simp: ti_step_def ti_load_def Let_def split: if_splits)
      then show ?thesis using x M_load Cons.prems(1) apart_found [of cases "f_value f"] rename_put [of cases a "f_value f" n1 b] a
        by (simp add: ti_step_def ti_load_def Let_def rename_found)
    next
      case (M_test need pos neg nid prio)
      then obtain f r where x: "x = Test_obs f r" using Cons.prems(3) by (cases x) auto
      then have "cur' = (if r then pos else neg)" "rebuild = (\<lambda>n. if r then M_test need n neg nid prio else M_test need pos n nid prio)"
        "field_eq need f" "s1 = ti_after_test f r prio s"
        using y(1) M_test by (auto simp: ti_step_def ti_test_def split: if_splits)
      moreover from this have "rename_flow a b (if r then neg else pos) = (if r then neg else pos)"
        using M_test Cons.prems(1) a by (intro rename_id(1)) (auto split: if_splits)
      ultimately show ?thesis using x M_test Cons.prems(1)
        by (auto simp: ti_step_def ti_test_def)
    qed (use Cons.prems(3) in simp_all)
    then obtain re where re: "m_apart cur'" "ti_step x (rename_flow a b cur) s = Inr (re, rename_flow a b cur', s1)" "re n1 = rebuild n1" by blast
    show ?case using Cons.IH [OF re(1) y(2) at] re y(3) by simp
  qed
qed

end
