(* ===== verification/Maple_System.thy ===== *)
theory Maple_System
  imports Maple_Flows
begin

text \<open>
  The controller together with the table of the switches: in every state that packets and removed
  flows lead to, each packet is forwarded by the flow whose decision the handlers make for it, or
  it goes to the controller.
\<close>

section \<open>The invariant\<close>

definition whole_handlers :: "miss_handler list \<Rightarrow> bool" where
  "whole_handlers hs = (\<forall>h \<in> set hs. \<forall>fl d. m_whole (set known_types) (h fl d))"

text \<open>The flow that is looked up for a packet has the decision and the rewrites the handlers make for it.\<close>

definition decided :: "miss_handler list \<Rightarrow> maple \<Rightarrow> nat \<Rightarrow> field_set \<Rightarrow> bool" where
  "decided hs m fl q = (\<exists>fo. find_obj fl m = Some fo \<and> outcome (process hs fl) q = (Inr (fo_decision fo), fo_mods fo))"

definition objects_ok :: "maple \<Rightarrow> bool" where
  "objects_ok m = (m_apart (tr_root (mp_tree m)) \<and> (\<forall>fl \<in> m_flows (tr_root (mp_tree m)). fl < mp_next m) \<and>
     (\<forall>fl fo. find_obj fl m = Some fo \<longrightarrow> fl < mp_next m \<and> fo_state fo \<noteq> Expired))"

definition maple_ok :: "miss_handler list \<Rightarrow> maple \<Rightarrow> m_table \<Rightarrow> bool" where
  "maple_ok hs m tbl = (tree_ok (installed m) (set known_types) (mp_tree m) tbl \<and> objects_ok m \<and>
     (\<forall>q fl. full_fs (set known_types) q \<and> m_lookup fs_load fs_test (live m) q (tr_root (mp_tree m)) = Some fl \<longrightarrow> decided hs m fl q))"

lemma find_set_obj [simp]: "find_obj g (set_obj fl fo m) = (if g = fl then Some fo else find_obj g m)"
  by (simp add: find_obj_def set_obj_def)

lemma obj_simps [simp]:
  "mp_tree (set_obj fl fo m) = mp_tree m" "mp_next (set_obj fl fo m) = mp_next m"
  "find_obj g (m\<lparr>mp_tree := t\<rparr>) = find_obj g m" "find_obj g (emit_calls cs m) = find_obj g m"
  "mp_next (emit_calls cs m) = mp_next m" "mp_tree (emit_calls cs m) = (mp_tree m)\<lparr>tr_calls := tr_calls (mp_tree m) @ cs\<rparr>"
  "find_obj g (m\<lparr>mp_next := k\<rparr>) = find_obj g m"
  "find_obj g (m\<lparr>mp_flows := remove_key fl (mp_flows m)\<rparr>) = (if g = fl then None else find_obj g m)"
  by (simp_all add: find_obj_def set_obj_def emit_calls_def)

lemma installed_live: "installed m fl \<Longrightarrow> live m fl"
  by (simp add: installed_def live_def split: option.splits)

lemma effect_barriers:
  "\<forall>c \<in> set cs. \<exists>prio mt f nid. c = M_barrier_rule prio mt f nid \<Longrightarrow> fold (call_effect a) cs tbl = fold table_call cs tbl"
  by (induction cs arbitrary: tbl) (auto simp: call_effect_def)

lemma tree_ok_grows:
  assumes "tree_ok a T t tbl" "grows a T (tr_left t) (tr_right t) {} [] (tr_root t) cs n"
    and "tr_root t' = n" "tr_left t' = tr_left t" "tr_right t' = tr_right t"
  shows "tree_ok a T t' (fold table_call cs tbl)"
proof -
  have "map_of (fold table_call cs tbl) = as_map (m_rules a [] n)"
    using assms(1,2) table_calls [of cs tbl] unfolding grows_def tree_ok_def by metis
  moreover have "distinct (map fst (fold table_call cs tbl))" using assms(1) by (intro table_distinct) (simp add: tree_ok_def)
  ultimately show ?thesis using assms unfolding tree_ok_def grows_def by simp
qed

text \<open>What a run of the handlers adds to the tree.\<close>

definition tracer_for :: "maple \<Rightarrow> tracer_impl" where
  "tracer_for m = tracer_init (tr_left (mp_tree m)) (tr_right (mp_tree m)) (tr_next_id (mp_tree m))"

lemma recorded:
  assumes ok: "maple_ok hs m tbl" and live: "live m fl"
    and g: "good_trace (set known_types) {} xs" and n: "m_augment xs (rbind d (\<lambda>_. Inr fl)) (tr_root (mp_tree m)) (tracer_for m) = (n, s, re)"
  shows "ti_at (set known_types) {} [] (tr_root (mp_tree m)) (tracer_for m)"
    and "m_lookup fs_load fs_test (live m) q n = (case re of Inr leaf \<Rightarrow>
        (if list_all (answers fs_load fs_test q) xs then Some fl else m_lookup fs_load fs_test (live m) q (tr_root (mp_tree m)))
      | Inl e \<Rightarrow> m_lookup fs_load fs_test (live m) q (tr_root (mp_tree m)))"
    and "\<forall>c \<in> set (ti_calls s). \<exists>prio mt f nid. c = M_barrier_rule prio mt f nid"
    and "m_flows n \<subseteq> m_flows (tr_root (mp_tree m)) \<union> {fl}"
proof -
  show at: "ti_at (set known_types) {} [] (tr_root (mp_tree m)) (tracer_for m)"
    using ok by (simp add: maple_ok_def tree_ok_def ti_at_def tracer_for_def tracer_init_def on_path_empty)
  have fin: "rbind d (\<lambda>_. Inr fl) = Inr g \<Longrightarrow> g = fl" for g by (cases d) auto
  show "m_lookup fs_load fs_test (live m) q n = (case re of Inr leaf \<Rightarrow>
        (if list_all (answers fs_load fs_test q) xs then Some fl else m_lookup fs_load fs_test (live m) q (tr_root (mp_tree m)))
      | Inl e \<Rightarrow> m_lookup fs_load fs_test (live m) q (tr_root (mp_tree m)))"
  proof (cases re)
    case (Inr leaf)
    then obtain g where "rbind d (\<lambda>_. Inr fl) = Inr g" using augment_fin n by blast
    then show ?thesis
      using augment_lookup [where alive = "live m", OF coherent_known _ at g n, of fs_load fs_test q] fin live Inr by auto
  next
    case (Inl e)
    then show ?thesis
      using augment_lookup [where alive = "live m", OF coherent_known _ at g n, of fs_load fs_test q] fin live by auto
  qed
  show "\<forall>c \<in> set (ti_calls s). \<exists>prio mt f nid. c = M_barrier_rule prio mt f nid"
    using augment_barriers [OF n] by (auto simp: tracer_for_def tracer_init_def)
  show "m_flows n \<subseteq> m_flows (tr_root (mp_tree m)) \<union> {fl}"
    by (rule order_trans [OF augment_flows [OF n]]) (use fin in auto)
qed

lemma augment_table:
  assumes "tree_ok a (set known_types) t tbl" "good_trace (set known_types) {} xs"
    and "m_augment xs fin (tr_root t) (tracer_init (tr_left t) (tr_right t) i) = (n, s, re)"
    and "\<And>leaf. re = Inr leaf \<Longrightarrow> may_end a fin (m_at xs (tr_root t))"
    and "tr_root t' = n" "tr_left t' = tr_left t" "tr_right t' = tr_right t"
  shows "tree_ok a (set known_types) t' (fold table_call (ti_calls s @ install_calls a s re) tbl)"
proof -
  have at: "ti_at (set known_types) {} [] (tr_root t) (tracer_init (tr_left t) (tr_right t) i)"
    using assms(1) by (simp add: tree_ok_def ti_at_def tracer_init_def on_path_empty)
  obtain cs where cs: "ti_calls s = cs" "grows a (set known_types) (tr_left t) (tr_right t) {} [] (tr_root t) (cs @ install_calls a s re) n"
    using augment_grows [OF coherent_known assms(4) at assms(2,3)] by (auto simp: tracer_init_def)
  show ?thesis unfolding cs(1) by (rule tree_ok_grows [OF assms(1) cs(2) assms(5-7)])
qed

text \<open>Activating a flow whose installer points to its leaf.\<close>

definition flow_calls :: "decision \<Rightarrow> 16 word \<Rightarrow> full_field_set \<Rightarrow> nat \<Rightarrow> maple_call list" where
  "flow_calls dec prio mt fl = (if d_data dec = Undefined then [M_barrier] else [M_barrier, M_install prio mt fl, M_barrier])"

lemma activate_flow:
  assumes "find_obj fl m = Some fo" "fo_installer fo = Some (xs, mt)" "m_at xs (tr_root (mp_tree m)) = M_flow fl prio"
    "fo_state fo \<noteq> Active" "fo_state fo \<noteq> Expired" "activate fl m = (m', res)"
  obtains fo2 where "mp_tree m' = (mp_tree m)\<lparr>tr_calls := tr_calls (mp_tree m) @ flow_calls (fo_decision fo) prio mt fl\<rparr>"
    "mp_next m' = mp_next m" "find_obj fl m' = Some fo2" "\<And>g. g \<noteq> fl \<Longrightarrow> find_obj g m' = find_obj g m"
    "fo_decision fo2 = fo_decision fo" "fo_mods fo2 = fo_mods fo" "fo_state fo2 \<noteq> Expired"
    "fo_state fo2 = Active \<longleftrightarrow> lasting (fo_decision fo)" "res = Inr () \<longleftrightarrow> d_data (fo_decision fo) \<noteq> Undefined"
proof (cases "d_data (fo_decision fo) = Undefined")
  case True
  then have "m' = emit_calls [M_barrier] m" "res = Inl Runtime_error" using assms by (simp_all add: activate_def)
  then show thesis using True assms by (intro that [of fo]) (simp_all add: flow_calls_def lasting_def)
next
  case False
  let ?fo = "fo\<lparr>fo_state := if disposable (fo_decision fo) then Evicted else Active\<rparr>"
  have "live m fl" using assms(1) by (simp add: live_def)
  then have "m' = set_obj fl ?fo (emit_calls [M_barrier, M_install prio mt fl, M_barrier] m)" "res = Inr ()"
    using assms False by (simp_all add: activate_def ti_installer_def)
  then show thesis using False assms by (intro that [of ?fo]) (simp_all add: flow_calls_def lasting_def split: if_splits)
qed

lemma flow_calls_effect:
  assumes "a fl = lasting dec" "b fl = lasting dec" "ti_match s = mt"
  shows "fold (call_effect a) (flow_calls dec prio mt fl) tbl = fold table_call (install_calls b s (Inr (M_flow fl prio))) tbl"
  using assms by (auto simp: flow_calls_def install_calls_def ti_installer_def call_effect_def table_call_def lasting_def)

text \<open>
  A flow that is not installed gets the entry of its leaf. The entry may be there for a flow that was
  idle before, so the leaf counts as one of another flow that is not installed either.
\<close>

lemma augment_new_entry:
  assumes ok: "maple_ok hs m tbl" and lv: "live m fl" and g: "good_trace (set known_types) {} xs"
    and n: "m_augment xs (Inr fl) (tr_root (mp_tree m)) (tracer_for m) = (n, s, Inr leaf)"
    and p: "list_all (answers fs_load fs_test p) xs"
    and old: "fl \<in> m_flows (tr_root (mp_tree m)) \<Longrightarrow> m_lookup fs_load fs_test (live m) p (tr_root (mp_tree m)) = Some fl"
    and ni: "\<not> installed m fl" and none: "m_lookup fs_load fs_test (installed m) p (tr_root (mp_tree m)) = None"
    and a: "\<And>g. g \<noteq> fl \<Longrightarrow> a g = installed m g"
  shows "m_apart n" "tr_root t' = n \<Longrightarrow> tr_left t' = tr_left (mp_tree m) \<Longrightarrow> tr_right t' = tr_right (mp_tree m) \<Longrightarrow>
    tree_ok a (set known_types) t' (fold table_call (ti_calls s @ install_calls a s (Inr leaf)) tbl)"
proof -
  let ?t = "mp_tree m" and ?b = "mp_next m"
  have fresh: "find_obj ?b m = None" using ok by (cases "find_obj ?b m") (auto simp: maple_ok_def objects_ok_def)
  then have obj: "m_apart (tr_root ?t)" "find_obj ?b m = None" "fl \<noteq> ?b"
    using ok lv by (auto simp: maple_ok_def objects_ok_def live_def)
  then have b: "\<not> a ?b" using a [of ?b] by (simp add: installed_def)
  have rec: "ti_at (set known_types) {} [] (tr_root ?t) (tracer_for m)"
    using recorded(1) [OF ok lv g, of "Inr ()"] n by simp
  have at: "m_lookup fs_load fs_test alive p (m_at xs (tr_root ?t)) = m_lookup fs_load fs_test alive p (tr_root ?t)" for alive
    using augment_at [OF coherent_known rec g n p] by simp
  have old': "\<exists>k. m_at xs (tr_root ?t) = M_flow fl k" if "fl \<in> m_flows (tr_root ?t)"
    using old [OF that] at [of "live m"] augment_ends [OF n] by (auto split: if_splits)
  show "m_apart n" by (rule augment_apart [OF obj(1) n]) (use old' in auto)
  let ?old = "?t\<lparr>tr_root := rename_flow fl ?b (tr_root ?t)\<rparr>"
  have "m_augment xs (Inr fl) (tr_root ?old) (tracer_init (tr_left ?old) (tr_right ?old) (tr_next_id ?t)) = (n, s, Inr leaf)"
    using augment_renamed [OF obj(1) n, of ?b] old' by (simp add: tracer_for_def)
  note aug = augment_table [OF _ g this]
  have same: "(g \<noteq> fl \<and> a g) = installed m g" for g using a [of g] ni by auto
  have "m_rules a [] (rename_flow fl ?b (tr_root ?t)) = m_rules (\<lambda>g. g \<noteq> fl \<and> a g) [] (tr_root ?t)"
    by (rule rename_rules(1)) (rule b)
  then have rules: "m_rules a [] (rename_flow fl ?b (tr_root ?t)) = m_rules (installed m) [] (tr_root ?t)"
    unfolding same .
  then have tree: "tree_ok a (set known_types) ?old tbl" using ok rules by (simp add: maple_ok_def tree_ok_def rename_ok)
  have "\<not> a g" if "m_at xs (tr_root ?old) = M_flow g k" for g k
  proof -
    have "rename_flow fl ?b (m_at xs (tr_root ?t)) = M_flow g k" using that by (simp add: rename_at)
    then obtain h where "m_at xs (tr_root ?t) = M_flow h k" "g = (if h = fl then ?b else h)"
      by (cases "m_at xs (tr_root ?t)") auto
    then show ?thesis using at [of "installed m"] none a b by (auto split: if_splits)
  qed
  then have "may_end a (Inr fl) (m_at xs (tr_root ?old))" by (simp add: may_end_def)
  then show "tree_ok a (set known_types) t' (fold table_call (ti_calls s @ install_calls a s (Inr leaf)) tbl)"
    if "tr_root t' = n" "tr_left t' = tr_left ?t" "tr_right t' = tr_right ?t"
    by (rule aug [OF tree]) (use that in simp_all)
qed

lemma augment_flow_ok:
  assumes hs: "whole_handlers hs" and ok: "maple_ok hs m tbl" and p: "full_fs (set known_types) p" and fo: "find_obj fl m = Some fo"
    and old: "fl \<in> m_flows (tr_root (mp_tree m)) \<Longrightarrow> m_lookup fs_load fs_test (live m) p (tr_root (mp_tree m)) = Some fl"
    and ni: "\<not> installed m fl" and none: "m_lookup fs_load fs_test (installed m) p (tr_root (mp_tree m)) = None"
    and state: "fo_state fo \<noteq> Expired"
    and run: "augment_flow hs fs_load fs_modify p fl fo m = (m', res)"
  shows "maple_ok hs m' (table_after m m' tbl) \<and>
    (res = Inr () \<longrightarrow> decided hs m' fl p \<and> m_lookup fs_load fs_test (live m') p (tr_root (mp_tree m')) = Some fl)"
proof -
  let ?h = "process hs fl" and ?t = "mp_tree m"
  obtain d r where mr: "m_run ?h fs_load fs_modify (run_init p) = (d, r)" by fastforce
  define xs where "xs = tp_trace (r_traced r)"
  have w: "m_whole (set known_types) ?h"
    using hs whole_pipeline [of hs "set known_types" fl no_decision] by (simp add: whole_handlers_def process_def)
  have tr: "traced_run ?h p = (d, xs, r_mods r)" using mr by (simp add: traced_run_def xs_def)
  note props = traced_run_props [OF w p tr]
  have ans: "list_all (answers fs_load fs_test q) xs = agrees entry q xs" if "full_fs (set known_types) q" for q
    by (rule answers_all_fs [OF that props(2)])
  have lv: "live m fl" using fo by (simp add: live_def)
  obtain n s re where n: "m_augment xs (rbind d (\<lambda>_. Inr fl)) (tr_root ?t) (tracer_for m) = (n, s, re)"
    by (cases "m_augment xs (rbind d (\<lambda>_. Inr fl)) (tr_root ?t) (tracer_for m)") auto
  note rec = recorded [OF ok lv props(4) n]
  define m1 where "m1 = m\<lparr>mp_tree := ?t\<lparr>tr_root := n, tr_next_id := ti_next_id s, tr_calls := tr_calls ?t @ ti_calls s\<rparr>\<rparr>"
  have t1: "tr_root (mp_tree m1) = n" "tr_left (mp_tree m1) = tr_left ?t" "tr_right (mp_tree m1) = tr_right ?t"
    "tr_calls (mp_tree m1) = tr_calls ?t @ ti_calls s" "mp_next m1 = mp_next m" "\<And>g. find_obj g m1 = find_obj g m"
    by (simp_all add: m1_def)
  have aug: "augment_flow hs fs_load fs_modify p fl fo m = (case rbind re (\<lambda>_. d) of
            Inl e \<Rightarrow> (m1, Inl e)
          | Inr dec \<Rightarrow> activate fl (set_obj fl (fo\<lparr>fo_decision := dec, fo_mods := r_mods r, fo_installer := Some (xs, ti_match s)\<rparr>) m1))"
    using n unfolding tracer_for_def m1_def xs_def by (simp add: augment_flow_def Let_def mr)
  have flows_less: "\<forall>g \<in> m_flows n. g < mp_next m" using rec(4) ok fo by (auto simp: maple_ok_def objects_ok_def)
  show ?thesis
  proof (cases "rbind re (\<lambda>_. d)")
    case (Inl e)
    then have m': "m' = m1" "res = Inl e" using run aug by simp_all
    have re: "re = Inl e"
      using Inl augment_fin [of xs "rbind d (\<lambda>_. Inr fl)" "tr_root ?t" "tracer_for m" n s] n by (cases re; cases d) auto
    have same: "installed m1 = installed m" "live m1 = live m" "decided hs m1 = decided hs m"
      by (simp_all add: fun_eq_iff installed_def live_def decided_def t1(6))
    have "table_after m m1 tbl = fold table_call (ti_calls s) tbl"
      using effect_barriers [OF rec(3)] by (simp add: table_after_def t1(4))
    then have "tree_ok (installed m1) (set known_types) (mp_tree m1) (table_after m m1 tbl)"
      using augment_table [of "installed m" ?t tbl xs _ "tr_next_id ?t" n s re "mp_tree m1"] ok props(4) n t1 re
      by (simp add: maple_ok_def same install_calls_def tracer_for_def)
    moreover have "m_apart n" using augment_apart [OF _ n] ok re by (simp add: maple_ok_def objects_ok_def)
    then have "objects_ok m1" using ok flows_less by (simp add: maple_ok_def objects_ok_def t1)
    moreover have "decided hs m1 g q" if "full_fs (set known_types) q" "m_lookup fs_load fs_test (live m1) q (tr_root (mp_tree m1)) = Some g" for q g
      using that rec(2) [of q] ok re unfolding t1(1) same by (simp add: maple_ok_def)
    ultimately show ?thesis using m' by (simp add: maple_ok_def)
  next
    case (Inr dec)
    then have d: "d = Inr dec" by (auto simp: rbind_eq_Inr)
    obtain leaf prio where re: "re = Inr leaf" "m_at xs n = leaf" "leaf = M_flow fl prio"
      using Inr n augment_leaf [of xs "rbind d (\<lambda>_. Inr fl)" "tr_root ?t" "tracer_for m" n s] d by (auto simp: rbind_eq_Inr)
    define fo1 where "fo1 = fo\<lparr>fo_decision := dec, fo_mods := r_mods r, fo_installer := Some (xs, ti_match s)\<rparr>"
    define m2 where "m2 = set_obj fl fo1 m1"
    have run2: "activate fl m2 = (m', res)" using run aug Inr by (simp add: m2_def fo1_def)
    have f1: "fo_decision fo1 = dec" "fo_mods fo1 = r_mods r" "fo_installer fo1 = Some (xs, ti_match s)" "fo_state fo1 = fo_state fo"
      by (simp_all add: fo1_def)
    have t2: "mp_tree m2 = mp_tree m1" "mp_next m2 = mp_next m" "find_obj fl m2 = Some fo1" "\<And>g. g \<noteq> fl \<Longrightarrow> find_obj g m2 = find_obj g m"
      by (simp_all add: m2_def t1)
    have inactive: "fo_state fo1 \<noteq> Active" "fo_state fo1 \<noteq> Expired"
      using ok fo ni state f1(4) by (auto simp: maple_ok_def objects_ok_def installed_def)
    have "m_at xs (tr_root (mp_tree m2)) = M_flow fl prio" using re t1 t2 by simp
    from activate_flow [OF t2(3) f1(3) this inactive run2]
    obtain fo2 where m': "mp_tree m' = (mp_tree m2)\<lparr>tr_calls := tr_calls (mp_tree m2) @ flow_calls dec prio (ti_match s) fl\<rparr>"
      "mp_next m' = mp_next m2" "find_obj fl m' = Some fo2" "\<And>g. g \<noteq> fl \<Longrightarrow> find_obj g m' = find_obj g m2"
      "fo_decision fo2 = dec" "fo_mods fo2 = r_mods r" "fo_state fo2 \<noteq> Expired" "fo_state fo2 = Active \<longleftrightarrow> lasting dec"
      "res = Inr () \<longleftrightarrow> d_data dec \<noteq> Undefined"
      unfolding f1 by blast
    have find: "find_obj g m' = (if g = fl then Some fo2 else find_obj g m)" for g using m'(3,4) t2(4) by simp
    have lives: "live m' = live m" using find fo by (auto simp: live_def fun_eq_iff)
    have inst: "installed m' g = (if g = fl then lasting dec else installed m g)" for g using m'(8) by (simp add: installed_def find)
    have out: "outcome ?h p = (Inr dec, r_mods r)" using props(1) d by simp
    have n': "m_augment xs (Inr fl) (tr_root ?t) (tracer_for m) = (n, s, Inr leaf)" using n d re(1) by simp
    have pa: "list_all (answers fs_load fs_test p) xs" using ans [OF p] props(3) by simp
    note new = augment_new_entry [OF ok lv props(4) n' pa old ni none, where a = "installed m'"]
    have "table_after m m' tbl = fold (call_effect (sends_flow m')) (ti_calls s @ flow_calls dec prio (ti_match s) fl) tbl"
      by (simp add: table_after_def m'(1) t2(1) t1(4))
    also have "\<dots> = fold table_call (ti_calls s @ install_calls (installed m') s (Inr leaf)) tbl"
      using effect_barriers [OF rec(3)] flow_calls_effect [of "sends_flow m'" fl dec "installed m'" s "ti_match s" prio] inst re m'(3,5)
      by (simp add: sends_flow_def)
    finally have "tree_ok (installed m') (set known_types) (mp_tree m') (table_after m m' tbl)"
      using new(2) inst m'(1) t1 t2 by simp
    moreover have "m_apart n" by (rule new(1)) (use inst in simp_all)
    then have "objects_ok m'"
      using ok flows_less m'(2,7) t1 t2 fo unfolding maple_ok_def objects_ok_def by (auto simp: find m'(1) split: if_splits)
    moreover have dec: "decided hs m' g q"
      if "full_fs (set known_types) q" "m_lookup fs_load fs_test (live m') q (tr_root (mp_tree m')) = Some g" for q g
    proof (cases "agrees entry q xs")
      case True
      then have "g = fl" using that rec(2) [of q] re ans [OF that(1)] by (simp add: lives m'(1) t2(1) t1(1))
      then show ?thesis using props(5) [OF that(1) True] d find m'(5,6) by (simp add: decided_def)
    next
      case False
      then have g: "m_lookup fs_load fs_test (live m) q (tr_root ?t) = Some g"
        using that(2) rec(2) [of q] re ans [OF that(1)] by (simp add: lives m'(1) t2(1) t1(1))
      then have dq: "decided hs m g q" using ok that(1) by (simp add: maple_ok_def)
      show ?thesis
      proof (cases "g = fl")
        case True
        then have "fl \<in> m_flows (tr_root ?t)" using g lookup_flows(1) by metis
        from old [OF this] have "decided hs m fl p" using ok p by (simp add: maple_ok_def)
        then show ?thesis using True dq out fo m'(5,6) by (simp add: decided_def find)
      next
        case False
        then show ?thesis using dq by (simp add: decided_def find)
      qed
    qed
    ultimately have "maple_ok hs m' (table_after m m' tbl)" by (simp add: maple_ok_def)
    moreover have "m_lookup fs_load fs_test (live m') p (tr_root (mp_tree m')) = Some fl"
      using rec(2) [of p] re ans [OF p] props(3) by (simp add: lives m'(1) t2(1) t1(1))
    ultimately show ?thesis using dec p by blast
  qed
qed

section \<open>Events\<close>

lemma serves_unique: "serves tst p rs a \<Longrightarrow> serves tst p rs b \<Longrightarrow> a = b"
  unfolding serves_def hits_def by (metis less_asym)

lemma table_lookup:
  assumes "maple_ok hs m tbl" "full_fs (set known_types) p" "table_serves fs_test p tbl found"
  shows "m_lookup fs_load fs_test (installed m) p (tr_root (mp_tree m)) = found"
proof -
  have "table_serves fs_test p tbl (m_lookup fs_load fs_test (installed m) p (tr_root (mp_tree m)))"
    using tree_ok_serves [OF _ reads_cases_fs [OF assms(2)]] assms(1) by (simp add: maple_ok_def)
  with assms(3) show ?thesis unfolding table_serves_def by (rule serves_unique [symmetric])
qed

lemma fresh_flow_ok:
  assumes ok: "maple_ok hs m tbl" and m1: "m1 = (set_obj (mp_next m) fresh_flow m)\<lparr>mp_next := mp_next m + 1\<rparr>"
  shows "maple_ok hs m1 tbl" "installed m1 = installed m" "mp_next m \<notin> m_flows (tr_root (mp_tree m1))" "\<not> installed m (mp_next m)"
    and "mp_tree m1 = mp_tree m"
proof -
  have find: "find_obj g m1 = (if g = mp_next m then Some fresh_flow else find_obj g m)" for g by (simp add: m1)
  show t: "mp_tree m1 = mp_tree m" by (simp add: m1)
  have next1: "mp_next m1 = mp_next m + 1" by (simp add: m1)
  have new: "find_obj (mp_next m) m = None" using ok by (cases "find_obj (mp_next m) m") (auto simp: maple_ok_def objects_ok_def)
  show ni: "\<not> installed m (mp_next m)" using new by (simp add: installed_def)
  show inst: "installed m1 = installed m"
    using new by (auto simp: fun_eq_iff installed_def find fresh_flow_def no_decision_def lasting_def)
  have out: "mp_next m \<notin> m_flows (tr_root (mp_tree m))" using ok by (auto simp: maple_ok_def objects_ok_def)
  then show "mp_next m \<notin> m_flows (tr_root (mp_tree m1))" by (simp add: t)
  have "live m1 g = live m g" if "g \<in> m_flows (tr_root (mp_tree m))" for g using that out by (auto simp: live_def find)
  then have look: "m_lookup fs_load fs_test (live m1) q (tr_root (mp_tree m)) = m_lookup fs_load fs_test (live m) q (tr_root (mp_tree m))" for q
    by (rule lookup_cong(1))
  have "decided hs m1 g q" if "decided hs m g q" for g q using that new by (auto simp: decided_def find)
  moreover have "objects_ok m1" using ok unfolding maple_ok_def objects_ok_def t next1 find
    by (auto simp: fresh_flow_def no_decision_def lasting_def split: if_splits intro: less_SucI)
  ultimately show "maple_ok hs m1 tbl" using ok by (simp add: maple_ok_def inst t look)
qed

lemma packet_in_miss_ok:
  assumes hs: "whole_handlers hs" and ok: "maple_ok hs m tbl" and p: "full_fs (set known_types) p"
    and none: "table_serves fs_test p tbl None"
    and run: "packet_in_maple hs insp fs_load fs_test fs_modify True p m = (m', res)"
  shows "maple_ok hs m' (table_after m m' tbl) \<and>
    (res = Inr () \<longrightarrow> (\<exists>fl. m_lookup fs_load fs_test (live m') p (tr_root (mp_tree m')) = Some fl))"
proof -
  note lookup = table_lookup [OF ok p none]
  show ?thesis
  proof (cases "m_lookup fs_load fs_test (live m) p (tr_root (mp_tree m))")
    case None
    define m1 where "m1 = (set_obj (mp_next m) fresh_flow m)\<lparr>mp_next := mp_next m + 1\<rparr>"
    note f = fresh_flow_ok [OF ok m1_def]
    have find: "find_obj (mp_next m) m1 = Some fresh_flow" by (simp add: m1_def)
    have "augment_flow hs fs_load fs_modify p (mp_next m) fresh_flow m1 = (m', res)"
      using run None by (simp add: packet_in_maple_def flow_for_def Let_def m1_def preprocess_def fresh_flow_def no_decision_def)
    from augment_flow_ok [OF hs f(1) p find _ _ _ _ this] f lookup
    show ?thesis by (auto simp: table_after_def fresh_flow_def)
  next
    case (Some fl)
    then have "decided hs m fl p" using ok p by (simp add: maple_ok_def)
    then obtain fo where fo: "find_obj fl m = Some fo" by (auto simp: decided_def)
    have ni: "\<not> installed m fl"
      using lookup_narrow(1) [of "installed m" "live m" fs_load fs_test p "tr_root (mp_tree m)"] installed_live Some lookup
      by (auto split: if_splits)
    have st: "fo_state fo \<noteq> Expired" "fo_state fo \<noteq> Active" using ok fo ni by (auto simp: maple_ok_def objects_ok_def installed_def)
    have flow: "flow_for fs_load fs_test p m = (fl, m)" using Some fo st by (simp add: flow_for_def Let_def)
    show ?thesis
    proof (cases "preprocess insp p fo")
      case True
      then have "m' = m" using run flow fo by (simp add: packet_in_maple_def)
      then show ?thesis using ok Some by (simp add: table_after_def)
    next
      case False
      then have "augment_flow hs fs_load fs_modify p fl fo m = (m', res)"
        using run flow fo st by (cases "fo_state fo") (simp_all add: packet_in_maple_def)
      from augment_flow_ok [OF hs ok p fo _ ni lookup st(1) this] Some show ?thesis by blast
    qed
  qed
qed

text \<open>A packet that its flow sends_flow to the controller: the handlers decide as before.\<close>

lemma packet_in_action_ok:
  assumes ok: "maple_ok hs m tbl" and p: "full_fs (set known_types) p" and served: "table_serves fs_test p tbl (Some fl)"
    and run: "packet_in_maple hs insp fs_load fs_test fs_modify False p m = (m', res)"
  shows "maple_ok hs m' tbl"
proof -
  have "m_lookup fs_load fs_test (installed m) p (tr_root (mp_tree m)) = Some fl" by (rule table_lookup [OF ok p served])
  then have look: "m_lookup fs_load fs_test (live m) p (tr_root (mp_tree m)) = Some fl" "installed m fl"
    using lookup_narrow(1) [of "installed m" "live m" fs_load fs_test p "tr_root (mp_tree m)"] installed_live
    by (auto split: if_splits option.splits)
  then have dec: "decided hs m fl p" using ok p by (simp add: maple_ok_def)
  then obtain fo where fo: "find_obj fl m = Some fo" "outcome (process hs fl) p = (Inr (fo_decision fo), fo_mods fo)" by (auto simp: decided_def)
  have st: "fo_state fo = Active" using ok fo look(2) by (simp add: maple_ok_def objects_ok_def installed_def)
  obtain p' where plain: "m_plain (process hs fl) fs_load fs_test fs_modify p [] = (Inr (fo_decision fo), p', fo_mods fo)"
    using fo(2) by (auto simp: outcome_def split: prod.splits)
  have flow: "flow_for fs_load fs_test p m = (fl, m)" using look fo st by (simp add: flow_for_def Let_def)
  have "m' = m \<or> m' = set_obj fl fo m"
    using run flow fo st plain by (auto simp: packet_in_maple_def split: if_splits)
  moreover have "installed (set_obj fl fo m) = installed m" "live (set_obj fl fo m) = live m"
    "decided hs (set_obj fl fo m) = decided hs m" "find_obj g (set_obj fl fo m) = find_obj g m" for g
    using fo by (simp_all add: fun_eq_iff installed_def live_def decided_def)
  ultimately show ?thesis using ok by (auto simp: maple_ok_def objects_ok_def)
qed

text \<open>
  A flow whose entries leave the table: they were deleted, no packet used them or their time is over.
  In the last case the controller forgets the flow.
\<close>

lemma rules_without:
  "m_rules (\<lambda>g. g \<noteq> fl \<and> a g) path n = filter (\<lambda>x. snd (snd x) \<noteq> Some fl) (m_rules a path n)"
  "m_rules_cases (\<lambda>g. g \<noteq> fl \<and> a g) path m cs = filter (\<lambda>x. snd (snd x) \<noteq> Some fl) (m_rules_cases a path m cs)"
  by (induction a path n and a path m cs rule: m_rules_m_rules_cases.induct) auto

lemma map_of_filter_value:
  "distinct (map fst xs) \<Longrightarrow> map_of (filter (\<lambda>e. P (snd e)) xs) k = (case map_of xs k of None \<Rightarrow> None | Some v \<Rightarrow> if P v then Some v else None)"
proof (induction xs)
  case (Cons x xs)
  have "map_of xs (fst x) = None" using Cons.prems by (simp add: map_of_eq_None_iff)
  with Cons show ?case by (cases x) auto
qed simp

lemma removed_ok:
  assumes "maple_ok hs m tbl"
  shows "maple_ok hs (flow_removed_maple why fl m) (filter (\<lambda>e. snd e \<noteq> Some fl) tbl)"
proof -
  let ?m = "flow_removed_maple why fl m" and ?t = "mp_tree m" and ?P = "\<lambda>v. v \<noteq> Some fl"
  have find: "\<exists>fo. find_obj g m = Some fo \<and> fo_decision fo' = fo_decision fo \<and> fo_mods fo' = fo_mods fo \<and>
      fo_state fo' = (if g \<noteq> fl then fo_state fo else if why = Removed_by_delete then Evicted else Idle)"
    if "find_obj g ?m = Some fo'" for g fo'
    using that by (cases why) (auto simp: flow_removed_maple_def split: option.splits if_splits)
  have other: "find_obj g ?m = find_obj g m" if "g \<noteq> fl" for g
    using that by (cases why) (auto simp: flow_removed_maple_def split: option.splits)
  have same: "mp_tree ?m = ?t" "mp_next ?m = mp_next m"
    by (auto simp: flow_removed_maple_def split: option.splits removed_reason.splits)
  have inst: "installed ?m = (\<lambda>g. g \<noteq> fl \<and> installed m g)"
  proof
    show "installed ?m g = (g \<noteq> fl \<and> installed m g)" for g
    proof (cases "g = fl")
      case True
      then show ?thesis using find [of fl] by (cases "find_obj fl ?m") (fastforce simp: installed_def split: if_splits)+
    qed (simp add: installed_def other)
  qed
  have ok: "tree_ok (installed m) (set known_types) ?t tbl" using assms by (simp add: maple_ok_def)
  then have keys: "distinct (map fst tbl)" "distinct (map fst (map keyed (m_rules (installed m) [] (tr_root ?t))))"
    "map_of tbl = map_of (map keyed (m_rules (installed m) [] (tr_root ?t)))"
    using rules_distinct(1) [of "set known_types" "tr_left ?t" "tr_right ?t" "{}" "tr_root ?t" "installed m" "[]"]
    by (simp_all add: tree_ok_def as_map_def)
  have "map keyed (filter (\<lambda>x. ?P (snd (snd x))) rs) = filter (\<lambda>e. ?P (snd e)) (map keyed rs)" for rs
    by (simp add: filter_map comp_def keyed_def)
  then have "map_of (filter (\<lambda>e. ?P (snd e)) tbl) = as_map (m_rules (installed ?m) [] (tr_root ?t))"
    unfolding as_map_def inst rules_without(1)
    using map_of_filter_value [OF keys(1), of ?P] map_of_filter_value [OF keys(2), of ?P] keys(3) by (simp add: fun_eq_iff)
  moreover have "distinct (map fst (filter (\<lambda>e. ?P (snd e)) tbl))" using keys(1) by (rule distinct_map_filter)
  ultimately have "tree_ok (installed ?m) (set known_types) ?t (filter (\<lambda>e. ?P (snd e)) tbl)" using ok by (simp add: tree_ok_def)
  moreover have "decided hs ?m g q"
    if "full_fs (set known_types) q" "m_lookup fs_load fs_test (live ?m) q (tr_root ?t) = Some g" for q g
  proof -
    have "live ?m h \<Longrightarrow> live m h" for h using find [of h] by (auto simp: live_def)
    from lookup_narrow(1) [where a = "live ?m" and b = "live m" and ld = fs_load and tst = fs_test and p = q and n = "tr_root ?t", OF this] that(2)
    have look: "m_lookup fs_load fs_test (live m) q (tr_root ?t) = Some g" "live ?m g" by (auto split: option.splits if_splits)
    then obtain fo' where fo': "find_obj g ?m = Some fo'" by (auto simp: live_def)
    have "decided hs m g q" using assms that(1) look(1) by (simp add: maple_ok_def)
    then show ?thesis using find [OF fo'] fo' by (auto simp: decided_def)
  qed
  moreover have "g < mp_next m \<and> fo_state fo' \<noteq> Expired" if fo': "find_obj g ?m = Some fo'" for g fo'
    
  proof -
    obtain fo where "find_obj g m = Some fo" "fo_state fo' = (if g \<noteq> fl then fo_state fo else if why = Removed_by_delete then Evicted else Idle)"
      using find [OF fo'] by blast
    moreover from this have "g < mp_next m" "fo_state fo \<noteq> Expired" using assms unfolding maple_ok_def objects_ok_def by blast+
    ultimately show ?thesis by simp
  qed
  then have "objects_ok ?m" using assms unfolding maple_ok_def objects_ok_def same by blast
  ultimately show ?thesis by (simp add: maple_ok_def same)
qed

section \<open>The closed system\<close>

text \<open>
  A packet for which the table has no flow is sent to the controller as a miss, one whose flow says
  so is sent there too, and
  the entries of a flow are removed by a delete or a timeout. \<open>insp\<close> is what the handlers of inspect decisions answer.
\<close>

inductive maple_reaches :: "miss_handler list \<Rightarrow> (nat \<Rightarrow> field_set \<Rightarrow> bool) \<Rightarrow> maple \<Rightarrow> m_table \<Rightarrow> bool"
  for hs insp where
  start: "maple_reaches hs insp (maple_init cookie) []"
| miss: "maple_reaches hs insp m tbl \<Longrightarrow> full_fs (set known_types) p \<Longrightarrow> table_serves fs_test p tbl None \<Longrightarrow>
    packet_in_maple hs insp fs_load fs_test fs_modify True p m = (m', res) \<Longrightarrow> maple_reaches hs insp m' (table_after m m' tbl)"
| action: "maple_reaches hs insp m tbl \<Longrightarrow> full_fs (set known_types) p \<Longrightarrow> table_serves fs_test p tbl (Some fl) \<Longrightarrow>
    packet_in_maple hs insp fs_load fs_test fs_modify False p m = (m', res) \<Longrightarrow> maple_reaches hs insp m' tbl"
| removed: "maple_reaches hs insp m tbl \<Longrightarrow>
    maple_reaches hs insp (flow_removed_maple why fl m) (filter (\<lambda>e. snd e \<noteq> Some fl) tbl)"

lemma maple_ok_init: "maple_ok hs (maple_init cookie) []"
proof -
  have none: "find_obj fl (maple_init cookie) = None" for fl by (simp add: maple_init_def find_obj_def)
  have tree: "mp_tree (maple_init cookie) = tree_init 1 65535" by (simp add: maple_init_def)
  show ?thesis using tree_ok_init none by (simp add: maple_ok_def objects_ok_def tree) (simp add: tree_init_def)
qed

lemma maple_reaches_ok: "maple_reaches hs insp m tbl \<Longrightarrow> whole_handlers hs \<Longrightarrow> maple_ok hs m tbl"
  by (induction rule: maple_reaches.induct)
    (auto intro: maple_ok_init removed_ok packet_in_action_ok dest: packet_in_miss_ok)


text \<open>One handler that forwards by the port a packet came in by.\<close>

definition sample_miss_handler :: miss_handler where
  "sample_miss_handler fl d = M_loading (exact_mask ofb_in_port) (\<lambda>f.
     M_return (rbind (decide_unicast (word_of_nat (bits_val (f_value f) + 1)) d) (\<lambda>d1. Inr (decide_idle 60 d1))))"

lemma sample_whole: "whole_handlers [sample_miss_handler]"
  by (simp add: whole_handlers_def sample_miss_handler_def exact_mask_def)


end
