(* ===== verification/Event_Log.thy ===== *)
theory Event_Log
  imports Prelude
begin

text \<open>
  The event log behind the REST interface, \<^verbatim>\<open>src/Event.cc\<close>: applications report objects that
  appear and disappear, and web clients ask for what is new since the last event they know. An
  object that came and went in between is not reported. The log is a list, a pointer to an event is
  its position; an application is known by its hash, a bit of its own, and its name.
\<close>

section \<open>Events\<close>

datatype ev_type = Ev_add | Ev_delete | Ev_change

record 'o ev =
  ev_id :: "32 word"
  ev_type :: ev_type
  ev_obj :: 'o
  ev_hash :: "32 word"
  ev_app :: string
  ev_brother :: "nat option"

record 'o event_log =
  el_events :: "'o ev list"
  el_last :: "32 word"

definition el_init :: "'o event_log" where
  "el_init = \<lparr>el_events = [], el_last = 0\<rparr>"

text \<open>\<open>findBrother\<close> looks for the latest event that added the object.\<close>

definition find_brother :: "'o \<Rightarrow> 'o ev list \<Rightarrow> nat option" where
  "find_brother obj es = find (\<lambda>i. ev_obj (es ! i) = obj \<and> ev_type (es ! i) = Ev_add) (rev [0..<length es])"

text \<open>\<open>setBrother\<close> dereferences what \<open>findBrother\<close> returns.\<close>

definition add_to_event_list :: "ev_type \<Rightarrow> 'o \<Rightarrow> 32 word \<times> string \<Rightarrow> 'o event_log \<Rightarrow> 'o event_log \<times> unit res" where
  "add_to_event_list ty obj app l =
     (if fst app = 0 then (l, Inr ())
      else let i = el_last l + 1; es = el_events l;
               e = \<lparr>ev_id = i, ev_type = ty, ev_obj = obj, ev_hash = fst app, ev_app = snd app, ev_brother = None\<rparr> in
        if ty = Ev_delete then (case find_brother obj es of
            None \<Rightarrow> (l\<lparr>el_last := i\<rparr>, Inl Nullptr_dereference)
          | Some k \<Rightarrow> (\<lparr>el_events = es[k := (es ! k)\<lparr>ev_brother := Some (length es)\<rparr>] @ [e\<lparr>ev_brother := Some k\<rparr>], el_last = i\<rparr>, Inr ()))
        else (\<lparr>el_events = es @ [e], el_last = i\<rparr>, Inr ()))"

text \<open>\<open>checkOverlap\<close> says that an event need not be reported.\<close>

definition check_overlap :: "'o ev list \<Rightarrow> 32 word \<Rightarrow> 'o ev \<Rightarrow> bool res" where
  "check_overlap es since e = (case ev_type e of
     Ev_add \<Rightarrow> Inr (ev_brother e \<noteq> None)
   | Ev_delete \<Rightarrow> (case ev_brother e of
       None \<Rightarrow> Inl Nullptr_dereference
     | Some k \<Rightarrow> Inr (\<not> ev_id (es ! k) \<le> since))
   | Ev_change \<Rightarrow> Inr False)"

text \<open>\<open>EventManager::timeout\<close>: the reports by application, without the order of the map that holds them, and the number of the last reported event.\<close>

type_synonym 'o report = "32 word \<times> ev_type \<times> 'o"

definition ev_report :: "'o ev \<Rightarrow> 'o report" where
  "ev_report e = (ev_id e, ev_type e, ev_obj e)"

fun push_back :: "'k \<Rightarrow> 'v \<Rightarrow> ('k \<times> 'v list) list \<Rightarrow> ('k \<times> 'v list) list" where
  "push_back k v [] = [(k, [v])]"
| "push_back k v ((j, vs) # rs) = (if j = k then (j, vs @ [v]) # rs else (j, vs) # push_back k v rs)"

definition timeout_step :: "'o ev list \<Rightarrow> 32 word \<Rightarrow> 32 word \<Rightarrow> 'o ev \<Rightarrow>
  32 word \<times> (string \<times> 'o report list) list \<Rightarrow> (32 word \<times> (string \<times> 'o report list) list) res" where
  "timeout_step es hash_map since e s =
     (if and (ev_hash e) hash_map \<noteq> 0 \<and> ev_id e > since then
        rbind (check_overlap es since e) (\<lambda>skip.
          Inr (if skip then s
            else (if ev_id e > fst s then ev_id e else fst s, push_back (ev_app e) (ev_report e) (snd s))))
      else Inr s)"

definition timeout :: "32 word \<Rightarrow> 32 word \<Rightarrow> 'o event_log \<Rightarrow> (32 word \<times> (string \<times> 'o report list) list) res" where
  "timeout hash_map since l =
     rbind (rfold (timeout_step (el_events l) hash_map since) (el_events l) (0, [])) (\<lambda>(last_event, result).
       Inr (if last_event = 0 then since else last_event, result))"

section \<open>The links between the events\<close>

definition numbered :: "('o \<Rightarrow> 32 word \<times> string) \<Rightarrow> 'o ev list \<Rightarrow> bool" where
  "numbered owner es = (\<forall>i < length es. ev_id (es ! i) = of_nat (Suc i) \<and>
     owner (ev_obj (es ! i)) = (ev_hash (es ! i), ev_app (es ! i)) \<and> ev_hash (es ! i) \<noteq> 0)"

definition deletes_ok :: "'o ev list \<Rightarrow> bool" where
  "deletes_ok es = (\<forall>i < length es. ev_type (es ! i) = Ev_delete \<longrightarrow>
     (\<exists>k < i. ev_brother (es ! i) = Some k \<and> ev_type (es ! k) = Ev_add \<and> ev_obj (es ! k) = ev_obj (es ! i) \<and> ev_brother (es ! k) = Some i))"

definition matched_ok :: "'o ev list \<Rightarrow> bool" where
  "matched_ok es = (\<forall>k < length es. \<forall>i. ev_type (es ! k) = Ev_add \<longrightarrow> ev_brother (es ! k) = Some i \<longrightarrow>
     k < i \<and> i < length es \<and> ev_type (es ! i) = Ev_delete \<and> ev_obj (es ! i) = ev_obj (es ! k) \<and> ev_brother (es ! i) = Some k)"

definition free_ok :: "'o ev list \<Rightarrow> 'o set \<Rightarrow> bool" where
  "free_ok es there = (\<forall>k < length es. ev_type (es ! k) = Ev_add \<longrightarrow> ev_brother (es ! k) = None \<longrightarrow> ev_obj (es ! k) \<in> there \<and>
     (\<forall>i < length es. k < i \<longrightarrow> ev_obj (es ! i) = ev_obj (es ! k) \<longrightarrow> ev_type (es ! i) = Ev_change))"

definition all_there :: "('o \<Rightarrow> 32 word \<times> string) \<Rightarrow> 'o ev list \<Rightarrow> 'o set \<Rightarrow> bool" where
  "all_there owner es there = (\<forall>obj \<in> there. fst (owner obj) \<noteq> 0 \<longrightarrow>
     (\<exists>k < length es. ev_obj (es ! k) = obj \<and> ev_type (es ! k) = Ev_add \<and> ev_brother (es ! k) = None))"

definition log_ok :: "('o \<Rightarrow> 32 word \<times> string) \<Rightarrow> 'o event_log \<Rightarrow> 'o set \<Rightarrow> bool" where
  "log_ok owner l there = (el_last l = of_nat (length (el_events l)) \<and> numbered owner (el_events l) \<and> deletes_ok (el_events l) \<and>
     matched_ok (el_events l) \<and> free_ok (el_events l) there \<and> all_there owner (el_events l) there)"

lemma log_okD:
  assumes "log_ok owner l there"
  shows "el_last l = of_nat (length (el_events l))"
    and "i < length (el_events l) \<Longrightarrow> ev_id (el_events l ! i) = of_nat (Suc i)"
    and "i < length (el_events l) \<Longrightarrow> owner (ev_obj (el_events l ! i)) = (ev_hash (el_events l ! i), ev_app (el_events l ! i))"
    and "i < length (el_events l) \<Longrightarrow> ev_hash (el_events l ! i) \<noteq> 0"
    and "i < length (el_events l) \<Longrightarrow> ev_type (el_events l ! i) = Ev_delete \<Longrightarrow>
      \<exists>k < i. ev_brother (el_events l ! i) = Some k \<and> ev_type (el_events l ! k) = Ev_add \<and>
        ev_obj (el_events l ! k) = ev_obj (el_events l ! i) \<and> ev_brother (el_events l ! k) = Some i"
    and "k < length (el_events l) \<Longrightarrow> ev_type (el_events l ! k) = Ev_add \<Longrightarrow> ev_brother (el_events l ! k) = Some i \<Longrightarrow>
      k < i \<and> i < length (el_events l) \<and> ev_type (el_events l ! i) = Ev_delete \<and> ev_obj (el_events l ! i) = ev_obj (el_events l ! k) \<and>
        ev_brother (el_events l ! i) = Some k"
    and "k < length (el_events l) \<Longrightarrow> ev_type (el_events l ! k) = Ev_add \<Longrightarrow> ev_brother (el_events l ! k) = None \<Longrightarrow> ev_obj (el_events l ! k) \<in> there"
    and "k < length (el_events l) \<Longrightarrow> ev_type (el_events l ! k) = Ev_add \<Longrightarrow> ev_brother (el_events l ! k) = None \<Longrightarrow>
      i < length (el_events l) \<Longrightarrow> k < i \<Longrightarrow> ev_obj (el_events l ! i) = ev_obj (el_events l ! k) \<Longrightarrow> ev_type (el_events l ! i) = Ev_change"
    and "obj \<in> there \<Longrightarrow> fst (owner obj) \<noteq> 0 \<Longrightarrow>
      \<exists>k < length (el_events l). ev_obj (el_events l ! k) = obj \<and> ev_type (el_events l ! k) = Ev_add \<and> ev_brother (el_events l ! k) = None"
proof -
  have a: "el_last l = of_nat (length (el_events l))" "numbered owner (el_events l)" "deletes_ok (el_events l)"
    "matched_ok (el_events l)" "free_ok (el_events l) there" "all_there owner (el_events l) there"
    using assms by (simp_all add: log_ok_def)
  show "el_last l = of_nat (length (el_events l))" by (rule a(1))
  show "i < length (el_events l) \<Longrightarrow> ev_id (el_events l ! i) = of_nat (Suc i)"
    "i < length (el_events l) \<Longrightarrow> owner (ev_obj (el_events l ! i)) = (ev_hash (el_events l ! i), ev_app (el_events l ! i))"
    "i < length (el_events l) \<Longrightarrow> ev_hash (el_events l ! i) \<noteq> 0"
    using a(2) by (simp_all add: numbered_def)
  show "i < length (el_events l) \<Longrightarrow> ev_type (el_events l ! i) = Ev_delete \<Longrightarrow>
      \<exists>k < i. ev_brother (el_events l ! i) = Some k \<and> ev_type (el_events l ! k) = Ev_add \<and>
        ev_obj (el_events l ! k) = ev_obj (el_events l ! i) \<and> ev_brother (el_events l ! k) = Some i"
    using a(3) by (simp add: deletes_ok_def)
  show "k < length (el_events l) \<Longrightarrow> ev_type (el_events l ! k) = Ev_add \<Longrightarrow> ev_brother (el_events l ! k) = Some i \<Longrightarrow>
      k < i \<and> i < length (el_events l) \<and> ev_type (el_events l ! i) = Ev_delete \<and> ev_obj (el_events l ! i) = ev_obj (el_events l ! k) \<and>
        ev_brother (el_events l ! i) = Some k"
    using a(4) unfolding matched_ok_def by blast
  show "k < length (el_events l) \<Longrightarrow> ev_type (el_events l ! k) = Ev_add \<Longrightarrow> ev_brother (el_events l ! k) = None \<Longrightarrow> ev_obj (el_events l ! k) \<in> there"
    "k < length (el_events l) \<Longrightarrow> ev_type (el_events l ! k) = Ev_add \<Longrightarrow> ev_brother (el_events l ! k) = None \<Longrightarrow>
      i < length (el_events l) \<Longrightarrow> k < i \<Longrightarrow> ev_obj (el_events l ! i) = ev_obj (el_events l ! k) \<Longrightarrow> ev_type (el_events l ! i) = Ev_change"
    using a(5) unfolding free_ok_def by blast+
  show "obj \<in> there \<Longrightarrow> fst (owner obj) \<noteq> 0 \<Longrightarrow>
      \<exists>k < length (el_events l). ev_obj (el_events l ! k) = obj \<and> ev_type (el_events l ! k) = Ev_add \<and> ev_brother (el_events l ! k) = None"
    using a(6) unfolding all_there_def by blast
qed

lemma log_ok_init: "log_ok owner el_init {}"
  by (simp add: log_ok_def el_init_def numbered_def deletes_ok_def matched_ok_def free_ok_def all_there_def)

text \<open>An event that is no deletion.\<close>

lemma log_ok_snoc:
  assumes ok: "log_ok owner l there" and app: "fst (owner obj) \<noteq> 0" and run: "add_to_event_list ty obj (owner obj) l = (l', res)"
    and ty: "ty = Ev_add \<and> obj \<notin> there \<and> there' = insert obj there \<or> ty = Ev_change \<and> there' = there"
  shows "log_ok owner l' there'"
proof -
  let ?es = "el_events l" and ?n = "length (el_events l)"
  define e where "e = \<lparr>ev_id = of_nat (Suc ?n), ev_type = ty, ev_obj = obj, ev_hash = fst (owner obj), ev_app = snd (owner obj), ev_brother = None\<rparr>"
  have "el_last l + 1 = of_nat (Suc ?n)" using log_okD(1) [OF ok] by simp
  then have l': "el_events l' = ?es @ [e]" "el_last l' = of_nat (Suc ?n)"
    using run app ty by (auto simp: add_to_event_list_def Let_def e_def)
  have old: "(?es @ [e]) ! i = ?es ! i" if "i < ?n" for i using that by (simp add: nth_append)
  have new: "(?es @ [e]) ! ?n = e" by simp
  have e: "ev_type e = ty" "ev_obj e = obj" "ev_brother e = None" "(ev_hash e, ev_app e) = owner obj" "ev_hash e \<noteq> 0" "ev_id e = of_nat (Suc ?n)"
    using app by (simp_all add: e_def)
  have less: "i < Suc ?n \<longleftrightarrow> i < ?n \<or> i = ?n" for i by auto
  have sub: "there \<subseteq> there'" using ty by auto
  have "numbered owner (?es @ [e])"
    unfolding numbered_def length_append_singleton less using log_okD(2,3,4) [OF ok] e by (auto simp: old)
  moreover have "deletes_ok (?es @ [e])"
    unfolding deletes_ok_def length_append_singleton less
  proof (intro allI impI)
    fix i assume "i < ?n \<or> i = ?n" "ev_type ((?es @ [e]) ! i) = Ev_delete"
    then have i: "i < ?n" "ev_type (?es ! i) = Ev_delete" using e ty by (auto simp: old)
    from log_okD(5) [OF ok this] obtain k where "k < i" "ev_brother (?es ! i) = Some k" "ev_type (?es ! k) = Ev_add"
      "ev_obj (?es ! k) = ev_obj (?es ! i)" "ev_brother (?es ! k) = Some i" by blast
    then show "\<exists>k<i. ev_brother ((?es @ [e]) ! i) = Some k \<and> ev_type ((?es @ [e]) ! k) = Ev_add \<and>
      ev_obj ((?es @ [e]) ! k) = ev_obj ((?es @ [e]) ! i) \<and> ev_brother ((?es @ [e]) ! k) = Some i"
      using i by (intro exI [of _ k]) (simp add: old)
  qed
  moreover have "matched_ok (?es @ [e])"
    unfolding matched_ok_def length_append_singleton less
  proof (intro allI impI)
    fix k i assume "k < ?n \<or> k = ?n" "ev_type ((?es @ [e]) ! k) = Ev_add" "ev_brother ((?es @ [e]) ! k) = Some i"
    then have k: "k < ?n" "ev_type (?es ! k) = Ev_add" "ev_brother (?es ! k) = Some i" using e by (auto simp: old)
    then show "k < i \<and> (i < ?n \<or> i = ?n) \<and> ev_type ((?es @ [e]) ! i) = Ev_delete \<and> ev_obj ((?es @ [e]) ! i) = ev_obj ((?es @ [e]) ! k) \<and>
      ev_brother ((?es @ [e]) ! i) = Some k"
      using log_okD(6) [OF ok k] by (simp add: old)
  qed
  moreover have "free_ok (?es @ [e]) there'"
    unfolding free_ok_def length_append_singleton less
  proof (intro allI impI)
    fix k assume k: "k < ?n \<or> k = ?n" "ev_type ((?es @ [e]) ! k) = Ev_add" "ev_brother ((?es @ [e]) ! k) = None"
    show "ev_obj ((?es @ [e]) ! k) \<in> there' \<and>
      (\<forall>i. i < ?n \<or> i = ?n \<longrightarrow> k < i \<longrightarrow> ev_obj ((?es @ [e]) ! i) = ev_obj ((?es @ [e]) ! k) \<longrightarrow> ev_type ((?es @ [e]) ! i) = Ev_change)"
    proof (cases "k = ?n")
      case True
      then show ?thesis using k e ty by auto
    next
      case False
      then have k': "k < ?n" "ev_type (?es ! k) = Ev_add" "ev_brother (?es ! k) = None" using k by (auto simp: old)
      note free = log_okD(7,8) [OF ok k']
      have "ev_type ((?es @ [e]) ! i) = Ev_change" if "i < ?n \<or> i = ?n" "k < i" "ev_obj ((?es @ [e]) ! i) = ev_obj (?es ! k)" for i
        using that free(2) [of i] free(1) ty e by (auto simp: old)
      then show ?thesis using free(1) sub k' by (auto simp: old)
    qed
  qed
  moreover have "all_there owner (?es @ [e]) there'"
    unfolding all_there_def length_append_singleton less
  proof (intro ballI impI)
    fix ob assume ob: "ob \<in> there'" "fst (owner ob) \<noteq> 0"
    show "\<exists>k. (k < ?n \<or> k = ?n) \<and> ev_obj ((?es @ [e]) ! k) = ob \<and> ev_type ((?es @ [e]) ! k) = Ev_add \<and> ev_brother ((?es @ [e]) ! k) = None"
    proof (cases "ob \<in> there")
      case True
      from log_okD(9) [OF ok this ob(2)] obtain k where "k < ?n" "ev_obj (?es ! k) = ob" "ev_type (?es ! k) = Ev_add" "ev_brother (?es ! k) = None"
        by blast
      then show ?thesis by (intro exI [of _ k]) (simp add: old)
    next
      case False
      then show ?thesis using ob(1) ty e by (intro exI [of _ ?n]) auto
    qed
  qed
  ultimately show ?thesis by (simp add: log_ok_def l')
qed

lemma find_brother_last:
  assumes "k < length es" "ev_obj (es ! k) = obj" "ev_type (es ! k) = Ev_add"
    "\<And>i. k < i \<Longrightarrow> i < length es \<Longrightarrow> ev_obj (es ! i) = obj \<Longrightarrow> ev_type (es ! i) \<noteq> Ev_add"
  shows "find_brother obj es = Some k"
proof -
  have u: "[0..<length es] = [0..<k] @ k # [Suc k..<length es]"
    using assms(1) by (metis upt_conv_Cons upt_add_eq_append le_add_diff_inverse less_imp_le zero_le add_0)
  have "find (\<lambda>i. ev_obj (es ! i) = obj \<and> ev_type (es ! i) = Ev_add) (rev [Suc k..<length es]) = None"
    using assms(4) by (auto simp: find_None_iff)
  then show ?thesis using assms(2,3) unfolding find_brother_def u by (simp add: find_append)
qed

text \<open>The deletion of an object that is there.\<close>

lemma log_ok_delete:
  assumes ok: "log_ok owner l there" and app: "fst (owner obj) \<noteq> 0" and obj: "obj \<in> there"
    and run: "add_to_event_list Ev_delete obj (owner obj) l = (l', res)"
  obtains k where "k < length (el_events l)" "ev_obj (el_events l ! k) = obj" "ev_type (el_events l ! k) = Ev_add" "ev_brother (el_events l ! k) = None"
    and "length (el_events l') = Suc (length (el_events l))" "log_ok owner l' (there - {obj})" "res = Inr ()"
    and "\<And>i. i < length (el_events l) \<Longrightarrow> i \<noteq> k \<Longrightarrow> el_events l' ! i = el_events l ! i"
    and "el_events l' ! k = (el_events l ! k)\<lparr>ev_brother := Some (length (el_events l))\<rparr>"
    and "ev_type (el_events l' ! length (el_events l)) = Ev_delete"
proof -
  let ?es = "el_events l" and ?n = "length (el_events l)"
  obtain k where k: "k < ?n" "ev_obj (?es ! k) = obj" "ev_type (?es ! k) = Ev_add" "ev_brother (?es ! k) = None"
    using log_okD(9) [OF ok obj app] by blast
  note free = log_okD(8) [OF ok k(1,3,4), unfolded k(2)]
  have fb: "find_brother obj ?es = Some k" by (rule find_brother_last [OF k(1,2,3)]) (use free in fastforce)
  define e where "e = \<lparr>ev_id = of_nat (Suc ?n), ev_type = Ev_delete, ev_obj = obj, ev_hash = fst (owner obj), ev_app = snd (owner obj), ev_brother = Some k\<rparr>"
  have "el_last l + 1 = of_nat (Suc ?n)" using log_okD(1) [OF ok] by simp
  then have l': "el_events l' = ?es[k := (?es ! k)\<lparr>ev_brother := Some ?n\<rparr>] @ [e]" "el_last l' = of_nat (Suc ?n)" "res = Inr ()"
    using run app fb by (auto simp: add_to_event_list_def Let_def e_def)
  let ?L = "el_events l'"
  have len: "length ?L = Suc ?n" by (simp add: l')
  have old: "?L ! i = ?es ! i" if "i < ?n" "i \<noteq> k" for i using that by (simp add: l' nth_append)
  have at: "?L ! k = (?es ! k)\<lparr>ev_brother := Some ?n\<rparr>" using k by (simp add: l' nth_append)
  have new: "?L ! ?n = e" by (simp add: l' nth_append)
  have same: "ev_type (?L ! i) = ev_type (?es ! i)" "ev_obj (?L ! i) = ev_obj (?es ! i)" "ev_id (?L ! i) = ev_id (?es ! i)"
    "ev_hash (?L ! i) = ev_hash (?es ! i)" "ev_app (?L ! i) = ev_app (?es ! i)" if "i < ?n" for i
    using that at by (cases "i = k"; simp add: old)+
  have bro: "ev_brother (?L ! i) = (if i = k then Some ?n else ev_brother (?es ! i))" if "i < ?n" for i
    using that at by (cases "i = k") (simp_all add: old)
  have e: "ev_type e = Ev_delete" "ev_obj e = obj" "ev_brother e = Some k" "(ev_hash e, ev_app e) = owner obj" "ev_hash e \<noteq> 0" "ev_id e = of_nat (Suc ?n)"
    using app by (simp_all add: e_def)
  have less: "i < Suc ?n \<longleftrightarrow> i < ?n \<or> i = ?n" for i by auto
  have "numbered owner ?L"
    unfolding numbered_def len less using log_okD(2,3,4) [OF ok] e new same by auto
  moreover have "deletes_ok ?L"
    unfolding deletes_ok_def len less
  proof (intro allI impI)
    fix i assume i: "i < ?n \<or> i = ?n" "ev_type (?L ! i) = Ev_delete"
    show "\<exists>k<i. ev_brother (?L ! i) = Some k \<and> ev_type (?L ! k) = Ev_add \<and> ev_obj (?L ! k) = ev_obj (?L ! i) \<and> ev_brother (?L ! k) = Some i"
    proof (cases "i = ?n")
      case True
      then show ?thesis using k e new same [OF k(1)] bro [OF k(1)] by auto
    next
      case False
      then have i': "i < ?n" "ev_type (?es ! i) = Ev_delete" using i same by auto
      from log_okD(5) [OF ok this] obtain j where j: "j < i" "ev_brother (?es ! i) = Some j" "ev_type (?es ! j) = Ev_add"
        "ev_obj (?es ! j) = ev_obj (?es ! i)" "ev_brother (?es ! j) = Some i" by blast
      have "j \<noteq> k" using j(5) k(4) by auto
      moreover have "i \<noteq> k" using i'(2) k(3) by auto
      ultimately show ?thesis using j i' same bro by (intro exI [of _ j]) simp
    qed
  qed
  moreover have "matched_ok ?L"
    unfolding matched_ok_def len less
  proof (intro allI impI)
    fix j i assume j: "j < ?n \<or> j = ?n" "ev_type (?L ! j) = Ev_add" "ev_brother (?L ! j) = Some i"
    then have j': "j < ?n" "ev_type (?es ! j) = Ev_add" using e new same by auto
    show "j < i \<and> (i < ?n \<or> i = ?n) \<and> ev_type (?L ! i) = Ev_delete \<and> ev_obj (?L ! i) = ev_obj (?L ! j) \<and> ev_brother (?L ! i) = Some j"
    proof (cases "j = k")
      case True
      then have "i = ?n" using j(3) bro [OF k(1)] by simp
      then show ?thesis using True k same [OF k(1)] new e by simp
    next
      case False
      then have b: "ev_brother (?es ! j) = Some i" using j(3) bro [OF j'(1)] by simp
      note s = log_okD(6) [OF ok j' b]
      then have "i \<noteq> k" using k(3) by auto
      then show ?thesis using s j' same bro by simp
    qed
  qed
  moreover have "free_ok ?L (there - {obj})"
    unfolding free_ok_def len less
  proof (intro allI impI)
    fix j assume j: "j < ?n \<or> j = ?n" "ev_type (?L ! j) = Ev_add" "ev_brother (?L ! j) = None"
    then have jn: "j < ?n" "ev_type (?es ! j) = Ev_add" using e new same by auto
    then have j': "j \<noteq> k" "ev_brother (?es ! j) = None" using j(3) bro [OF jn(1)] by (auto split: if_splits)
    note fr = log_okD(7,8) [OF ok jn j'(2)]
    have "ev_obj (?es ! j) \<noteq> obj"
    proof
      assume "ev_obj (?es ! j) = obj"
      then show False using free [of j] fr(2) [of k] k jn j'(1) by (cases j k rule: linorder_cases) auto
    qed
    then show "ev_obj (?L ! j) \<in> there - {obj} \<and>
      (\<forall>i. i < ?n \<or> i = ?n \<longrightarrow> j < i \<longrightarrow> ev_obj (?L ! i) = ev_obj (?L ! j) \<longrightarrow> ev_type (?L ! i) = Ev_change)"
      using jn fr same new e by auto
  qed
  moreover have "all_there owner ?L (there - {obj})"
    unfolding all_there_def len less
  proof (intro ballI impI)
    fix ob assume ob: "ob \<in> there - {obj}" "fst (owner ob) \<noteq> 0"
    then obtain j where "j < ?n" "ev_obj (?es ! j) = ob" "ev_type (?es ! j) = Ev_add" "ev_brother (?es ! j) = None"
      using log_okD(9) [OF ok _ ob(2)] by blast
    then show "\<exists>k. (k < ?n \<or> k = ?n) \<and> ev_obj (?L ! k) = ob \<and> ev_type (?L ! k) = Ev_add \<and> ev_brother (?L ! k) = None"
      using ob(1) k same bro by (intro exI [of _ j]) auto
  qed
  ultimately have "log_ok owner l' (there - {obj})" by (simp add: log_ok_def l' len)
  then show thesis using that [OF k len _ l'(3) old at] new e by simp
qed

end
