(* ===== verification/Event_Clients.thy ===== *)
theory Event_Clients
  imports Event_Log
begin

text \<open>
  Web clients of the event log: however rarely a client asks, it then shows exactly the objects
  that are there.
\<close>

section \<open>A web client\<close>

text \<open>The objects a client shows: it applies the reports of each application in their order.\<close>

definition see :: "'o report \<Rightarrow> 'o set \<Rightarrow> 'o set" where
  "see r shown = (case r of (i, ty, obj) \<Rightarrow> (case ty of
     Ev_add \<Rightarrow> insert obj shown | Ev_delete \<Rightarrow> shown - {obj} | Ev_change \<Rightarrow> shown))"

definition see_all :: "(string \<times> 'o report list) list \<Rightarrow> 'o set \<Rightarrow> 'o set" where
  "see_all result = fold see (concat (map snd result))"

text \<open>
  Objects that appear and disappear while a client asks now and then. Each object belongs to one
  application; it appears when it is not there and disappears when it is.
\<close>

inductive polled :: "('o \<Rightarrow> 32 word \<times> string) \<Rightarrow> 32 word \<Rightarrow> 'o event_log \<Rightarrow> 'o set \<Rightarrow> 32 word \<Rightarrow> 'o set \<Rightarrow> bool"
  for owner hash_map where
  start: "polled owner hash_map el_init {} 0 {}"
| appears: "polled owner hash_map l there since shown \<Longrightarrow> obj \<notin> there \<Longrightarrow>
    add_to_event_list Ev_add obj (owner obj) l = (l', res) \<Longrightarrow> polled owner hash_map l' (insert obj there) since shown"
| changes: "polled owner hash_map l there since shown \<Longrightarrow>
    add_to_event_list Ev_change obj (owner obj) l = (l', res) \<Longrightarrow> polled owner hash_map l' there since shown"
| disappears: "polled owner hash_map l there since shown \<Longrightarrow> obj \<in> there \<Longrightarrow>
    add_to_event_list Ev_delete obj (owner obj) l = (l', res) \<Longrightarrow> polled owner hash_map l' (there - {obj}) since shown"
| asks: "polled owner hash_map l there since shown \<Longrightarrow>
    timeout hash_map since l = Inr (since', result) \<Longrightarrow> polled owner hash_map l there since' (see_all result shown)"



section \<open>What is reported\<close>

text \<open>The events that are reported when the first \<open>n\<close> are known.\<close>

definition reported :: "32 word \<Rightarrow> nat \<Rightarrow> 'o ev list \<Rightarrow> nat \<Rightarrow> bool" where
  "reported hash_map n es i = (and (ev_hash (es ! i)) hash_map \<noteq> 0 \<and> n \<le> i \<and> (case ev_type (es ! i) of
     Ev_add \<Rightarrow> ev_brother (es ! i) = None
   | Ev_delete \<Rightarrow> (case ev_brother (es ! i) of None \<Rightarrow> False | Some k \<Rightarrow> k < n)
   | Ev_change \<Rightarrow> True))"

definition report_step :: "'o ev list \<Rightarrow> nat \<Rightarrow> 32 word \<times> (string \<times> 'o report list) list \<Rightarrow> 32 word \<times> (string \<times> 'o report list) list" where
  "report_step es i s = (of_nat (Suc i), push_back (ev_app (es ! i)) (ev_report (es ! i)) (snd s))"

lemma unat_small: "n < 2 ^ 32 \<Longrightarrow> unat (of_nat n :: 32 word) = n"
  by (simp add: unat_of_nat)

lemma id_le:
  assumes "log_ok owner l there" "length (el_events l) < 2 ^ 32" "i < length (el_events l)"
  shows "ev_id (el_events l ! i) \<le> since \<longleftrightarrow> i < unat since"
proof -
  have "unat (of_nat (Suc i) :: 32 word) = Suc i" using assms(2,3) by (intro unat_small) simp
  then show ?thesis using log_okD(2) [OF assms(1,3)] by (simp add: word_le_nat_alt Suc_le_eq)
qed

lemma timeout_step_reported:
  assumes ok: "log_ok owner l there" "length (el_events l) < 2 ^ 32" and m: "m < length (el_events l)"
    and s: "fst s < ev_id (el_events l ! m)"
  shows "timeout_step (el_events l) hash_map since (el_events l ! m) s =
    Inr (if reported hash_map (unat since) (el_events l) m then report_step (el_events l) m s else s)"
proof -
  let ?es = "el_events l" and ?e = "el_events l ! m"
  note le = id_le [OF ok]
  have new: "report_step ?es m s = (ev_id ?e, push_back (ev_app ?e) (ev_report ?e) (snd s))"
    using log_okD(2) [OF ok(1) m] by (simp add: report_step_def)
  show ?thesis
  proof (cases "and (ev_hash ?e) hash_map \<noteq> 0 \<and> unat since \<le> m")
    case True
    then have c: "and (ev_hash ?e) hash_map \<noteq> 0" "unat since \<le> m" "since < ev_id ?e" using le [OF m] by (simp_all add: not_le [symmetric])
    have "check_overlap ?es since ?e = Inr (\<not> reported hash_map (unat since) ?es m)"
    proof (cases "ev_type ?e")
      case Ev_delete
      from log_okD(5) [OF ok(1) m this] obtain k where "k < m" "ev_brother ?e = Some k" by blast
      then show ?thesis using c(1,2) Ev_delete le [of k since] m by (simp add: check_overlap_def reported_def)
    qed (use c in \<open>simp_all add: check_overlap_def reported_def\<close>)
    then show ?thesis using c s unfolding timeout_step_def new by simp
  next
    case False
    then have "and (ev_hash ?e) hash_map = 0 \<or> ev_id ?e \<le> since" using le [OF m] by auto
    then show ?thesis using False by (auto simp: timeout_step_def reported_def)
  qed
qed

lemma timeout_steps:
  assumes ok: "log_ok owner l there" "length (el_events l) < 2 ^ 32"
    and "m \<le> length (el_events l)"
  shows "rfold (timeout_step (el_events l) hash_map since) (take m (el_events l)) (0, []) =
    Inr (fold (report_step (el_events l)) (filter (reported hash_map (unat since) (el_events l)) [0..<m]) (0, []))"
  using assms(3)
proof (induction m)
  case (Suc m)
  let ?es = "el_events l" and ?R = "reported hash_map (unat since) (el_events l)"
  let ?S = "fold (report_step ?es) (filter ?R [0..<m]) (0, [])"
  have m: "m < length ?es" using Suc.prems by simp
  have u: "unat (of_nat (Suc i) :: 32 word) = Suc i" if "i \<le> m" for i using that m ok(2) by (intro unat_small) simp
  have idm: "ev_id (?es ! m) = of_nat (Suc m)" by (rule log_okD(2) [OF ok(1) m])
  have "fst ?S < ev_id (?es ! m)"
  proof (cases "filter ?R [0..<m]" rule: rev_cases)
    case Nil
    then show ?thesis using u [of m] idm by (simp add: word_less_nat_alt del: of_nat_Suc)
  next
    case (snoc xs k)
    then have "k \<in> set (filter ?R [0..<m])" by simp
    then have k: "k < m" by simp
    have "fst ?S = of_nat (Suc k)" unfolding snoc by (simp add: report_step_def)
    then show ?thesis using u [of m] u [of k] k idm by (simp add: word_less_nat_alt del: of_nat_Suc)
  qed
  then have "timeout_step ?es hash_map since (?es ! m) ?S = Inr (if ?R m then report_step ?es m ?S else ?S)"
    by (rule timeout_step_reported [OF ok m])
  moreover have "take (Suc m) ?es = take m ?es @ [?es ! m]" by (rule take_Suc_conv_app_nth [OF m])
  ultimately show ?case using Suc.IH m by (simp add: rfold_append)
qed simp

text \<open>The reports of one object are in one list, in their order.\<close>

definition by_app :: "('o \<Rightarrow> 32 word \<times> string) \<Rightarrow> (string \<times> 'o report list) list \<Rightarrow> bool" where
  "by_app owner rs = (distinct (map fst rs) \<and> (\<forall>(a, vs) \<in> set rs. \<forall>r \<in> set vs. snd (owner (snd (snd r))) = a))"

abbreviation of_obj :: "'o \<Rightarrow> 'o report \<Rightarrow> bool" where
  "of_obj obj r \<equiv> snd (snd r) = obj"

lemma push_back_keys: "fst ` set (push_back k v rs) = insert k (fst ` set rs)"
  by (induction k v rs rule: push_back.induct) auto

lemma push_back_by_app: "by_app owner rs \<Longrightarrow> a = snd (owner (snd (snd r))) \<Longrightarrow> by_app owner (push_back a r rs)"
proof (induction rs)
  case (Cons x rs)
  obtain b vs where x: "x = (b, vs)" by (cases x)
  have "b \<notin> fst ` set (push_back a r rs)" if "b \<noteq> a" using that Cons.prems(1) x push_back_keys [of a r rs] by (auto simp: by_app_def)
  then show ?case using Cons x by (auto simp: by_app_def)
qed (auto simp: by_app_def)

lemma push_back_filter:
  assumes "by_app owner rs" "a = snd (owner (snd (snd r)))"
  shows "filter (of_obj obj) (concat (map snd (push_back a r rs))) = filter (of_obj obj) (concat (map snd rs)) @ filter (of_obj obj) [r]"
  using assms
proof (induction rs)
  case (Cons x rs)
  obtain b vs where x: "x = (b, vs)" by (cases x)
  have rs: "by_app owner rs" using Cons.prems(1) by (simp add: by_app_def)
  show ?case
  proof (cases "b = a \<and> snd (snd r) = obj")
    case True
    have "\<not> of_obj obj r'" if "c \<in> set rs" "r' \<in> set (snd c)" for c r'
    proof -
      have "fst c \<noteq> b" "snd (owner (snd (snd r'))) = fst c" using Cons.prems(1) x that by (auto simp: by_app_def image_iff)
      then show ?thesis using True Cons.prems(2) by auto
    qed
    then have "filter (of_obj obj) (concat (map snd rs)) = []" by (auto simp: filter_empty_conv)
    then show ?thesis using True x by simp
  next
    case False
    then show ?thesis using Cons.IH [OF rs Cons.prems(2)] x by auto
  qed
qed simp

lemma reports_by_obj:
  assumes "log_ok owner l there" "set is \<subseteq> {..<length (el_events l)}"
  shows "by_app owner (snd (fold (report_step (el_events l)) is (0, []))) \<and>
    filter (of_obj obj) (concat (map snd (snd (fold (report_step (el_events l)) is (0, []))))) =
      map (\<lambda>i. ev_report (el_events l ! i)) (filter (\<lambda>i. ev_obj (el_events l ! i) = obj) is)"
  using assms(2)
proof (induction "is" rule: rev_induct)
  case Nil
  show ?case by (simp add: by_app_def)
next
  case (snoc i js)
  then have i: "i < length (el_events l)" by simp
  have a: "ev_app (el_events l ! i) = snd (owner (snd (snd (ev_report (el_events l ! i)))))"
    using log_okD(3) [OF assms(1) i] by (simp add: ev_report_def)
  have ih: "by_app owner (snd (fold (report_step (el_events l)) js (0, [])))" using snoc by simp
  show ?case using snoc push_back_by_app [OF ih a] push_back_filter [OF ih a, of obj] by (simp add: report_step_def [of _ i]) (simp add: ev_report_def)
qed

text \<open>What \<open>timeout\<close> returns.\<close>

lemma timeout_reports:
  assumes ok: "log_ok owner l there" "length (el_events l) < 2 ^ 32" and since: "unat since \<le> length (el_events l)"
  obtains since' result where "timeout hash_map since l = Inr (since', result)"
    "\<And>obj. filter (of_obj obj) (concat (map snd result)) = map (\<lambda>i. ev_report (el_events l ! i))
       (filter (\<lambda>i. reported hash_map (unat since) (el_events l) i \<and> ev_obj (el_events l ! i) = obj) [0..<length (el_events l)])"
    "unat since \<le> unat since'" "unat since' \<le> length (el_events l)"
    "\<And>i. i < length (el_events l) \<Longrightarrow> reported hash_map (unat since) (el_events l) i \<Longrightarrow> i < unat since'"
proof -
  let ?es = "el_events l" and ?n = "length (el_events l)"
  define js where "js = filter (reported hash_map (unat since) ?es) [0..<?n]"
  define s where "s = fold (report_step ?es) js (0, [])"
  have js: "set js \<subseteq> {..<?n}" by (auto simp: js_def)
  have u: "unat (of_nat (Suc i) :: 32 word) = Suc i" if "i < ?n" for i using that ok(2) by (intro unat_small) simp
  have run: "timeout hash_map since l = Inr (if fst s = 0 then since else fst s, snd s)"
    using timeout_steps [OF ok order_refl, of hash_map since] by (simp add: timeout_def s_def js_def split_beta)
  have reports: "filter (of_obj obj) (concat (map snd (snd s))) = map (\<lambda>i. ev_report (?es ! i))
       (filter (\<lambda>i. reported hash_map (unat since) ?es i \<and> ev_obj (?es ! i) = obj) [0..<?n])" for obj
    using reports_by_obj [OF ok(1) js, of obj] unfolding s_def js_def by (simp add: conj_commute)
  show thesis
  proof (cases js rule: rev_cases)
    case Nil
    have "\<not> reported hash_map (unat since) ?es i" if "i < ?n" for i
    proof
      assume "reported hash_map (unat since) ?es i"
      then have "i \<in> set js" using that by (simp add: js_def)
      then show False using Nil by simp
    qed
    moreover have "fst s = 0" using Nil by (simp add: s_def)
    ultimately show ?thesis using that [OF run reports] since by simp
  next
    case (snoc ks k)
    have k: "k \<in> set js" using snoc by simp
    then have kn: "k < ?n" "unat since \<le> k" by (auto simp: js_def reported_def)
    have f: "fst s = of_nat (Suc k)" using snoc by (simp add: s_def report_step_def)
    have uf: "unat (fst s) = Suc k" using u [OF kn(1)] f by simp
    then have f0: "fst s \<noteq> 0" by auto
    have "i \<le> k" if "i < ?n" "reported hash_map (unat since) ?es i" for i
    proof -
      have "sorted js" by (simp add: js_def sorted_wrt_filter)
      moreover have "i \<in> set js" using that by (simp add: js_def)
      ultimately show ?thesis using snoc by (auto simp: sorted_append)
    qed
    then show ?thesis using that [OF run reports] uf f0 kn by (simp add: less_Suc_eq_le)
  qed
qed


section \<open>What a client shows\<close>

lemma see_of_obj: "obj \<in> fold see rs shown \<longleftrightarrow> obj \<in> fold see (filter (of_obj obj) rs) shown"
proof (induction rs arbitrary: shown)
  case (Cons r rs)
  have same: "obj \<in> fold see xs A \<longleftrightarrow> obj \<in> fold see xs B" if "obj \<in> A \<longleftrightarrow> obj \<in> B" for xs A B
    using that
  proof (induction xs arbitrary: A B)
    case (Cons x xs)
    have "obj \<in> see x A \<longleftrightarrow> obj \<in> see x B" using Cons.prems by (cases x; cases "fst (snd x)") (auto simp: see_def)
    from Cons.IH [OF this] show ?case by simp
  qed simp
  show ?case
  proof (cases "of_obj obj r")
    case False
    then have "obj \<in> see r shown \<longleftrightarrow> obj \<in> shown" by (auto simp: see_def split: ev_type.splits)
    then show ?thesis using Cons.IH [of shown] same [of "see r shown" shown rs] False by simp
  qed (use Cons.IH in simp)
qed simp

lemma see_changes: "\<forall>r \<in> set rs. fst (snd r) = Ev_change \<Longrightarrow> fold see rs shown = shown"
  by (induction rs arbitrary: shown) (auto simp: see_def split: ev_type.splits)

lemma see_no_add: "\<forall>r \<in> set rs. fst (snd r) \<noteq> Ev_add \<Longrightarrow>
  obj \<in> fold see rs shown \<longleftrightarrow> obj \<in> shown \<and> (\<forall>r \<in> set rs. fst (snd r) = Ev_delete \<longrightarrow> \<not> of_obj obj r)"
  by (induction rs arbitrary: shown) (auto simp: see_def split: ev_type.splits)

text \<open>
  A client that asked before: an object it shows was there at its last question, and an object that
  has been there since is shown.
\<close>

definition shown_ok :: "('o \<Rightarrow> 32 word \<times> string) \<Rightarrow> 32 word \<Rightarrow> 'o event_log \<Rightarrow> 32 word \<Rightarrow> 'o set \<Rightarrow> bool" where
  "shown_ok owner hash_map l since shown = (unat since \<le> length (el_events l) \<and>
     (\<forall>obj \<in> shown. and (fst (owner obj)) hash_map \<noteq> 0 \<and>
        (\<exists>k < unat since. ev_obj (el_events l ! k) = obj \<and> ev_type (el_events l ! k) = Ev_add \<and>
           (\<forall>i. ev_brother (el_events l ! k) = Some i \<longrightarrow> unat since \<le> i))) \<and>
     (\<forall>k < unat since. ev_type (el_events l ! k) = Ev_add \<and> ev_brother (el_events l ! k) = None \<and>
        and (ev_hash (el_events l ! k)) hash_map \<noteq> 0 \<longrightarrow> ev_obj (el_events l ! k) \<in> shown))"

lemma asks_shows:
  assumes ok: "log_ok owner l there" "length (el_events l) < 2 ^ 32" and s: "shown_ok owner hash_map l since shown"
  obtains since' result where "timeout hash_map since l = Inr (since', result)"
    "see_all result shown = {obj \<in> there. and (fst (owner obj)) hash_map \<noteq> 0}"
    "shown_ok owner hash_map l since' (see_all result shown)"
proof -
  let ?es = "el_events l" and ?n = "length (el_events l)" and ?s = "unat since"
  have sn: "?s \<le> ?n" using s by (simp add: shown_ok_def)
  obtain since' result where t: "timeout hash_map since l = Inr (since', result)"
    "\<And>obj. filter (of_obj obj) (concat (map snd result)) = map (\<lambda>i. ev_report (?es ! i))
       (filter (\<lambda>i. reported hash_map ?s ?es i \<and> ev_obj (?es ! i) = obj) [0..<?n])"
    "?s \<le> unat since'" "unat since' \<le> ?n"
    "\<And>i. i < ?n \<Longrightarrow> reported hash_map ?s ?es i \<Longrightarrow> i < unat since'"
    using timeout_reports [OF ok sn] by blast
  let ?R = "\<lambda>obj i. reported hash_map ?s ?es i \<and> ev_obj (?es ! i) = obj"
  have mem: "obj \<in> see_all result shown \<longleftrightarrow> obj \<in> fold see (map (\<lambda>i. ev_report (?es ! i)) (filter (?R obj) [0..<?n])) shown" for obj
    unfolding see_all_def by (subst see_of_obj) (simp add: t(2))
  have here: "obj \<in> see_all result shown"
    if k: "k < ?n" "ev_obj (?es ! k) = obj" "ev_type (?es ! k) = Ev_add" "ev_brother (?es ! k) = None"
      and h: "and (fst (owner obj)) hash_map \<noteq> 0" for obj k
  proof -
    have hk: "and (ev_hash (?es ! k)) hash_map \<noteq> 0" using h log_okD(3) [OF ok(1) k(1)] k(2) by simp
    note free = log_okD(8) [OF ok(1) k(1,3,4), unfolded k(2)]
    have change: "\<forall>r \<in> set (map (\<lambda>i. ev_report (?es ! i)) (filter (?R obj) js)). fst (snd r) = Ev_change"
      if "\<forall>i \<in> set js. k < i \<and> i < ?n" for js
      using that free by (auto simp: ev_report_def)
    show ?thesis
    proof (cases "?s \<le> k")
      case True
      have u: "[0..<?n] = [0..<k] @ k # [Suc k..<?n]" using k(1)
        by (metis upt_conv_Cons upt_add_eq_append le_add_diff_inverse less_imp_le zero_le add_0)
      have "?R obj k" using True hk k by (simp add: reported_def)
      moreover have "\<forall>i \<in> set [Suc k..<?n]. k < i \<and> i < ?n" by auto
      ultimately show ?thesis unfolding mem u using change [of "[Suc k..<?n]"] k
        by (simp add: see_changes) (simp add: see_def ev_report_def)
    next
      case False
      then have sh: "obj \<in> shown" using s k hk unfolding shown_ok_def by auto
      have "filter (?R obj) [0..<?n] = filter (?R obj) (filter (\<lambda>i. k < i) [0..<?n])"
        using False by (auto simp: reported_def intro!: filter_cong)
      then show ?thesis unfolding mem using change [of "filter (\<lambda>i. k < i) [0..<?n]"] sh by (simp add: see_changes)
    qed
  qed
  have gone: "obj \<notin> see_all result shown" if obj: "obj \<notin> there \<or> and (fst (owner obj)) hash_map = 0" for obj
  proof
    assume sh: "obj \<in> see_all result shown"
    have "fst (snd r) \<noteq> Ev_add" if r: "r \<in> set (map (\<lambda>i. ev_report (?es ! i)) (filter (?R obj) [0..<?n]))" for r
    proof
      assume "fst (snd r) = Ev_add"
      then obtain i where i: "i < ?n" "?R obj i" "ev_type (?es ! i) = Ev_add" using r by (auto simp: ev_report_def)
      then have "ev_brother (?es ! i) = None" "and (ev_hash (?es ! i)) hash_map \<noteq> 0" by (auto simp: reported_def)
      then show False using obj log_okD(7) [OF ok(1) i(1,3)] log_okD(3) [OF ok(1) i(1)] i(2) by auto
    qed
    from sh [unfolded mem] this have d: "obj \<in> shown"
      "\<forall>r \<in> set (map (\<lambda>i. ev_report (?es ! i)) (filter (?R obj) [0..<?n])). fst (snd r) = Ev_delete \<longrightarrow> \<not> of_obj obj r"
      by (simp_all add: see_no_add)
    then obtain k where k: "k < ?s" "ev_obj (?es ! k) = obj" "ev_type (?es ! k) = Ev_add"
      "\<And>i. ev_brother (?es ! k) = Some i \<Longrightarrow> ?s \<le> i" and h: "and (fst (owner obj)) hash_map \<noteq> 0"
      using s unfolding shown_ok_def by blast
    have kn: "k < ?n" using k(1) sn by simp
    have "ev_brother (?es ! k) \<noteq> None" using log_okD(7) [OF ok(1) kn k(3)] k(2) obj h by auto
    then obtain i where i: "ev_brother (?es ! k) = Some i" by auto
    note m = log_okD(6) [OF ok(1) kn k(3) i]
    have "and (ev_hash (?es ! i)) hash_map \<noteq> 0" using h log_okD(3) [OF ok(1), of i] m k(2) by auto
    then have "?R obj i" using m k(1,2) k(4) [OF i] by (simp add: reported_def)
    then have "ev_report (?es ! i) \<in> set (map (\<lambda>i. ev_report (?es ! i)) (filter (?R obj) [0..<?n]))" using m by auto
    with d(2) m k(2) show False by (auto simp: ev_report_def)
  qed
  have view: "see_all result shown = {obj \<in> there. and (fst (owner obj)) hash_map \<noteq> 0}"
  proof (intro equalityI subsetI)
    show "obj \<in> {obj \<in> there. and (fst (owner obj)) hash_map \<noteq> 0}" if "obj \<in> see_all result shown" for obj
      using gone [of obj] that by auto
    show "obj \<in> see_all result shown" if "obj \<in> {obj \<in> there. and (fst (owner obj)) hash_map \<noteq> 0}" for obj
    proof -
      have o: "obj \<in> there" "fst (owner obj) \<noteq> 0" "and (fst (owner obj)) hash_map \<noteq> 0" using that by auto
      from log_okD(9) [OF ok(1) o(1,2)] o(3) show ?thesis using here by blast
    qed
  qed
  have "shown_ok owner hash_map l since' (see_all result shown)"
    unfolding shown_ok_def
  proof (intro conjI ballI allI impI)
    show "unat since' \<le> ?n" by (rule t(4))
  next
    fix obj assume obj: "obj \<in> see_all result shown"
    then have o: "obj \<in> there" "and (fst (owner obj)) hash_map \<noteq> 0" using view by auto
    then show "and (fst (owner obj)) hash_map \<noteq> 0" by simp
    have "fst (owner obj) \<noteq> 0" using o(2) by auto
    from log_okD(9) [OF ok(1) o(1) this] obtain k where k: "k < ?n" "ev_obj (?es ! k) = obj" "ev_type (?es ! k) = Ev_add" "ev_brother (?es ! k) = None"
      by blast
    have "k < unat since'"
    proof (cases "?s \<le> k")
      case True
      then have "reported hash_map ?s ?es k" using k o(2) log_okD(3) [OF ok(1) k(1)] by (simp add: reported_def)
      then show ?thesis by (rule t(5) [OF k(1)])
    qed (use t(3) in simp)
    then show "\<exists>k<unat since'. ev_obj (?es ! k) = obj \<and> ev_type (?es ! k) = Ev_add \<and>
      (\<forall>i. ev_brother (?es ! k) = Some i \<longrightarrow> unat since' \<le> i)" using k by (intro exI [of _ k]) simp
  next
    fix k assume "k < unat since'" "ev_type (?es ! k) = Ev_add \<and> ev_brother (?es ! k) = None \<and> and (ev_hash (?es ! k)) hash_map \<noteq> 0"
    then have k: "k < ?n" "ev_type (?es ! k) = Ev_add" "ev_brother (?es ! k) = None" "and (ev_hash (?es ! k)) hash_map \<noteq> 0"
      using t(4) by auto
    then show "ev_obj (?es ! k) \<in> see_all result shown"
      using view log_okD(7) [OF ok(1) k(1-3)] log_okD(3) [OF ok(1) k(1)] by simp
  qed
  then show thesis by (rule that [OF t(1) view])
qed


section \<open>Every client catches up\<close>

lemma log_ok_unlogged:
  assumes "log_ok owner l there" "fst (owner obj) = 0"
  shows "log_ok owner l (insert obj there)" "log_ok owner l (there - {obj})"
proof -
  have "ev_obj (el_events l ! k) \<noteq> obj" if "k < length (el_events l)" for k
    using log_okD(3,4) [OF assms(1) that] assms(2) by auto
  then show "log_ok owner l (insert obj there)" "log_ok owner l (there - {obj})"
    using assms unfolding log_ok_def free_ok_def all_there_def by auto
qed

lemma shown_ok_grows:
  assumes "shown_ok owner hash_map l since shown" "length (el_events l) \<le> length (el_events l')"
    and "\<And>i. i < length (el_events l) \<Longrightarrow> ev_obj (el_events l' ! i) = ev_obj (el_events l ! i) \<and> ev_type (el_events l' ! i) = ev_type (el_events l ! i) \<and>
      ev_hash (el_events l' ! i) = ev_hash (el_events l ! i) \<and>
      (ev_brother (el_events l' ! i) = ev_brother (el_events l ! i) \<or>
       ev_brother (el_events l ! i) = None \<and> ev_brother (el_events l' ! i) = Some (length (el_events l)))"
  shows "shown_ok owner hash_map l' since shown"
proof -
  have sn: "unat since \<le> length (el_events l)" using assms(1) by (simp add: shown_ok_def)
  have same: "ev_obj (el_events l' ! i) = ev_obj (el_events l ! i)" "ev_type (el_events l' ! i) = ev_type (el_events l ! i)"
    "ev_hash (el_events l' ! i) = ev_hash (el_events l ! i)"
    "ev_brother (el_events l' ! i) = None \<Longrightarrow> ev_brother (el_events l ! i) = None"
    "ev_brother (el_events l' ! i) = Some j \<Longrightarrow> ev_brother (el_events l ! i) = Some j \<or> unat since \<le> j" if "i < unat since" for i j
    using assms(3) [of i] that sn by auto
  have "\<exists>k < unat since. ev_obj (el_events l' ! k) = obj \<and> ev_type (el_events l' ! k) = Ev_add \<and>
           (\<forall>i. ev_brother (el_events l' ! k) = Some i \<longrightarrow> unat since \<le> i)" if obj: "obj \<in> shown" for obj
  proof -
    obtain k where k: "k < unat since" "ev_obj (el_events l ! k) = obj" "ev_type (el_events l ! k) = Ev_add"
      "\<forall>i. ev_brother (el_events l ! k) = Some i \<longrightarrow> unat since \<le> i" using assms(1) obj unfolding shown_ok_def by blast
    then show ?thesis using same [OF k(1)] by (intro exI [of _ k]) auto
  qed
  then show ?thesis using assms(1,2) same unfolding shown_ok_def by auto
qed

lemma add_event:
  assumes "add_to_event_list ty obj app l = (l', res)" "ty \<noteq> Ev_delete"
  shows "res = Inr ()" "fst app = 0 \<and> l' = l \<or> fst app \<noteq> 0 \<and> (\<exists>e. el_events l' = el_events l @ [e])"
  using assms by (auto simp: add_to_event_list_def Let_def split: if_splits)

lemma polled_ok:
  assumes "polled owner hash_map l there since shown" "length (el_events l) < 2 ^ 32"
  shows "log_ok owner l there \<and> shown_ok owner hash_map l since shown"
  using assms
proof (induction rule: polled.induct)
  case start
  show ?case using log_ok_init [of owner] by (simp add: shown_ok_def el_init_def)
next
  case (appears l there since shown obj l' res)
  note new = add_event [OF appears.hyps(3), simplified]
  have "length (el_events l) \<le> length (el_events l')" using new(2) by auto
  with appears have ih: "log_ok owner l there" "shown_ok owner hash_map l since shown" by simp_all
  show ?case
  proof (cases "fst (owner obj) = 0")
    case True
    then show ?thesis using ih log_ok_unlogged new by auto
  next
    case False
    then obtain e where e: "el_events l' = el_events l @ [e]" using new(2) by blast
    have "log_ok owner l' (insert obj there)" by (rule log_ok_snoc [OF ih(1) False appears.hyps(3)]) (use appears.hyps(2) in simp)
    moreover have "shown_ok owner hash_map l' since shown" by (rule shown_ok_grows [OF ih(2)]) (simp_all add: e nth_append)
    ultimately show ?thesis ..
  qed
next
  case (changes l there since shown obj l' res)
  note new = add_event [OF changes.hyps(2), simplified]
  have "length (el_events l) \<le> length (el_events l')" using new(2) by auto
  with changes have ih: "log_ok owner l there" "shown_ok owner hash_map l since shown" by simp_all
  show ?case
  proof (cases "fst (owner obj) = 0")
    case True
    then show ?thesis using ih new by auto
  next
    case False
    then obtain e where e: "el_events l' = el_events l @ [e]" using new(2) by blast
    have "log_ok owner l' there" by (rule log_ok_snoc [OF ih(1) False changes.hyps(2)]) simp
    moreover have "shown_ok owner hash_map l' since shown" by (rule shown_ok_grows [OF ih(2)]) (simp_all add: e nth_append)
    ultimately show ?thesis ..
  qed
next
  case (disappears l there since shown obj l' res)
  show ?case
  proof (cases "fst (owner obj) = 0")
    case True
    then have "l' = l" using disappears.hyps(3) by (simp add: add_to_event_list_def)
    then show ?thesis using disappears log_ok_unlogged(2) [where owner = owner and obj = obj] True by auto
  next
    case False
    have "length (el_events l) \<le> length (el_events l')"
      using disappears.hyps(3) by (auto simp: add_to_event_list_def Let_def split: if_splits option.splits)
    with disappears have ih: "log_ok owner l there" "shown_ok owner hash_map l since shown" by simp_all
    obtain k where k: "ev_brother (el_events l ! k) = None" "length (el_events l') = Suc (length (el_events l))"
      "log_ok owner l' (there - {obj})" "\<And>i. i < length (el_events l) \<Longrightarrow> i \<noteq> k \<Longrightarrow> el_events l' ! i = el_events l ! i"
      "el_events l' ! k = (el_events l ! k)\<lparr>ev_brother := Some (length (el_events l))\<rparr>"
      by (rule log_ok_delete [OF ih(1) False disappears.hyps(2,3)]) (rule that)
    have "shown_ok owner hash_map l' since shown"
    proof (rule shown_ok_grows [OF ih(2)])
      show "length (el_events l) \<le> length (el_events l')" by (simp add: k(2))
      show "ev_obj (el_events l' ! i) = ev_obj (el_events l ! i) \<and> ev_type (el_events l' ! i) = ev_type (el_events l ! i) \<and>
          ev_hash (el_events l' ! i) = ev_hash (el_events l ! i) \<and>
          (ev_brother (el_events l' ! i) = ev_brother (el_events l ! i) \<or>
           ev_brother (el_events l ! i) = None \<and> ev_brother (el_events l' ! i) = Some (length (el_events l)))"
        if "i < length (el_events l)" for i
        using that k by (cases "i = k") simp_all
    qed
    with k(3) show ?thesis ..
  qed
next
  case (asks l there since shown since' result)
  have ih: "log_ok owner l there" "shown_ok owner hash_map l since shown" using asks by simp_all
  obtain s r where t: "timeout hash_map since l = Inr (s, r)" "shown_ok owner hash_map l s (see_all r shown)"
    by (rule asks_shows [OF ih(1) asks.prems ih(2)])
  then show ?case using asks.hyps(2) ih(1) by simp
qed

lemma deletion_found:
  assumes "polled owner hash_map l there since shown" "length (el_events l) < 2 ^ 32" "obj \<in> there"
  shows "snd (add_to_event_list Ev_delete obj (owner obj) l) = Inr ()"
proof (cases "fst (owner obj) = 0")
  case False
  obtain l' res where run: "add_to_event_list Ev_delete obj (owner obj) l = (l', res)" by fastforce
  have "res = Inr ()"
    by (rule log_ok_delete [where owner = owner and obj = obj, OF _ False assms(3) run]) (use polled_ok [OF assms(1,2)] in simp_all)
  then show ?thesis by (simp add: run)
qed (simp add: add_to_event_list_def)

lemma client_shows:
  assumes "polled owner hash_map l there since shown" "length (el_events l) < 2 ^ 32"
  shows "\<exists>since' result. timeout hash_map since l = Inr (since', result) \<and>
    see_all result shown = {obj \<in> there. and (fst (owner obj)) hash_map \<noteq> 0}"
proof -
  note ok = polled_ok [OF assms]
  obtain since' result where "timeout hash_map since l = Inr (since', result)"
    "see_all result shown = {obj \<in> there. and (fst (owner obj)) hash_map \<noteq> 0}"
    by (rule asks_shows [OF conjunct1 [OF ok] assms(2) conjunct2 [OF ok]])
  then show ?thesis by blast
qed

text \<open>
  C10: Web clients catch up. Objects appear, change and disappear in any order while a client asks for
  news from time to time. Whenever the client asks, the event manager answers without an exception, and after
  applying the reports the client shows exactly the objects that are there, of the applications it asked
  for; the object of a deletion is always found. Numbers of events do not wrap around.
\<close>

theorem clients_see_what_is_there:
  assumes "polled owner hash_map l there since shown" "length (el_events l) < 2 ^ 32"
  shows "(\<exists>since' result. timeout hash_map since l = Inr (since', result) \<and>
      see_all result shown = {obj \<in> there. and (fst (owner obj)) hash_map \<noteq> 0}) \<and>
    (\<forall>obj \<in> there. snd (add_to_event_list Ev_delete obj (owner obj) l) = Inr ())"
  using client_shows [OF assms] deletion_found [OF assms] by blast

lemma clients_see_what_is_there_witness:
  "\<exists>l since' result. polled (\<lambda>_. (1, ''topology'')) 1 l {7 :: nat} 0 {} \<and> timeout 1 0 l = Inr (since', result) \<and> see_all result {} = {7}"
proof -
  let ?owner = "\<lambda>_. (1 :: 32 word, ''topology'')"
  obtain l res where l: "add_to_event_list Ev_add (7 :: nat) (?owner 7) el_init = (l, res)" by fastforce
  have p: "polled ?owner 1 l {7} 0 {}" using polled.appears [OF polled.start _ l] by simp
  have "length (el_events l) < 2 ^ 32" using l by (auto simp: add_to_event_list_def el_init_def Let_def)
  from clients_see_what_is_there [OF p this] p show ?thesis by auto
qed

text \<open>An object that is added twice and then deleted stays with a client that asks for the first time.\<close>

lemma second_add_hides_deletion:
  "(let app = (1, ''switch-manager'');
        l = fst (add_to_event_list Ev_delete (7 :: nat) app (fst (add_to_event_list Ev_add 7 app (fst (add_to_event_list Ev_add 7 app el_init)))))
    in map_sum id (\<lambda>r. see_all (snd r) {}) (timeout 1 0 l)) = Inr {7}"
  by code_simp

end
