(* ===== verification/Rest_Listener.thy ===== *)
theory Rest_Listener
  imports Event_Clients
begin

text \<open>
  The REST listener, \<^verbatim>\<open>src/RestListener.cc\<close>: the registration of handlers with their
  hashes, the parameters of a request, the request for news, and the files that are served. HTTP itself
  and the regular expressions of the paths belong to the web server library.
\<close>

section \<open>Handlers\<close>

record rest_handler =
  rh_eventable :: bool
  rh_hash :: "32 word"

record rest_listener =
  rl_handlers :: "(string \<times> rest_handler) list"
  rl_hash :: "32 word"

definition rest_init :: rest_listener where
  "rest_init = \<lparr>rl_handlers = [], rl_hash = 1\<rparr>"

definition register_rest_handler :: "string \<Rightarrow> bool \<Rightarrow> rest_listener \<Rightarrow> rest_listener" where
  "register_rest_handler name eventable r =
     (if eventable then \<lparr>rl_handlers = put name \<lparr>rh_eventable = True, rh_hash = rl_hash r\<rparr> (rl_handlers r), rl_hash = rl_hash r * 2\<rparr>
      else r\<lparr>rl_handlers := put name \<lparr>rh_eventable = False, rh_hash = 0\<rparr> (rl_handlers r)\<rparr>)"

definition rest_owner :: "rest_listener \<Rightarrow> string \<Rightarrow> 32 word \<times> string" where
  "rest_owner r name = (case map_of (rl_handlers r) name of None \<Rightarrow> 0 | Some h \<Rightarrow> rh_hash h, name)"

section \<open>Requests\<close>

text \<open>\<open>split\<close> reads with \<open>std::getline\<close>: a delimiter at the end adds no empty part.\<close>

fun split_parts :: "char \<Rightarrow> string \<Rightarrow> string \<Rightarrow> string list" where
  "split_parts d part [] = (if part = [] then [] else [part])"
| "split_parts d part (c # cs) = (if c = d then part # split_parts d [] cs else split_parts d (part @ [c]) cs)"

definition split_at :: "string \<Rightarrow> char \<Rightarrow> string list" where
  "split_at s d = split_parts d [] s"

text \<open>The parameters of a request follow the empty part, \<open>api\<close> and the name of the application.\<close>

definition rest_params :: "string \<Rightarrow> string list" where
  "rest_params path = drop 3 (split_at path (CHR ''/''))"

text \<open>The request for news: the hashes of the applications it names, and the reports since the event it names.\<close>

definition apps_map :: "rest_listener \<Rightarrow> string \<Rightarrow> 32 word" where
  "apps_map r apps = fold (\<lambda>app m. case map_of (rl_handlers r) app of None \<Rightarrow> m | Some h \<Rightarrow> or m (rh_hash h)) (split_at apps (CHR ''&'')) 0"

definition rest_timeout :: "rest_listener \<Rightarrow> 'o event_log \<Rightarrow> string \<Rightarrow> 32 word \<Rightarrow> (32 word \<times> (string \<times> 'o report list) list) res" where
  "rest_timeout r l apps since = timeout (apps_map r apps) since l"

section \<open>Files\<close>

text \<open>As long as there are two dots in a row, the first of them is erased.\<close>

fun erase_dot :: "string \<Rightarrow> string option" where
  "erase_dot (a # b # cs) = (if a = CHR ''.'' \<and> b = CHR ''.'' then Some (b # cs) else map_option ((#) a) (erase_dot (b # cs)))"
| "erase_dot _ = None"

lemma erase_dot_less: "erase_dot p = Some q \<Longrightarrow> length q < length p"
  by (induction p arbitrary: q rule: erase_dot.induct) (auto split: if_splits)

function sanitize :: "string \<Rightarrow> string" where
  "sanitize p = (case erase_dot p of None \<Rightarrow> p | Some q \<Rightarrow> sanitize q)"
  by pat_completeness auto

termination
  by (relation "measure length") (auto dest: erase_dot_less)

declare sanitize.simps [simp del]

definition served_file :: "string \<Rightarrow> string \<Rightarrow> string" where
  "served_file web_dir path = (let p = sanitize path in web_dir @ p @ (if p = ''/'' then ''start.html'' else []))"

section \<open>Properties\<close>

text \<open>Runs of dots become one dot.\<close>

fun squeeze :: "string \<Rightarrow> string" where
  "squeeze (a # b # cs) = (if a = CHR ''.'' \<and> b = CHR ''.'' then squeeze (b # cs) else a # squeeze (b # cs))"
| "squeeze p = p"

lemma erase_dot_squeeze: "(case erase_dot p of None \<Rightarrow> squeeze p = p | Some q \<Rightarrow> squeeze q = squeeze p)"
proof (induction p rule: erase_dot.induct)
  case (1 a b cs)
  show ?case
  proof (cases "a = CHR ''.'' \<and> b = CHR ''.''")
    case False
    have "squeeze (a # q) = a # squeeze q" if q: "erase_dot (b # cs) = Some q" for q
    proof -
      obtain q' where "q = b # q'" using q by (cases cs) (auto split: if_splits)
      then show ?thesis using False by simp
    qed
    with False 1 show ?thesis by (auto split: option.splits)
  qed simp
qed simp_all

lemma sanitize_squeeze: "sanitize p = squeeze p"
proof (induction p rule: sanitize.induct)
  case (1 p)
  show ?case using erase_dot_squeeze [of p] 1 by (subst sanitize.simps) (auto split: option.splits)
qed

lemma squeeze_no_dots: "squeeze p \<noteq> u @ ''..'' @ v"
proof (induction p arbitrary: u rule: squeeze.induct)
  case (1 a b cs)
  have hd: "\<exists>r. squeeze (b # cs) = b # r"
    by (induction "b # cs" arbitrary: b cs rule: squeeze.induct) auto
  show ?case
  proof (cases "a = CHR ''.'' \<and> b = CHR ''.''")
    case True
    then show ?thesis using 1(1) by simp
  next
    case False
    show ?thesis
    proof
      assume e: "squeeze (a # b # cs) = u @ ''..'' @ v"
      show False
      proof (cases u)
        case Nil
        then show False using e False hd by auto
      next
        case (Cons c w)
        then have "squeeze (b # cs) = w @ ''..'' @ v" using e False by simp
        then show False using 1(2) [OF False, of w] by simp
      qed
    qed
  qed
qed (auto simp: Cons_eq_append_conv)

lemma split_parts_infix: "x \<in> set (split_parts d part s) \<Longrightarrow> \<exists>u v. part @ s = u @ x @ v"
proof (induction d part s rule: split_parts.induct)
  case (2 d part c cs)
  then consider "c = d" "x = part" | "c = d" "x \<in> set (split_parts d [] cs)" | "c \<noteq> d" "x \<in> set (split_parts d (part @ [c]) cs)"
    by (auto split: if_splits)
  then show ?case
  proof cases
    case 1
    then show ?thesis by (intro exI [of _ "[]"] exI [of _ "c # cs"]) simp
  next
    case b: 2
    then obtain u v where "cs = u @ x @ v" using 2(1) by auto
    then show ?thesis by (intro exI [of _ "part @ c # u"] exI [of _ v]) simp
  next
    case 3
    then show ?thesis using 2(2) by simp
  qed
next
  case (1 d part)
  then show ?case by (intro exI [of _ "[]"]) (simp split: if_splits)
qed



text \<open>The first 32 handlers with events get a bit each; later ones get no bit, and their events are not logged.\<close>

definition register_all_handlers :: "(string \<times> bool) list \<Rightarrow> rest_listener \<Rightarrow> rest_listener" where
  "register_all_handlers hs r = fold (\<lambda>(name, eventable). register_rest_handler name eventable) hs r"

lemma register_all_hash: "rl_hash (register_all_handlers hs rest_init) = 2 ^ length (filter snd hs)"
  by (induction hs rule: rev_induct) (auto simp: register_all_handlers_def rest_init_def register_rest_handler_def split_beta)

lemma handlers_have_own_bits:
  assumes "map_of (rl_handlers (register_all_handlers hs rest_init)) a = Some h" "rh_eventable h"
  shows "\<exists>k < length (filter snd hs). rh_hash h = 2 ^ k \<and> (k \<ge> 32 \<longrightarrow> rh_hash h = 0)"
proof -
  have "\<exists>k < length (filter snd hs). rh_hash h = 2 ^ k"
    using assms
  proof (induction hs rule: rev_induct)
    case Nil
    then show ?case by (simp add: register_all_handlers_def rest_init_def)
  next
    case (snoc x hs)
    obtain name ev where x: "x = (name, ev)" by (cases x)
    have step: "register_all_handlers (hs @ [x]) rest_init = register_rest_handler name ev (register_all_handlers hs rest_init)"
      by (simp add: register_all_handlers_def x)
    show ?case
    proof (cases "a = name \<and> ev")
      case True
      then have "rh_hash h = 2 ^ length (filter snd hs)"
        using snoc.prems register_all_hash [of hs] by (auto simp: step register_rest_handler_def)
      then show ?thesis using True x by auto
    next
      case False
      then have "map_of (rl_handlers (register_all_handlers hs rest_init)) a = Some h"
        using snoc.prems by (auto simp: step register_rest_handler_def split: if_splits)
      from snoc.IH [OF this snoc.prems(2)] obtain k where "k < length (filter snd hs)" "rh_hash h = 2 ^ k" by blast
      then show ?thesis by (intro exI [of _ k]) simp
    qed
  qed
  then obtain k where k: "k < length (filter snd hs)" "rh_hash h = 2 ^ k" by blast
  have "(2 ^ k :: 32 word) = 0" if "32 \<le> k" using that by (simp add: exp_eq_zero_iff)
  with k show ?thesis by auto
qed

end
