(* ===== verification/Event_Source.thy ===== *)
theory Event_Source
  imports Event_Clients
begin

text \<open>
  The interface between an application and the event log: what the application must keep to, so that
  clients of the log see its objects. The applications interpret it.
\<close>

section \<open>Applications that report\<close>

text \<open>The calls of \<open>addEvent\<close> one operation makes, in their order; an exception ends them.\<close>

fun log_events :: "32 word \<times> string \<Rightarrow> (ev_type \<times> 'o) list \<Rightarrow> 'o event_log \<Rightarrow> 'o event_log \<times> unit res" where
  "log_events app [] l = (l, Inr ())"
| "log_events app ((ty, obj) # evs) l = (case add_to_event_list ty obj app l of
     (l', Inl e) \<Rightarrow> (l', Inl e)
   | (l', Inr _) \<Rightarrow> log_events app evs l')"

text \<open>The calls report how the objects \<open>A\<close> become the objects \<open>B\<close>.\<close>

fun tracks :: "(ev_type \<times> 'o) list \<Rightarrow> 'o set \<Rightarrow> 'o set \<Rightarrow> bool" where
  "tracks [] A B = (A = B)"
| "tracks ((ty, obj) # evs) A B = (case ty of
     Ev_add \<Rightarrow> obj \<notin> A \<and> tracks evs (insert obj A) B
   | Ev_delete \<Rightarrow> obj \<in> A \<and> tracks evs (A - {obj}) B
   | Ev_change \<Rightarrow> tracks evs A B)"

lemma tracks_append: "tracks (xs @ ys) A C \<longleftrightarrow> (\<exists>B. tracks xs A B \<and> tracks ys B C)"
  by (induction xs A C rule: tracks.induct) (auto split: ev_type.splits)

lemma tracks_deletes: "distinct xs \<Longrightarrow> set xs \<subseteq> A \<Longrightarrow> tracks (map (Pair Ev_delete) xs) A (A - set xs)"
proof (induction xs arbitrary: A)
  case (Cons x xs)
  have "tracks (map (Pair Ev_delete) xs) (A - {x}) (A - {x} - set xs)" by (rule Cons.IH) (use Cons.prems in auto)
  moreover have "A - {x} - set xs = A - set (x # xs)" by auto
  ultimately show ?case using Cons.prems by simp
qed simp

lemma tracks_adds: "distinct xs \<Longrightarrow> set xs \<inter> A = {} \<Longrightarrow> tracks (map (Pair Ev_add) xs) A (A \<union> set xs)"
proof (induction xs arbitrary: A)
  case (Cons x xs)
  have "tracks (map (Pair Ev_add) xs) (insert x A) (insert x A \<union> set xs)" by (rule Cons.IH) (use Cons.prems in auto)
  then show ?case using Cons.prems by simp
qed simp

text \<open>An application runs and a client asks now and then.\<close>

inductive watched :: "('s \<Rightarrow> (ev_type \<times> 'o) list \<Rightarrow> 's \<Rightarrow> bool) \<Rightarrow> 32 word \<times> string \<Rightarrow> 32 word \<Rightarrow> 's \<Rightarrow> 's \<Rightarrow> 'o event_log \<Rightarrow> 32 word \<Rightarrow> 'o set \<Rightarrow> bool"
  for step app hash_map s0 where
  start: "watched step app hash_map s0 s0 el_init 0 {}"
| works: "watched step app hash_map s0 s l since shown \<Longrightarrow> step s evs s' \<Longrightarrow> log_events app evs l = (l', res) \<Longrightarrow>
    watched step app hash_map s0 s' l' since shown"
| asks: "watched step app hash_map s0 s l since shown \<Longrightarrow> timeout hash_map since l = Inr (since', result) \<Longrightarrow>
    watched step app hash_map s0 s l since' (see_all result shown)"

section \<open>Logs of an application\<close>

lemma log_events_length: "length (el_events l) \<le> length (el_events (fst (log_events app evs l)))"
proof (induction app evs l rule: log_events.induct)
  case (2 app ty obj evs l)
  obtain l' r where a: "add_to_event_list ty obj app l = (l', r)" by fastforce
  then have "length (el_events l) \<le> length (el_events l')"
    by (auto simp: add_to_event_list_def Let_def split: if_splits option.splits)
  then show ?case using 2 a by (cases r) (auto intro: order_trans)
qed simp

lemma log_events_polled:
  assumes "polled (\<lambda>_. app) hash_map l there since shown" "tracks evs there there'"
    and "log_events app evs l = (l', res)" "length (el_events l') < 2 ^ 32"
  shows "polled (\<lambda>_. app) hash_map l' there' since shown \<and> res = Inr ()"
  using assms
proof (induction evs arbitrary: l there)
  case (Cons ev evs)
  obtain ty obj where ev: "ev = (ty, obj)" by (cases ev)
  obtain l1 r where a: "add_to_event_list ty obj app l = (l1, r)" by fastforce
  have "length (el_events l1) \<le> length (el_events l')"
    using Cons.prems(3) a log_events_length [of l1 app evs] by (auto simp: ev split: sum.splits)
  moreover have "length (el_events l) \<le> length (el_events l1)"
    using a by (auto simp: add_to_event_list_def Let_def split: if_splits option.splits)
  ultimately have small: "length (el_events l) < 2 ^ 32" using Cons.prems(4) by simp
  have r: "r = Inr ()"
  proof (cases "ty = Ev_delete")
    case True
    then have "obj \<in> there" using Cons.prems(2) ev by simp
    then have "snd (add_to_event_list Ev_delete obj app l) = Inr ()"
      using deletion_found [OF Cons.prems(1) small] by simp
    then show ?thesis using a True by simp
  qed (rule add_event(1) [OF a])
  then have rest: "log_events app evs l1 = (l', res)" using Cons.prems(3) a ev by simp
  have "\<exists>mid. polled (\<lambda>_. app) hash_map l1 mid since shown \<and> tracks evs mid there'"
    using Cons.prems(1,2) a ev by (cases ty) (auto intro: polled.appears polled.disappears polled.changes)
  then show ?case using Cons.IH [OF _ _ rest Cons.prems(4)] by blast
qed simp

section \<open>The interface\<close>

locale event_source =
  fixes step :: "'s \<Rightarrow> (ev_type \<times> 'o) list \<Rightarrow> 's \<Rightarrow> bool" and s0 :: 's and invar :: "'s \<Rightarrow> bool" and objects :: "'s \<Rightarrow> 'o set"
  assumes start_ok: "invar s0" "objects s0 = {}"
    and step_ok: "invar s \<Longrightarrow> step s evs s' \<Longrightarrow> invar s' \<and> tracks evs (objects s) (objects s')"
begin

lemma watched_ok:
  assumes "watched step app hash_map s0 s l since shown" "length (el_events l) < 2 ^ 32"
  shows "invar s \<and> polled (\<lambda>_. app) hash_map l (objects s) since shown"
  using assms
proof (induction rule: watched.induct)
  case start
  show ?case using start_ok polled.start by metis
next
  case (works s l since shown evs s' l' res)
  have "length (el_events l) \<le> length (el_events l')" using log_events_length [of l app evs] works.hyps(3) by simp
  then have ih: "invar s" "polled (\<lambda>_. app) hash_map l (objects s) since shown" using works by simp_all
  from step_ok [OF ih(1) works.hyps(2)] log_events_polled [OF ih(2) _ works.hyps(3) works.prems]
  show ?case by blast
next
  case (asks s l since shown since' result)
  then show ?case using polled.asks by metis
qed

lemma client_sees_objects:
  assumes "watched step app hash_map s0 s l since shown" "length (el_events l) < 2 ^ 32" "and (fst app) hash_map \<noteq> 0"
  shows "\<exists>since' result. timeout hash_map since l = Inr (since', result) \<and> see_all result shown = objects s"
  using client_shows [OF conjunct2 [OF watched_ok [OF assms(1,2)]] assms(2)] assms(3) by simp

end

end
