(* ===== verification/Flow_Manager.thy ===== *)
theory Flow_Manager
  imports Event_Source
begin

text \<open>
  The flow manager, \<^verbatim>\<open>src/FlowManager.cc\<close>: it asks every switch for its flows from time to time
  and keeps one rule object for each. The matches and instructions of libfluid are type parameters:
  they are only compared.
\<close>

section \<open>Flows and rules\<close>

text \<open>The fields \<open>equalflows\<close> compares, and a counter that it does not.\<close>

record ('m, 'i) flow_stats =
  st_cookie :: "64 word"
  st_hard :: "16 word"
  st_idle :: "16 word"
  st_prio :: "16 word"
  st_table :: "8 word"
  st_flags :: "16 word"
  st_match :: 'm
  st_instr :: 'i
  st_packets :: "64 word"

definition equalflows :: "('m, 'i) flow_stats \<Rightarrow> ('m, 'i) flow_stats \<Rightarrow> bool" where
  "equalflows a b = (st_cookie a = st_cookie b \<and> st_hard a = st_hard b \<and> st_idle a = st_idle b \<and> st_prio a = st_prio b \<and>
     st_table a = st_table b \<and> st_flags a = st_flags b \<and> st_match a = st_match b \<and> st_instr a = st_instr b)"

record ('m, 'i) rule =
  ru_id :: "64 word"
  ru_switch :: "64 word"
  ru_flow :: "('m, 'i) flow_stats"
  ru_active :: bool

text \<open>The rules of each switch, the last number of a rule, and the rules that are gone.\<close>

record ('m, 'i) flow_manager =
  fl_rules :: "(64 word \<times> ('m, 'i) rule list) list"
  fl_last :: "64 word"
  fl_gone :: "('m, 'i) rule list"

definition flow_init :: "('m, 'i) flow_manager" where
  "flow_init = \<lparr>fl_rules = [], fl_last = 0, fl_gone = []\<rparr>"

definition rules_of :: "64 word \<Rightarrow> ('m, 'i) flow_manager \<Rightarrow> ('m, 'i) rule list" where
  "rules_of dpid s = (case map_of (fl_rules s) dpid of None \<Rightarrow> [] | Some rs \<Rightarrow> rs)"

definition new_rule :: "64 word \<Rightarrow> ('m, 'i) flow_stats \<Rightarrow> 64 word \<Rightarrow> ('m, 'i) rule" where
  "new_rule dpid f i = \<lparr>ru_id = i, ru_switch = dpid, ru_flow = f, ru_active = True\<rparr>"

section \<open>Operations\<close>

text \<open>The search of the predicate of \<open>remove_if\<close>: the first equal flow is taken from the reply.\<close>

fun take_equal :: "('m, 'i) flow_stats \<Rightarrow> ('m, 'i) flow_stats list \<Rightarrow> ('m, 'i) flow_stats list option" where
  "take_equal f [] = None"
| "take_equal f (g # gs) = (if equalflows g f then Some gs else map_option ((#) g) (take_equal f gs))"

text \<open>The rules that stay, those that are gone, and the flows that are left over.\<close>

fun keep_rules :: "('m, 'i) rule list \<Rightarrow> ('m, 'i) flow_stats list \<Rightarrow> ('m, 'i) rule list \<times> ('m, 'i) rule list \<times> ('m, 'i) flow_stats list" where
  "keep_rules [] flows = ([], [], flows)"
| "keep_rules (r # rs) flows = (case take_equal (ru_flow r) flows of
     Some flows' \<Rightarrow> (case keep_rules rs flows' of (kept, gone, left) \<Rightarrow> (r # kept, gone, left))
   | None \<Rightarrow> (case keep_rules rs flows of (kept, gone, left) \<Rightarrow> (kept, r\<lparr>ru_active := False\<rparr> # gone, left)))"

fun add_rules :: "64 word \<Rightarrow> ('m, 'i) flow_stats list \<Rightarrow> 64 word \<Rightarrow> ('m, 'i) rule list \<times> 64 word" where
  "add_rules dpid [] i = ([], i)"
| "add_rules dpid (f # fs) i = (case add_rules dpid fs (i + 1) of (rs, j) \<Rightarrow> (new_rule dpid f (i + 1) # rs, j))"

text \<open>An operation returns the new state and its calls of \<open>addEvent\<close>; a rule object is known by its number.\<close>

type_synonym rule_events = "(ev_type \<times> 64 word) list"

definition update_switch_rules :: "64 word \<Rightarrow> ('m, 'i) flow_stats list \<Rightarrow> ('m, 'i) flow_manager \<Rightarrow> ('m, 'i) flow_manager \<times> rule_events" where
  "update_switch_rules dpid flows s =
     (case keep_rules (rules_of dpid s) flows of (kept, gone, left) \<Rightarrow>
        case add_rules dpid left (fl_last s) of (new, i) \<Rightarrow>
          (\<lparr>fl_rules = put dpid (kept @ new) (fl_rules s), fl_last = i, fl_gone = fl_gone s @ gone\<rparr>,
           map (\<lambda>r. (Ev_delete, ru_id r)) gone @ map (\<lambda>r. (Ev_add, ru_id r)) new))"

definition clean_switch_rules :: "64 word \<Rightarrow> ('m, 'i) flow_manager \<Rightarrow> ('m, 'i) flow_manager \<times> rule_events" where
  "clean_switch_rules dpid s =
     (s\<lparr>fl_rules := put dpid [] (fl_rules s), fl_gone := fl_gone s @ map (\<lambda>r. r\<lparr>ru_active := False\<rparr>) (rules_of dpid s)\<rparr>,
      map (\<lambda>r. (Ev_delete, ru_id r)) (rules_of dpid s))"

text \<open>\<open>addRule\<close> for a switch that may be unknown, and \<open>onResponse\<close>, which relies on its switch being known.\<close>

definition add_rule :: "64 word option \<Rightarrow> ('m, 'i) flow_stats \<Rightarrow> ('m, 'i) flow_manager \<Rightarrow> ('m, 'i) flow_manager \<times> rule_events" where
  "add_rule sw f s = (case sw of
     None \<Rightarrow> (s, [])
   | Some dpid \<Rightarrow> (let i = fl_last s + 1 in
       (s\<lparr>fl_rules := put dpid (rules_of dpid s @ [new_rule dpid f i]) (fl_rules s), fl_last := i\<rparr>, [(Ev_add, i)])))"

definition on_flow_response :: "(64 word \<Rightarrow> bool) \<Rightarrow> 64 word \<Rightarrow> ('m, 'i) flow_stats list \<Rightarrow> ('m, 'i) flow_manager \<Rightarrow>
  (('m, 'i) flow_manager \<times> rule_events) res" where
  "on_flow_response known dpid flows s = (if known dpid then Inr (update_switch_rules dpid flows s) else Inl Nullptr_dereference)"

definition rest_get_rules :: "(64 word \<Rightarrow> bool) \<Rightarrow> 64 word \<Rightarrow> ('m, 'i) flow_manager \<Rightarrow> ('m, 'i) rule list option" where
  "rest_get_rules known dpid s = (if known dpid then Some (rules_of dpid s) else None)"

text \<open>\<open>handleDELETE\<close>: the delete message of the rule with this number, or an error in words.\<close>

datatype ('m, 'i) rest_delete = Switch_not_found | No_flows | Flow_not_found
  | Flow_deleted "64 word" (del_match: 'm) (del_table: "8 word") (del_cookie: "64 word") (del_prio: "16 word")

definition rest_delete_rule :: "(64 word \<Rightarrow> bool) \<Rightarrow> 64 word \<Rightarrow> 64 word \<Rightarrow> ('m, 'i) flow_manager \<Rightarrow> ('m, 'i) rest_delete" where
  "rest_delete_rule known dpid flow_id s =
     (if \<not> known dpid then Switch_not_found
      else case map_of (fl_rules s) dpid of
        None \<Rightarrow> No_flows
      | Some rs \<Rightarrow> (case find (\<lambda>r. ru_id r = flow_id) rs of
          None \<Rightarrow> Flow_not_found
        | Some r \<Rightarrow> Flow_deleted dpid (st_match (ru_flow r)) (st_table (ru_flow r)) (st_cookie (ru_flow r)) (st_prio (ru_flow r))))"

section \<open>What an update does\<close>

text \<open>What \<open>equalflows\<close> sees of a flow.\<close>

definition flow_key :: "('m, 'i) flow_stats \<Rightarrow> ('m, 'i) flow_stats" where
  "flow_key f = f\<lparr>st_packets := 0\<rparr>"

lemma equalflows_key: "equalflows a b \<longleftrightarrow> flow_key a = flow_key b"
  by (cases a; cases b) (auto simp: equalflows_def flow_key_def)

abbreviation keys :: "('m, 'i) flow_stats list \<Rightarrow> ('m, 'i) flow_stats multiset" where
  "keys fs \<equiv> mset (map flow_key fs)"

abbreviation rule_keys :: "('m, 'i) rule list \<Rightarrow> ('m, 'i) flow_stats multiset" where
  "rule_keys rs \<equiv> mset (map (flow_key \<circ> ru_flow) rs)"

lemma take_equal_keys:
  "case take_equal f gs of None \<Rightarrow> flow_key f \<notin># keys gs | Some hs \<Rightarrow> keys gs = add_mset (flow_key f) (keys hs)"
  by (induction gs) (auto simp: equalflows_key split: option.splits)

lemma keep_rules_keys:
  "keep_rules rs flows = (kept, gone, left) \<Longrightarrow>
    rule_keys kept + keys left = keys flows \<and> rule_keys gone = rule_keys rs - keys flows \<and> keys left = keys flows - rule_keys rs"
proof (induction rs arbitrary: flows kept gone left)
  case (Cons r rs)
  note t = take_equal_keys [of "ru_flow r" flows]
  show ?case
  proof (cases "take_equal (ru_flow r) flows")
    case None
    obtain kept' gone' where k: "keep_rules rs flows = (kept', gone', left)" "kept = kept'" "gone = r\<lparr>ru_active := False\<rparr> # gone'"
      using Cons.prems None by (auto split: prod.splits)
    have n: "flow_key (ru_flow r) \<notin># keys flows" using t None by simp
    have m: "add_mset x A - B = add_mset x (A - B)" "B - add_mset x A = B - A" if "x \<notin># B" for x :: "('m, 'i) flow_stats" and A B
      using that by (auto simp: diff_add_mset_swap)
    from Cons.IH [OF k(1)] have ih: "rule_keys kept' + keys left = keys flows" "rule_keys gone' = rule_keys rs - keys flows"
      "keys left = keys flows - rule_keys rs" by blast+
    show ?thesis
    proof (intro conjI)
      show "rule_keys kept + keys left = keys flows" using ih(1) k(2) by simp
      show "rule_keys gone = rule_keys (r # rs) - keys flows" using ih(2) m(1) [OF n, of "rule_keys rs"] k(3) by simp
      show "keys left = keys flows - rule_keys (r # rs)" using ih(3) m(2) [OF n, of "rule_keys rs"] by simp
    qed
  next
    case (Some hs)
    obtain kept' where k: "keep_rules rs hs = (kept', gone, left)" "kept = r # kept'"
      using Cons.prems Some by (auto split: prod.splits)
    have f: "keys flows = add_mset (flow_key (ru_flow r)) (keys hs)" using t Some by simp
    from Cons.IH [OF k(1)] have ih: "rule_keys kept' + keys left = keys hs" "rule_keys gone = rule_keys rs - keys hs"
      "keys left = keys hs - rule_keys rs" by blast+
    show ?thesis
    proof (intro conjI)
      show "rule_keys kept + keys left = keys flows" using ih(1) f k(2) by simp
      show "rule_keys gone = rule_keys (r # rs) - keys flows" using ih(2) f by simp
      show "keys left = keys flows - rule_keys (r # rs)" using ih(3) f by simp
    qed
  qed
qed simp

lemma keep_rules_ids:
  "keep_rules rs flows = (kept, gone, left) \<Longrightarrow>
    mset (map ru_id rs) = mset (map ru_id kept) + mset (map ru_id gone) \<and> set kept \<subseteq> set rs"
  by (induction rs arbitrary: flows kept gone left) (fastforce split: option.splits prod.splits)+

lemma add_rules_eq:
  "add_rules dpid fs i = (rs, j) \<Longrightarrow> map ru_flow rs = fs \<and> j = i + of_nat (length fs) \<and> map ru_id rs = map (\<lambda>n. i + of_nat (Suc n)) [0..<length fs]"
proof (induction fs arbitrary: i rs)
  case (Cons f fs)
  then obtain rs' where r: "add_rules dpid fs (i + 1) = (rs', j)" "rs = new_rule dpid f (i + 1) # rs'" by (auto split: prod.splits)
  have "map (\<lambda>n. i + of_nat (Suc n)) [0..<length (f # fs)] = (i + 1) # map (\<lambda>n. i + 1 + of_nat (Suc n)) [0..<length fs]"
    by (simp add: upt_conv_Cons map_Suc_upt [symmetric] comp_def add.assoc del: upt_Suc map_Suc_upt)
  then show ?case using Cons.IH [OF r(1)] r(2) by (simp add: new_rule_def add.assoc)
qed simp

text \<open>
  C19: The flow manager follows the switch. After a reply with the flows of a switch, the rules it keeps
  for this switch are the reported flows, each as often as it was reported, and those of the other
  switches are untouched. Rules whose flow was already known keep their object; exactly the flows that
  are no longer reported lose their rule, and exactly those that are new get one, with a new number.
\<close>

theorem update_follows_switch:
  assumes "update_switch_rules dpid flows s = (s', evs)"
  shows "rule_keys (rules_of dpid s') = keys flows \<and> (\<forall>other. other \<noteq> dpid \<longrightarrow> rules_of other s' = rules_of other s) \<and>
    (\<exists>kept gone new. rules_of dpid s' = kept @ new \<and> set kept \<subseteq> set (rules_of dpid s) \<and>
       evs = map (\<lambda>r. (Ev_delete, ru_id r)) gone @ map (\<lambda>r. (Ev_add, ru_id r)) new \<and>
       rule_keys gone = rule_keys (rules_of dpid s) - keys flows \<and> rule_keys new = keys flows - rule_keys (rules_of dpid s) \<and>
       map ru_id new = map (\<lambda>n. fl_last s + of_nat (Suc n)) [0..<length new])"
proof -
  obtain kept gone left where k: "keep_rules (rules_of dpid s) flows = (kept, gone, left)" by (metis prod_cases3)
  obtain new i where n: "add_rules dpid left (fl_last s) = (new, i)" by fastforce
  have s': "s' = \<lparr>fl_rules = put dpid (kept @ new) (fl_rules s), fl_last = i, fl_gone = fl_gone s @ gone\<rparr>"
    "evs = map (\<lambda>r. (Ev_delete, ru_id r)) gone @ map (\<lambda>r. (Ev_add, ru_id r)) new"
    using assms k n by (simp_all add: update_switch_rules_def)
  note new = add_rules_eq [OF n]
  have "map (flow_key \<circ> ru_flow) new = map flow_key left" using new by (simp flip: list.map_comp)
  then have key: "rule_keys new = keys left" by simp
  have len: "length left = length new" using new by (metis length_map)
  have r: "rules_of dpid s' = kept @ new" "\<And>other. other \<noteq> dpid \<Longrightarrow> rules_of other s' = rules_of other s"
    by (simp_all add: s' rules_of_def)
  show ?thesis using keep_rules_keys [OF k] keep_rules_ids [OF k] key new len r s'(2)
    by (intro conjI exI [of _ kept] exI [of _ gone] exI [of _ new]) auto
qed


section \<open>The flow manager as a source of events\<close>

text \<open>Replies of switches, lost switches and rules that are added; the numbers of rules do not wrap around.\<close>

inductive flow_step :: "('m, 'i) flow_manager \<Rightarrow> rule_events \<Rightarrow> ('m, 'i) flow_manager \<Rightarrow> bool" where
  reply: "update_switch_rules dpid flows s = (s', evs) \<Longrightarrow> unat (fl_last s) + length flows < 2 ^ 64 \<Longrightarrow> flow_step s evs s'"
| lost: "clean_switch_rules dpid s = (s', evs) \<Longrightarrow> flow_step s evs s'"
| added: "add_rule sw f s = (s', evs) \<Longrightarrow> unat (fl_last s) + 1 < 2 ^ 64 \<Longrightarrow> flow_step s evs s'"

definition all_rules :: "('m, 'i) flow_manager \<Rightarrow> ('m, 'i) rule list" where
  "all_rules s = concat (map snd (fl_rules s))"

definition rule_ids :: "('m, 'i) flow_manager \<Rightarrow> 64 word set" where
  "rule_ids s = ru_id ` set (all_rules s)"

definition flow_ok :: "('m, 'i) flow_manager \<Rightarrow> bool" where
  "flow_ok s = (distinct (map fst (fl_rules s)) \<and> distinct (map ru_id (all_rules s)) \<and> (\<forall>i \<in> rule_ids s. i \<le> fl_last s))"

lemma concat_put:
  "distinct (map fst xs) \<Longrightarrow> \<exists>others. mset (concat (map snd xs)) = mset (others @ (case map_of xs k of None \<Rightarrow> [] | Some w \<Rightarrow> w)) \<and>
    mset (concat (map snd (put k v xs))) = mset (others @ v)"
proof (induction xs)
  case (Cons x xs)
  then obtain others where o: "mset (concat (map snd xs)) = mset (others @ (case map_of xs k of None \<Rightarrow> [] | Some w \<Rightarrow> w))"
    "mset (concat (map snd (put k v xs))) = mset (others @ v)" by auto
  show ?case
  proof (cases "fst x = k")
    case True
    then show ?thesis by (intro exI [of _ "concat (map snd xs)"]) (cases x, simp)
  next
    case False
    then show ?thesis using o by (intro exI [of _ "snd x @ others"]) (cases x, simp add: add.assoc)
  qed
qed simp

lemma rules_replaced:
  assumes ok: "flow_ok s" and old: "mset (map ru_id (rules_of dpid s)) = mset (map ru_id kept) + mset (map ru_id gone)"
    and new: "distinct (map ru_id new)" "set (map ru_id new) \<inter> rule_ids s = {}" and s': "fl_rules s' = put dpid (kept @ new) (fl_rules s)"
  shows "distinct (map ru_id (all_rules s'))" "rule_ids s' = rule_ids s - set (map ru_id gone) \<union> set (map ru_id new)"
    and "distinct (map ru_id gone)" "set (map ru_id gone) \<subseteq> rule_ids s" "distinct (map fst (fl_rules s'))"
proof -
  have d: "distinct (map fst (fl_rules s))" "distinct (map ru_id (all_rules s))" using ok by (simp_all add: flow_ok_def)
  obtain others where o: "mset (all_rules s) = mset (others @ rules_of dpid s)" "mset (all_rules s') = mset (others @ kept @ new)"
    using concat_put [OF d(1), of dpid "kept @ new"] by (auto simp: all_rules_def rules_of_def s')
  let ?O = "map ru_id others" and ?K = "map ru_id kept" and ?G = "map ru_id gone" and ?N = "map ru_id new"
  have a: "mset (map ru_id (all_rules s)) = mset (?O @ ?K @ ?G)"
  proof -
    have "mset (map ru_id (all_rules s)) = mset ?O + mset (map ru_id (rules_of dpid s))"
      unfolding mset_map o(1) by simp
    then show ?thesis unfolding old by simp
  qed
  have b: "mset (map ru_id (all_rules s')) = mset (?O @ ?K @ ?N)" unfolding mset_map o(2) by simp
  have ids: "rule_ids s = set (?O @ ?K @ ?G)" "rule_ids s' = set (?O @ ?K @ ?N)"
    using mset_eq_setD [OF a] mset_eq_setD [OF b] by (simp_all add: rule_ids_def)
  have dis: "distinct (?O @ ?K @ ?G)" using d(2) mset_eq_imp_distinct_iff [OF a] by simp
  then show "distinct ?G" by simp
  show "set ?G \<subseteq> rule_ids s" unfolding ids by auto
  have n: "set ?N \<inter> set (?O @ ?K) = {}" using new(2) unfolding ids by auto
  show "rule_ids s' = rule_ids s - set ?G \<union> set ?N" unfolding ids using dis by auto
  have "distinct (?O @ ?K @ ?N)" using dis new(1) n by auto
  then show "distinct (map ru_id (all_rules s'))" using mset_eq_imp_distinct_iff [OF b] by simp
  show "distinct (map fst (fl_rules s'))" using d(1) by (simp add: s' distinct_put)
qed

lemma flow_step_ok:
  assumes ok: "flow_ok s" and step: "flow_step s evs s'"
  shows "flow_ok s' \<and> tracks evs (rule_ids s) (rule_ids s')"
  using step
proof cases
  case (reply dpid flows)
  obtain kept gone left where k: "keep_rules (rules_of dpid s) flows = (kept, gone, left)" by (metis prod_cases3)
  obtain new i where n: "add_rules dpid left (fl_last s) = (new, i)" by fastforce
  have s': "fl_rules s' = put dpid (kept @ new) (fl_rules s)" "fl_last s' = i"
    "evs = map (Pair Ev_delete) (map ru_id gone) @ map (Pair Ev_add) (map ru_id new)"
    using reply(1) k n by (auto simp: update_switch_rules_def)
  note new = add_rules_eq [OF n]
  have "size (keys left) \<le> size (keys flows)" using keep_rules_keys [OF k] by (metis size_union le_add2)
  then have len: "unat (fl_last s) + length left < 2 ^ 64" using reply(2) by simp
  have at: "unat (fl_last s + of_nat m) = unat (fl_last s) + m" if "m \<le> length left" for m
  proof -
    have "unat (of_nat m :: 64 word) = m" using that len by (simp add: unat_of_nat)
    then show ?thesis using that len by (simp add: unat_plus_if')
  qed
  have ids: "unat (fl_last s) < unat x \<and> x \<le> i" if "x \<in> set (map ru_id new)" for x
  proof -
    from that have "x \<in> set (map (\<lambda>n. fl_last s + of_nat (Suc n)) [0..<length left])" using new by simp
    then obtain m where m: "m < length left" "x = fl_last s + of_nat (Suc m)" by fastforce
    then show ?thesis using at [of "Suc m"] at [of "length left"] new by (simp add: word_le_nat_alt del: of_nat_Suc)
  qed
  have "distinct (map ru_id new)"
  proof -
    have "inj_on (\<lambda>m. fl_last s + of_nat (Suc m)) {0..<length left}"
      by (rule inj_onI) (metis Suc_inject add_left_cancel at atLeastLessThan_iff Suc_leI)
    then show ?thesis using new by (simp add: distinct_map)
  qed
  moreover have "set (map ru_id new) \<inter> rule_ids s = {}"
    using ids ok by (fastforce simp: flow_ok_def word_le_nat_alt)
  moreover have "mset (map ru_id (rules_of dpid s)) = mset (map ru_id kept) + mset (map ru_id gone)" using keep_rules_ids [OF k] by blast
  ultimately have r: "distinct (map ru_id (all_rules s'))" "rule_ids s' = rule_ids s - set (map ru_id gone) \<union> set (map ru_id new)"
    "distinct (map ru_id gone)" "set (map ru_id gone) \<subseteq> rule_ids s" "distinct (map fst (fl_rules s'))"
    and dn: "distinct (map ru_id new)" "set (map ru_id new) \<inter> rule_ids s = {}"
    using rules_replaced [OF ok _ _ _ s'(1)] by blast+
  have "fl_last s \<le> i" using at [of "length left"] new by (simp add: word_le_nat_alt)
  then have "\<forall>x \<in> rule_ids s'. x \<le> fl_last s'" using ok ids r(2) s'(2) by (auto simp: flow_ok_def intro: order_trans)
  moreover have "tracks evs (rule_ids s) (rule_ids s')"
    unfolding s'(3) tracks_append r(2)
    using tracks_deletes [OF r(3,4)] tracks_adds [OF dn(1), of "rule_ids s - set (map ru_id gone)"] dn(2) by blast
  ultimately show ?thesis using r by (simp add: flow_ok_def)
next
  case (lost dpid)
  have s': "fl_rules s' = put dpid ([] @ []) (fl_rules s)" "fl_last s' = fl_last s" "evs = map (Pair Ev_delete) (map ru_id (rules_of dpid s))"
    using lost by (auto simp: clean_switch_rules_def)
  have r: "distinct (map ru_id (all_rules s'))" "rule_ids s' = rule_ids s - set (map ru_id (rules_of dpid s)) \<union> set (map ru_id ([] :: ('a, 'b) rule list))"
    "distinct (map ru_id (rules_of dpid s))" "set (map ru_id (rules_of dpid s)) \<subseteq> rule_ids s" "distinct (map fst (fl_rules s'))"
    using rules_replaced [OF ok _ _ _ s'(1), of "rules_of dpid s"] by simp_all
  then show ?thesis using ok tracks_deletes [OF r(3,4)] by (auto simp: flow_ok_def s'(2,3))
next
  case (added sw f)
  show ?thesis
  proof (cases sw)
    case None
    then show ?thesis using added ok by (simp add: add_rule_def)
  next
    case (Some dpid)
    let ?i = "fl_last s + 1" and ?r = "new_rule dpid f (fl_last s + 1)"
    have s': "fl_rules s' = put dpid (rules_of dpid s @ [?r]) (fl_rules s)" "fl_last s' = ?i" "evs = [(Ev_add, ?i)]"
      using added(1) Some by (auto simp: add_rule_def Let_def)
    have less: "fl_last s < ?i" using added(2) by (simp add: word_less_nat_alt unat_plus_if')
    have "x \<le> fl_last s" if "x \<in> rule_ids s" for x using ok that by (simp add: flow_ok_def)
    then have new: "?i \<notin> rule_ids s" using less by (meson leD)
    have id: "ru_id ?r = ?i" by (simp add: new_rule_def)
    have r: "distinct (map ru_id (all_rules s'))" "rule_ids s' = rule_ids s - set (map ru_id ([] :: ('a, 'b) rule list)) \<union> set (map ru_id [?r])"
      "distinct (map fst (fl_rules s'))"
      using rules_replaced [OF ok _ _ _ s'(1), of "[]"] new id by simp_all
    then show ?thesis using ok new less by (auto simp: flow_ok_def s'(2,3) id intro: order_trans less_imp_le)
  qed
qed

lemma flow_ok_init: "flow_ok flow_init" "rule_ids flow_init = {}"
  by (simp_all add: flow_init_def flow_ok_def rule_ids_def all_rules_def)

interpretation flow_events: event_source flow_step flow_init flow_ok rule_ids
  by unfold_locales (rule flow_ok_init flow_step_ok, assumption?)+

text \<open>
  C20: The web interface shows the rules of the flow manager. Switches report their flows, come and go; whenever
  a client then asks for news of the flow manager, it shows exactly the rules that the flow manager keeps.
\<close>

theorem clients_see_rules:
  assumes "watched flow_step app hash_map flow_init s l since shown" "length (el_events l) < 2 ^ 32" "and (fst app) hash_map \<noteq> 0"
  shows "\<exists>since' result. timeout hash_map since l = Inr (since', result) \<and> see_all result shown = rule_ids s"
  using assms by (rule flow_events.client_sees_objects)

text \<open>A switch reports one flow.\<close>

definition sample_flow :: "(nat, nat) flow_stats" where
  "sample_flow = \<lparr>st_cookie = 1, st_hard = 0, st_idle = 0, st_prio = 5, st_table = 0, st_flags = 0, st_match = 0, st_instr = 0, st_packets = 0\<rparr>"

lemma update_follows_switch_witness:
  "\<exists>s' evs. update_switch_rules 1 [sample_flow] flow_init = (s', evs) \<and> rule_keys (rules_of 1 s') = {#flow_key sample_flow#}"
proof -
  obtain s' evs where u: "update_switch_rules 1 [sample_flow] flow_init = (s', evs)" by fastforce
  then show ?thesis using update_follows_switch [OF u] by simp
qed

lemma clients_see_rules_witness:
  "\<exists>(s :: (nat, nat) flow_manager) l since' result. timeout 1 0 l = Inr (since', result) \<and> see_all result {} = rule_ids s \<and> rule_ids s = {1}"
proof -
  have u: "update_switch_rules 1 [sample_flow] flow_init = (fst (update_switch_rules 1 [sample_flow] flow_init), [(Ev_add, 1)])"
    by (simp add: update_switch_rules_def rules_of_def flow_init_def new_rule_def)
  have ids: "rule_ids (fst (update_switch_rules 1 [sample_flow] flow_init)) = {1}"
    by (simp add: update_switch_rules_def rules_of_def flow_init_def new_rule_def rule_ids_def all_rules_def)
  obtain l res where l: "log_events (1, ''flow-manager'') [(Ev_add, 1 :: 64 word)] el_init = (l, res)" by fastforce
  then have len: "length (el_events l) < 2 ^ 32" by (auto simp: add_to_event_list_def el_init_def Let_def)
  have "flow_step flow_init [(Ev_add, 1)] (fst (update_switch_rules 1 [sample_flow] flow_init))"
    by (rule flow_step.reply [OF u]) (simp add: flow_init_def)
  with watched.start have "watched flow_step (1, ''flow-manager'') 1 flow_init (fst (update_switch_rules 1 [sample_flow] flow_init)) l 0 {}"
    using l by (rule watched.works)
  from clients_see_rules [OF this len] ids have "\<exists>since' result. timeout 1 0 l = Inr (since', result) \<and> see_all result {} =
      rule_ids (fst (update_switch_rules 1 [sample_flow] flow_init))"
    by simp
  then show ?thesis using ids by blast
qed

end
