(* ===== verification/Controller.thy ===== *)
theory Controller
  imports Of_Messages
begin

text \<open>
  The OpenFlow controller, \<^verbatim>\<open>src/Controller.cc\<close>: connections and the switches behind them, the
  dispatch of messages to handlers and signals, the transactions, and the tables a switch gets when it
  connects. Sockets, threads and the unpacking of messages belong to libfluid.
\<close>

section \<open>Tables of a new switch\<close>

text \<open>The messages of \<open>SwitchBase\<close>: flow entries of priority 0 that match every packet.\<close>

datatype table_msg = Clear_tables | Barrier_request | Goto_entry "8 word" "8 word" | Miss_entry "8 word" "16 word"

lemma unat_byte_less: "unat (t :: 8 word) < 256"
  using unsigned_less [of t] by simp

lemma unat_byte_Suc: "i < (m :: 8 word) \<Longrightarrow> unat (i + 1) = Suc (unat i)"
  using unat_byte_less [of m] by (simp add: word_less_nat_alt unat_plus_if')

function install_gotos :: "8 word \<Rightarrow> 8 word \<Rightarrow> table_msg list" where
  "install_gotos i max_table = (if i < max_table then [Barrier_request, Goto_entry i (i + 1)] @ install_gotos (i + 1) max_table else [])"
  by pat_completeness auto

termination
  by (relation "measure (\<lambda>(i, m). unat m - unat i)") (auto simp: unat_byte_Suc word_less_nat_alt)

declare install_gotos.simps [simp del]

definition init_tables :: "8 word \<Rightarrow> table_msg list" where
  "init_tables max_table = [Clear_tables] @ install_gotos 0 max_table @ [Barrier_request, Miss_entry max_table 128]"

section \<open>Connections\<close>

text \<open>
  Connections have numbers. The application data of a connection is the switch it belongs to; the
  connection object of a switch points to its connection or is dead.
\<close>

datatype conn_event = Conn_started | Conn_established | Conn_failed_negotiation | Conn_closed | Conn_dead

datatype ctrl_signal = Switch_up_signal features | Switch_down_signal "64 word" | Port_status_signal "64 word" "8 word" of_port
  | Flow_removed_signal "64 word" | Handler_applied nat "64 word" | Transaction_response "32 word" "64 word" of_msg
  | Transaction_error "32 word" "64 word"
  | Bench_reply nat "32 word"

record switch_base =
  sb_conn :: "nat option"
  sb_max :: "8 word"

record controller =
  ct_app :: "(nat \<times> 64 word) list"
  ct_switches :: "(64 word \<times> switch_base) list"
  ct_max_table :: "8 word"
  ct_started :: bool
  ct_cbench :: bool
  ct_handlers :: "nat list"
  ct_transactions :: "bool list"
  ct_next_xid :: "32 word"
  ct_signals :: "ctrl_signal list"
  ct_tables :: "(64 word \<times> table_msg) list"

definition min_xid :: "32 word" where
  "min_xid = 0xfff"

definition ctrl_init :: "8 word \<Rightarrow> controller" where
  "ctrl_init max_table = \<lparr>ct_app = [], ct_switches = [], ct_max_table = max_table, ct_started = False, ct_cbench = False, ct_handlers = [],
     ct_transactions = [], ct_next_xid = min_xid, ct_signals = [], ct_tables = []\<rparr>"

definition app_data :: "nat \<Rightarrow> controller \<Rightarrow> 64 word option" where
  "app_data c s = map_of (ct_app s) c"

definition conn_of :: "64 word \<Rightarrow> controller \<Rightarrow> nat option" where
  "conn_of d s = (case map_of (ct_switches s) d of None \<Rightarrow> None | Some b \<Rightarrow> sb_conn b)"

definition table_count :: "64 word \<Rightarrow> controller \<Rightarrow> 8 word" where
  "table_count d s = (case map_of (ct_switches s) d of None \<Rightarrow> ct_max_table s | Some b \<Rightarrow> sb_max b)"

definition emit_ctrl :: "ctrl_signal \<Rightarrow> controller \<Rightarrow> controller" where
  "emit_ctrl x s = s\<lparr>ct_signals := ct_signals s @ [x]\<rparr>"

text \<open>\<open>createSwitchBase\<close>: a switch that is known gets the new connection and keeps its number of tables.\<close>

definition create_switch_base :: "nat \<Rightarrow> 64 word \<Rightarrow> controller \<Rightarrow> controller" where
  "create_switch_base c d s = s\<lparr>ct_switches := put d \<lparr>sb_conn = Some c, sb_max = table_count d s\<rparr> (ct_switches s),
     ct_tables := ct_tables s @ map (Pair d) (init_tables (table_count d s))\<rparr>"

definition connection_callback :: "nat \<Rightarrow> conn_event \<Rightarrow> controller \<Rightarrow> controller" where
  "connection_callback c ev s = (case ev of
     Conn_started \<Rightarrow> s\<lparr>ct_app := remove_key c (ct_app s)\<rparr>
   | Conn_established \<Rightarrow> s
   | Conn_failed_negotiation \<Rightarrow> s
   | _ \<Rightarrow> (case app_data c s of
       None \<Rightarrow> s
     | Some d \<Rightarrow> (emit_ctrl (Switch_down_signal d) (s\<lparr>ct_app := remove_key c (ct_app s)\<rparr>))\<lparr>ct_switches := put d \<lparr>sb_conn = None, sb_max = table_count d s\<rparr> (ct_switches s)\<rparr>))"

text \<open>The rest of the messages: answers to transactions. A message without an object is dereferenced.\<close>

definition dispatch_xid :: "of_msg \<Rightarrow> 64 word \<Rightarrow> controller \<Rightarrow> controller res" where
  "dispatch_xid m d s = (case of_msg_union m of
     No_such_type \<Rightarrow> Inr s
   | No_message \<Rightarrow> Inl Nullptr_dereference
   | Message \<Rightarrow> Inr (let xid = message_xid m in
       if xid < min_xid then s
       else if xid < ct_next_xid s \<and> ct_transactions s ! unat (xid - min_xid)
         then emit_ctrl (if type_number m = 1 then Transaction_error xid d else Transaction_response xid d m) s
       else s))"

text \<open>
  \<open>message_callback\<close>. A benchmark gets an empty answer to every packet. Otherwise the registered handler gets the
  connection of the switch, before the check that there is one.
\<close>

definition apply_handler :: "nat \<Rightarrow> nat \<Rightarrow> controller \<Rightarrow> controller res" where
  "apply_handler c t s =
     (if t \<notin> set (ct_handlers s) then Inr s
      else case app_data c s of None \<Rightarrow> Inl Nullptr_dereference | Some d \<Rightarrow> Inr (emit_ctrl (Handler_applied t d) s))"

definition handle_message :: "nat \<Rightarrow> of_msg \<Rightarrow> controller \<Rightarrow> controller res" where
  "handle_message c m s =
     (case m of
        Features_reply fr \<Rightarrow>
          Inr (emit_ctrl (Switch_up_signal fr) ((create_switch_base c (fr_dpid fr) s)\<lparr>ct_app := put c (fr_dpid fr) (ct_app s)\<rparr>))
      | _ \<Rightarrow> (case app_data c s of
          None \<Rightarrow> Inr s
        | Some d \<Rightarrow> (case m of
            Port_status reason port \<Rightarrow> Inr (emit_ctrl (Port_status_signal d reason port) s)
          | Flow_removed \<Rightarrow> Inr (emit_ctrl (Flow_removed_signal d) s)
          | _ \<Rightarrow> dispatch_xid m d s)))"

definition message_callback :: "nat \<Rightarrow> of_msg \<Rightarrow> controller \<Rightarrow> controller res" where
  "message_callback c m s =
     (if ct_cbench s \<and> type_number m = 10 then Inr (emit_ctrl (Bench_reply c (message_xid m)) s)
      else rbind (apply_handler c (type_number m) s) (handle_message c m))"

section \<open>Set-up by the applications\<close>

definition register_handler :: "nat \<Rightarrow> controller \<Rightarrow> controller" where
  "register_handler t s = s\<lparr>ct_handlers := t # ct_handlers s\<rparr>"

definition register_static_transaction :: "controller \<Rightarrow> controller \<times> 32 word option" where
  "register_static_transaction s =
     (if ct_started s then (s, None)
      else (s\<lparr>ct_next_xid := ct_next_xid s + 1, ct_transactions := ct_transactions s @ [True]\<rparr>, Some (ct_next_xid s)))"

text \<open>The slot that is cleared when a transaction is destroyed is the one with the index \<open>xid\<close>.\<close>

definition transaction_destroyed :: "32 word \<Rightarrow> controller \<Rightarrow> controller \<times> unit res" where
  "transaction_destroyed xid s =
     (if unat xid < length (ct_transactions s) then (s\<lparr>ct_transactions := (ct_transactions s)[unat xid := False]\<rparr>, Inr ())
      else (s, Inl Out_of_range))"

definition get_table :: "8 word \<Rightarrow> controller \<Rightarrow> controller \<times> 8 word" where
  "get_table table s = (s\<lparr>ct_max_table := max table (ct_max_table s)\<rparr>, table)"

definition ctrl_start_up :: "bool \<Rightarrow> controller \<Rightarrow> controller" where
  "ctrl_start_up cbench s = s\<lparr>ct_started := True, ct_cbench := cbench\<rparr>"

section \<open>The tables lead to the controller\<close>

text \<open>
  The entries of a switch that match every packet with priority 0, by table. An entry that overlaps
  one of the same priority is refused, for the messages ask for this check.
\<close>

datatype table_act = Goto "8 word" | To_controller "16 word"

type_synonym of_tables = "(8 word \<times> table_act) list"

definition add_entry :: "8 word \<Rightarrow> table_act \<Rightarrow> of_tables \<Rightarrow> of_tables" where
  "add_entry t a ts = (if t \<in> fst ` set ts then ts else put t a ts)"

definition table_msg_effect :: "table_msg \<Rightarrow> of_tables \<Rightarrow> of_tables" where
  "table_msg_effect m ts = (case m of
     Clear_tables \<Rightarrow> []
   | Barrier_request \<Rightarrow> ts
   | Goto_entry t n \<Rightarrow> add_entry t (Goto n) ts
   | Miss_entry t n \<Rightarrow> add_entry t (To_controller n) ts)"

text \<open>A packet without better entries; a switch goes to later tables only.\<close>

function walk :: "of_tables \<Rightarrow> 8 word \<Rightarrow> 16 word option" where
  "walk ts t = (case map_of ts t of
     None \<Rightarrow> None
   | Some (To_controller n) \<Rightarrow> Some n
   | Some (Goto u) \<Rightarrow> (if t < u then walk ts u else None))"
  by pat_completeness auto

termination
  by (relation "measure (\<lambda>(ts, t). 256 - unat t)") (auto simp: word_less_nat_alt unat_byte_less intro!: diff_less_mono2)

declare walk.simps [simp del]


lemma gotos_effect:
  assumes "i \<le> m" "\<And>t. i \<le> t \<Longrightarrow> t \<notin> fst ` set ts"
  shows "map_of (fold table_msg_effect (install_gotos i m) ts) =
    (\<lambda>t. if i \<le> t \<and> t < m then Some (Goto (t + 1)) else map_of ts t)"
  using assms
proof (induction i m arbitrary: ts rule: install_gotos.induct)
  case (1 i m)
  show ?case
  proof (cases "i < m")
    case True
    have le: "i + 1 \<le> t \<longleftrightarrow> i < t" for t using unat_byte_Suc [OF True] by (simp add: word_le_nat_alt word_less_nat_alt Suc_le_eq)
    let ?ts = "put i (Goto (i + 1)) ts"
    have keys: "fst ` set ?ts = insert i (fst ` set ts)" using set_fst_put [of i "Goto (i + 1)" ts] by simp
    have "i + 1 \<le> m" using True le by simp
    moreover have "t \<notin> fst ` set ?ts" if "i + 1 \<le> t" for t using that 1(3) [of t] le keys by auto
    ultimately have ih: "map_of (fold table_msg_effect (install_gotos (i + 1) m) ?ts) =
        (\<lambda>t. if i + 1 \<le> t \<and> t < m then Some (Goto (t + 1)) else map_of ?ts t)" by (rule 1(1) [OF True])
    have "fold table_msg_effect (install_gotos i m) ts = fold table_msg_effect (install_gotos (i + 1) m) ?ts"
      using True 1(3) [of i] by (simp add: install_gotos.simps [of i] table_msg_effect_def add_entry_def)
    moreover have "(if i \<le> t \<and> t < m then Some (Goto (t + 1)) else map_of ts t) =
        (if i + 1 \<le> t \<and> t < m then Some (Goto (t + 1)) else ((map_of ts)(i \<mapsto> Goto (i + 1))) t)" for t
      unfolding le using True by (cases "i < t"; cases "t = i") auto
    ultimately show ?thesis by (simp only: ih map_of_put)
  next
    case False
    then show ?thesis by (auto simp: install_gotos.simps [of i] fun_eq_iff)
  qed
qed

text \<open>
  C18: A switch that connects sends what it does not know to the controller. Whatever entries its tables had, after the
  messages of the controller every table before the last has one entry that goes on to the next, the last one has one
  that sends 128 bytes to the controller, no other table has an entry, and a packet that enters any of the
  tables and matches nothing else reaches the controller.
\<close>

theorem new_switch_reaches_controller:
  "map_of (fold table_msg_effect (init_tables m) ts) =
      (\<lambda>t. if t < m then Some (Goto (t + 1)) else if t = m then Some (To_controller 128) else None) \<and>
    (\<forall>t \<in> {..m}. walk (fold table_msg_effect (init_tables m) ts) t = Some 128)"
proof -
  define ts' where "ts' = fold table_msg_effect (init_tables m) ts"
  let ?g = "fold table_msg_effect (install_gotos 0 m) []"
  have g: "map_of ?g = (\<lambda>t. if t < m then Some (Goto (t + 1)) else None)"
    using gotos_effect [of 0 m "[]"] by (simp add: fun_eq_iff)
  have "map_of ?g m = None" by (simp add: g)
  then have "m \<notin> fst ` set ?g" by (simp add: map_of_eq_None_iff)
  then have "ts' = put m (To_controller 128) ?g"
    by (simp add: ts'_def init_tables_def table_msg_effect_def add_entry_def)
  then have at: "map_of ts' = (\<lambda>t. if t < m then Some (Goto (t + 1)) else if t = m then Some (To_controller 128) else None)"
    using g by (auto simp: fun_eq_iff)
  have "walk ts' t = Some 128" if "t \<le> m" for t
    using that at
  proof (induction ts' t rule: walk.induct)
    case (1 ts' t)
    note at = 1(3)
    show ?case
    proof (cases "t = m")
      case False
      then have t: "t < m" using 1(2) by simp
      have "t < t + 1" "t + 1 \<le> m" using t unat_byte_Suc [OF t] by (simp_all add: word_less_nat_alt word_le_nat_alt)
      then show ?thesis using 1(1) t at by (subst walk.simps) simp
    qed (use at in \<open>subst walk.simps, simp\<close>)
  qed
  with at show ?thesis unfolding ts'_def by blast
qed

lemma new_switch_reaches_controller_witness:
  "walk (fold table_msg_effect (init_tables 2) [(9, Goto 1)]) 1 = Some 128"
  using new_switch_reaches_controller [of 2 "[(9, Goto 1)]"] by simp

end
