(* ===== verification/Switch_Manager.thy ===== *)
theory Switch_Manager
  imports Controller Event_Source
begin

text \<open>
  The switch manager, \<^verbatim>\<open>src/Switch.cc\<close>: the switches that ever connected and the ports of each, kept
  up to date by the signals of the controller, and the signals to the applications. The signals are
  handled one after the other in the event loop of Qt, so the locks play no part.
\<close>

section \<open>State\<close>

record of_switch =
  sw_nbuffers :: "32 word"
  sw_ntables :: "8 word"
  sw_capabilities :: "32 word"
  sw_desc :: string
  sw_ports :: "(32 word \<times> of_port) list"

datatype switch_signal = Switch_discovered "64 word" | Switch_up "64 word" | Switch_down "64 word" | Sw_up "64 word" | Sw_down "64 word"
  | Sw_port_up "64 word" of_port | Sw_port_modified "64 word" of_port of_port | Sw_port_down "64 word" "32 word"

datatype switch_request = Request_port_descriptions "32 word" "64 word" | Request_switch_descriptions "32 word" "64 word"

text \<open>The two transactions are known by their numbers; events are left to the event log.\<close>

record switch_manager =
  sm_switches :: "(64 word \<times> of_switch) list"
  sm_pdescr :: "32 word"
  sm_swdescr :: "32 word"
  sm_signals :: "switch_signal list"
  sm_requests :: "switch_request list"

type_synonym switch_events = "(ev_type \<times> 64 word) list"

definition sm_init :: "controller \<Rightarrow> controller \<times> switch_manager option" where
  "sm_init c = (case register_static_transaction c of
     (c1, Some p) \<Rightarrow> (case register_static_transaction c1 of
        (c2, Some q) \<Rightarrow> (c2, Some \<lparr>sm_switches = [], sm_pdescr = p, sm_swdescr = q, sm_signals = [], sm_requests = []\<rparr>)
      | (c2, None) \<Rightarrow> (c2, None))
   | (c1, None) \<Rightarrow> (c1, None))"

definition emit_switch :: "switch_signal list \<Rightarrow> switch_manager \<Rightarrow> switch_manager" where
  "emit_switch xs s = s\<lparr>sm_signals := sm_signals s @ xs\<rparr>"

definition get_switch :: "64 word \<Rightarrow> switch_manager \<Rightarrow> of_switch option" where
  "get_switch d s = map_of (sm_switches s) d"

definition sm_at :: "64 word \<Rightarrow> switch_manager \<Rightarrow> of_switch res" where
  "sm_at d s = (case map_of (sm_switches s) d of None \<Rightarrow> Inl Out_of_range | Some sw \<Rightarrow> Inr sw)"

definition set_switch :: "64 word \<Rightarrow> of_switch \<Rightarrow> switch_manager \<Rightarrow> switch_manager" where
  "set_switch d sw s = s\<lparr>sm_switches := put d sw (sm_switches s)\<rparr>"

section \<open>Operations\<close>

definition make_switch :: "features \<Rightarrow> of_switch" where
  "make_switch fr = \<lparr>sw_nbuffers = fr_nbuffers fr, sw_ntables = fr_ntables fr, sw_capabilities = fr_capabilities fr, sw_desc = [], sw_ports = []\<rparr>"

definition set_up :: "features \<Rightarrow> of_switch \<Rightarrow> of_switch" where
  "set_up fr sw = sw\<lparr>sw_nbuffers := fr_nbuffers fr, sw_ntables := fr_ntables fr, sw_capabilities := fr_capabilities fr\<rparr>"

definition request_descriptions :: "64 word \<Rightarrow> switch_manager \<Rightarrow> switch_manager" where
  "request_descriptions d s = s\<lparr>sm_requests := sm_requests s @ [Request_port_descriptions (sm_pdescr s) d, Request_switch_descriptions (sm_swdescr s) d]\<rparr>"

definition sm_switch_up :: "features \<Rightarrow> switch_manager \<Rightarrow> switch_manager \<times> switch_events" where
  "sm_switch_up fr s = (let d = fr_dpid fr in
     (request_descriptions d (case map_of (sm_switches s) d of
        None \<Rightarrow> emit_switch [Switch_discovered d, Switch_up d] (set_switch d (make_switch fr) s)
      | Some sw \<Rightarrow> emit_switch [Sw_up d, Switch_up d] (set_switch d (set_up fr sw) s)),
      [(Ev_add, d)]))"

definition set_down :: "64 word \<Rightarrow> of_switch \<Rightarrow> switch_manager \<Rightarrow> switch_manager" where
  "set_down d sw s = emit_switch (map (\<lambda>p. Sw_port_down d (fst p)) (sw_ports sw) @ [Sw_down d]) (set_switch d (sw\<lparr>sw_ports := []\<rparr>) s)"

definition sm_switch_down :: "64 word \<Rightarrow> switch_manager \<Rightarrow> switch_manager \<times> switch_events" where
  "sm_switch_down d s = (case map_of (sm_switches s) d of
     None \<Rightarrow> (s, [])
   | Some sw \<Rightarrow> (emit_switch [Switch_down d] (set_down d sw s), [(Ev_delete, d)]))"

text \<open>\<open>Switch::portStatus\<close>; the reasons are \<open>OFPPR_ADD\<close>, \<open>OFPPR_DELETE\<close> and \<open>OFPPR_MODIFY\<close>.\<close>

definition port_status :: "64 word \<Rightarrow> of_switch \<Rightarrow> 8 word \<Rightarrow> of_port \<Rightarrow> switch_manager \<Rightarrow> switch_manager" where
  "port_status d sw reason port s = (let n = op_no port in
     if reason = 0 then emit_switch [Sw_port_up d port]
       (set_switch d (if map_of (sw_ports sw) n = None then sw\<lparr>sw_ports := put n port (sw_ports sw)\<rparr> else sw) s)
     else if reason = 1 then emit_switch [Sw_port_down d n] (set_switch d (sw\<lparr>sw_ports := remove_key n (sw_ports sw)\<rparr>) s)
     else if reason = 2 then (case map_of (sw_ports sw) n of
         None \<Rightarrow> s
       | Some old \<Rightarrow> emit_switch [Sw_port_modified d port old] (set_switch d (sw\<lparr>sw_ports := put n port (sw_ports sw)\<rparr>) s))
     else s)"

definition on_port_status :: "64 word \<Rightarrow> 8 word \<Rightarrow> of_port \<Rightarrow> switch_manager \<Rightarrow> switch_manager res" where
  "on_port_status d reason port s = rbind (sm_at d s) (\<lambda>sw. Inr (port_status d sw reason port s))"

text \<open>\<open>portDescArrived\<close>: a port that is known stays as it is.\<close>

fun port_desc_arrived :: "64 word \<Rightarrow> of_port list \<Rightarrow> of_switch \<Rightarrow> switch_manager \<Rightarrow> switch_manager" where
  "port_desc_arrived d [] sw s = s"
| "port_desc_arrived d (port # ports) sw s =
     (if map_of (sw_ports sw) (op_no port) = None
      then let sw' = sw\<lparr>sw_ports := put (op_no port) port (sw_ports sw)\<rparr> in
        port_desc_arrived d ports sw' (emit_switch [Sw_port_up d port] (set_switch d sw' s))
      else port_desc_arrived d ports sw s)"

definition on_port_descriptions :: "64 word \<Rightarrow> of_msg \<Rightarrow> switch_manager \<Rightarrow> switch_manager res" where
  "on_port_descriptions d m s = (case m of
     Multipart_reply xid (Port_desc ports) \<Rightarrow> rbind (sm_at d s) (\<lambda>sw. Inr (port_desc_arrived d ports sw s))
   | _ \<Rightarrow> Inr s)"

text \<open>The reply is read as a description, whatever its part is.\<close>

definition on_switch_descriptions :: "64 word \<Rightarrow> of_msg \<Rightarrow> switch_manager \<Rightarrow> switch_manager res" where
  "on_switch_descriptions d m s = (case m of
     Multipart_reply xid part \<Rightarrow> rbind (sm_at d s) (\<lambda>sw. case part of
         Switch_desc desc \<Rightarrow> Inr (set_switch d (sw\<lparr>sw_desc := desc\<rparr>) s)
       | _ \<Rightarrow> Inl Bad_cast)
   | _ \<Rightarrow> Inr s)"

text \<open>\<open>switches()\<close>: those with a connection that is alive; \<open>ports()\<close> and \<open>port\<close> of a switch.\<close>

definition sm_all :: "(64 word \<Rightarrow> bool) \<Rightarrow> switch_manager \<Rightarrow> 64 word list" where
  "sm_all alive s = filter alive (map fst (sm_switches s))"

definition ports_of_switch :: "of_switch \<Rightarrow> of_port list" where
  "ports_of_switch sw = map snd (sw_ports sw)"

definition switch_port :: "32 word \<Rightarrow> of_switch \<Rightarrow> of_port res" where
  "switch_port n sw = (case map_of (sw_ports sw) n of None \<Rightarrow> Inl Out_of_range | Some p \<Rightarrow> Inr p)"

section \<open>What the applications know\<close>

text \<open>
  An application that follows the signals: it may take the port of every \<open>portUp\<close>, or keep the port it
  knows already.
\<close>

type_synonym port_view = "64 word \<Rightarrow> 32 word \<Rightarrow> of_port option"

definition set_port :: "64 word \<Rightarrow> 32 word \<Rightarrow> of_port option \<Rightarrow> port_view \<Rightarrow> port_view" where
  "set_port d n p v = v(d := (v d)(n := p))"

fun observe :: "bool \<Rightarrow> switch_signal \<Rightarrow> port_view \<Rightarrow> port_view" where
  "observe keep (Sw_port_up d p) v = (if keep \<and> v d (op_no p) \<noteq> None then v else set_port d (op_no p) (Some p) v)"
| "observe keep (Sw_port_modified d p old) v = set_port d (op_no p) (Some p) v"
| "observe keep (Sw_port_down d n) v = set_port d n None v"
| "observe keep _ v = v"

definition observed :: "bool \<Rightarrow> switch_manager \<Rightarrow> port_view" where
  "observed keep s = fold (observe keep) (sm_signals s) (\<lambda>_ _. None)"

definition kept_ports :: "switch_manager \<Rightarrow> port_view" where
  "kept_ports s d = (case map_of (sm_switches s) d of None \<Rightarrow> Map.empty | Some sw \<Rightarrow> map_of (sw_ports sw))"

datatype switch_event = Ev_up features | Ev_down "64 word" | Ev_status "64 word" "8 word" of_port | Ev_ports "64 word" of_msg | Ev_desc "64 word" of_msg

fun sm_apply :: "switch_event \<Rightarrow> switch_manager \<Rightarrow> switch_manager res" where
  "sm_apply (Ev_up fr) s = Inr (fst (sm_switch_up fr s))"
| "sm_apply (Ev_down d) s = Inr (fst (sm_switch_down d s))"
| "sm_apply (Ev_status d r p) s = on_port_status d r p s"
| "sm_apply (Ev_ports d m) s = on_port_descriptions d m s"
| "sm_apply (Ev_desc d m) s = on_switch_descriptions d m s"

lemma observed_emit [simp]: "observed keep (emit_switch xs s) = fold (observe keep) xs (observed keep s)"
  by (simp add: observed_def emit_switch_def)

lemma observed_set [simp]: "observed keep (set_switch d sw s) = observed keep s"
  by (simp add: observed_def set_switch_def)

lemma observed_request [simp]: "observed keep (request_descriptions d s) = observed keep s"
  by (simp add: observed_def request_descriptions_def)

lemma kept_emit [simp]: "kept_ports (emit_switch xs s) = kept_ports s"
  by (simp add: kept_ports_def emit_switch_def fun_eq_iff)

lemma kept_request [simp]: "kept_ports (request_descriptions d s) = kept_ports s"
  by (simp add: kept_ports_def request_descriptions_def fun_eq_iff)

lemma kept_set [simp]: "kept_ports (set_switch d sw s) = (kept_ports s)(d := map_of (sw_ports sw))"
  by (simp add: kept_ports_def set_switch_def fun_eq_iff)

lemma kept_at: "map_of (sm_switches s) d = Some sw \<Longrightarrow> kept_ports s d = map_of (sw_ports sw)"
  by (simp add: kept_ports_def fun_eq_iff)

text \<open>The two views of an observer: equal to the ports that are kept, or with the same numbers.\<close>

definition view_ok :: "bool \<Rightarrow> port_view \<Rightarrow> switch_manager \<Rightarrow> bool" where
  "view_ok keep v s = (\<forall>d n. if keep then v d n = kept_ports s d n else (v d n = None \<longleftrightarrow> kept_ports s d n = None))"

lemma view_okD:
  assumes "view_ok keep v s"
  shows "keep \<Longrightarrow> v d n = kept_ports s d n" "v d n = None \<longleftrightarrow> kept_ports s d n = None"
  using assms unfolding view_ok_def by (cases keep; simp)+

lemma observe_downs:
  "fold (observe keep) (map (\<lambda>p. Sw_port_down d (fst p)) ps) v = v(d := (\<lambda>n. if n \<in> fst ` set ps then None else v d n))"
  by (induction ps arbitrary: v) (auto simp: set_port_def fun_eq_iff)

lemma view_down:
  assumes "view_ok keep (observed keep s) s" "map_of (sm_switches s) d = Some sw"
  shows "view_ok keep (observed keep (set_down d sw s)) (set_down d sw s)"
proof -
  have "kept_ports s d n = None" if "n \<notin> fst ` set (sw_ports sw)" for n
    using that kept_at [OF assms(2)] by (simp add: map_of_eq_None_iff)
  then show ?thesis using view_okD [OF assms(1)]
    by (auto simp: view_ok_def set_down_def observe_downs)
qed

lemma view_port:
  assumes "view_ok keep (observed keep s) s" "map_of (sm_switches s) d = Some sw"
  shows "view_ok keep (observed keep (port_status d sw reason port s)) (port_status d sw reason port s)"
proof -
  note k = kept_at [OF assms(2)]
  show ?thesis
    using view_okD [OF assms(1)] k by (cases keep) (auto simp: view_ok_def port_status_def Let_def set_port_def split: option.splits)
qed

lemma view_ports:
  "view_ok keep (observed keep s) s \<Longrightarrow> map_of (sm_switches s) d = Some sw \<Longrightarrow>
    view_ok keep (observed keep (port_desc_arrived d ports sw s)) (port_desc_arrived d ports sw s)"
proof (induction d ports sw s rule: port_desc_arrived.induct)
  case (2 d port ports sw s)
  show ?case
  proof (cases "map_of (sw_ports sw) (op_no port) = None")
    case True
    let ?sw = "sw\<lparr>sw_ports := put (op_no port) port (sw_ports sw)\<rparr>"
    have "port_status d sw 0 port s = emit_switch [Sw_port_up d port] (set_switch d ?sw s)" using True by (simp add: port_status_def)
    then have "view_ok keep (observed keep (emit_switch [Sw_port_up d port] (set_switch d ?sw s))) (emit_switch [Sw_port_up d port] (set_switch d ?sw s))"
      using view_port [OF 2(3,4), of 0 port] by simp
    moreover have "map_of (sm_switches (emit_switch [Sw_port_up d port] (set_switch d ?sw s))) d = Some ?sw"
      by (simp add: emit_switch_def set_switch_def)
    ultimately show ?thesis using 2(1) [OF True refl] True by (simp add: Let_def)
  next
    case False
    then show ?thesis using 2(2) 2(3,4) by auto
  qed
qed simp

lemma view_apply:
  assumes "view_ok keep (observed keep s) s" "sm_apply e s = Inr s'"
  shows "view_ok keep (observed keep s') s'"
proof (cases e)
  case (Ev_up fr)
  show ?thesis
  proof (cases "map_of (sm_switches s) (fr_dpid fr)")
    case None
    then have "kept_ports s (fr_dpid fr) = Map.empty" by (simp add: kept_ports_def)
    then show ?thesis using assms(2) view_okD [OF assms(1)] None Ev_up by (auto simp: view_ok_def sm_switch_up_def Let_def make_switch_def split: if_splits)
  next
    case (Some sw)
    then show ?thesis using assms(2) view_okD [OF assms(1)] kept_at [OF Some] Ev_up by (auto simp: view_ok_def sm_switch_up_def Let_def set_up_def split: if_splits)
  qed
next
  case (Ev_down d)
  then show ?thesis using assms view_down [OF assms(1), of d]
    by (cases "map_of (sm_switches s) d") (auto simp: sm_switch_down_def view_ok_def)
next
  case (Ev_status d r p)
  then show ?thesis using assms view_port [OF assms(1)]
    by (cases "map_of (sm_switches s) d") (auto simp: on_port_status_def sm_at_def)
next
  case (Ev_ports d m)
  then show ?thesis using assms view_ports [OF assms(1)]
    by (cases "map_of (sm_switches s) d") (auto simp: on_port_descriptions_def sm_at_def split: of_msg.splits multipart.splits)
next
  case (Ev_desc d m)
  then show ?thesis using assms(2) view_okD [OF assms(1)] kept_at [of s d]
    by (cases "map_of (sm_switches s) d")
       (auto simp: on_switch_descriptions_def sm_at_def view_ok_def split: of_msg.splits multipart.splits if_splits)
qed

text \<open>
  C11: Applications know the ports. Whatever switches connect, disconnect, report ports, change them or describe them
  all, an application that follows the port signals knows exactly the numbers of the ports the switch manager has,
  for every switch; and it knows the ports themselves, if it keeps a port it knows when the same port comes up again.
  A switch that went down has no ports.
\<close>

theorem applications_know_ports:
  assumes "sm_init c = (c', Some s0)" "rfold sm_apply events s0 = Inr s"
  shows "(\<forall>d. dom (observed False s d) = dom (kept_ports s d)) \<and> observed True s = kept_ports s \<and>
    kept_ports (fst (sm_switch_down d s)) d = Map.empty"
proof -
  have "view_ok keep (observed keep s0) s0" for keep
    using assms(1) by (auto simp: sm_init_def view_ok_def observed_def kept_ports_def split: option.splits prod.splits)
  then have "view_ok keep (observed keep s) s" for keep
    using assms(2)
  proof (induction events arbitrary: s0)
    case (Cons e es)
    then obtain s1 where "sm_apply e s0 = Inr s1" "rfold sm_apply es s1 = Inr s" by (auto simp: rbind_eq_Inr)
    then show ?case using Cons view_apply by blast
  qed simp
  then have ok: "view_ok True (observed True s) s" "view_ok False (observed False s) s" by blast+
  have "dom (observed False s d) = dom (kept_ports s d)" for d using view_okD(2) [OF ok(2)] by (auto simp: dom_def)
  moreover have "observed True s = kept_ports s" using view_okD(1) [OF ok(1)] by (simp add: fun_eq_iff)
  ultimately show ?thesis
    by (auto simp: sm_switch_down_def set_down_def kept_ports_def emit_switch_def set_switch_def split: option.splits)
qed

definition sample_features :: features where
  "sample_features = \<lparr>fr_dpid = 7, fr_nbuffers = 256, fr_ntables = 4, fr_capabilities = 0\<rparr>"

definition sample_port :: of_port where
  "sample_port = \<lparr>op_no = 3, op_hw_addr = [0, 0, 0, 0, 0, 1], op_state = 0\<rparr>"

lemma applications_know_ports_witness:
  "\<exists>s. rfold sm_apply [Ev_up sample_features, Ev_status 7 0 sample_port] (the (snd (sm_init (ctrl_init 0)))) = Inr s \<and>
    kept_ports s 7 3 = Some sample_port \<and> observed True s = kept_ports s"
proof -
  let ?s0 = "the (snd (sm_init (ctrl_init 0)))" and ?es = "[Ev_up sample_features, Ev_status 7 0 sample_port]"
  have i: "sm_init (ctrl_init 0) = (fst (sm_init (ctrl_init 0)), Some ?s0)" by (simp add: sm_init_def register_static_transaction_def ctrl_init_def)
  have "(case rfold sm_apply ?es ?s0 of Inl e \<Rightarrow> False | Inr s \<Rightarrow> kept_ports s 7 3 = Some sample_port)" by code_simp
  then obtain s where s: "rfold sm_apply ?es ?s0 = Inr s" "kept_ports s 7 3 = Some sample_port" by (auto split: sum.splits)
  show ?thesis using applications_know_ports [OF i s(1)] s by blast
qed

text \<open>A port that is added twice: the signal carries the new port, and the manager keeps the old one.\<close>

lemma second_port_is_only_signalled:
  "rbind (rfold sm_apply [Ev_up sample_features, Ev_status 7 0 sample_port, Ev_status 7 0 (sample_port\<lparr>op_state := 1\<rparr>)] (the (snd (sm_init (ctrl_init 0)))))
     (\<lambda>s. Inr (kept_ports s 7 3, observed False s 7 3)) = Inr (Some sample_port, Some (sample_port\<lparr>op_state := 1\<rparr>))"
  by code_simp

end
