(* ===== verification/Connections.thy ===== *)
theory Connections
  imports Switch_Manager
begin

text \<open>
  The controller, the switch manager and the event log together: what happens on the connections
  reaches the applications and, through the event log, the web clients.
\<close>

section \<open>Signals are delivered\<close>

text \<open>The slots the switch manager connects in \<open>init\<close>.\<close>

definition deliver :: "ctrl_signal \<Rightarrow> switch_manager \<Rightarrow> (switch_manager \<times> switch_events) res" where
  "deliver x s = (case x of
     Switch_up_signal fr \<Rightarrow> Inr (sm_switch_up fr s)
   | Switch_down_signal d \<Rightarrow> Inr (sm_switch_down d s)
   | Port_status_signal d reason port \<Rightarrow> rbind (on_port_status d reason port s) (\<lambda>s'. Inr (s', []))
   | Transaction_response xid d m \<Rightarrow> rbind
       (if xid = sm_pdescr s then on_port_descriptions d m s
        else if xid = sm_swdescr s then on_switch_descriptions d m s else Inr s) (\<lambda>s'. Inr (s', []))
   | _ \<Rightarrow> Inr (s, []))"

fun deliver_all :: "ctrl_signal list \<Rightarrow> switch_manager \<Rightarrow> (switch_manager \<times> switch_events) res" where
  "deliver_all [] s = Inr (s, [])"
| "deliver_all (x # xs) s = rbind (deliver x s) (\<lambda>(s1, evs). rbind (deliver_all xs s1) (\<lambda>(s2, evs'). Inr (s2, evs @ evs')))"

datatype net_event = Conn nat conn_event | Msg nat of_msg

definition ctrl_apply :: "net_event \<Rightarrow> controller \<Rightarrow> controller res" where
  "ctrl_apply e c = (case e of Conn n ev \<Rightarrow> Inr (connection_callback n ev c) | Msg n m \<Rightarrow> message_callback n m c)"

type_synonym ctrl_network = "controller \<times> switch_manager"

definition net_apply :: "net_event \<Rightarrow> ctrl_network \<Rightarrow> (ctrl_network \<times> switch_events) res" where
  "net_apply e s = rbind (ctrl_apply e ((fst s)\<lparr>ct_signals := []\<rparr>)) (\<lambda>c.
     rbind (deliver_all (ct_signals c) (snd s)) (\<lambda>(sm, evs). Inr ((c, sm), evs)))"

definition net_start :: "8 word \<Rightarrow> bool \<Rightarrow> ctrl_network" where
  "net_start max_table cbench = (ctrl_start_up cbench (fst (sm_init (ctrl_init max_table))), the (snd (sm_init (ctrl_init max_table))))"

section \<open>One connection for each switch\<close>

text \<open>
  A connection starts once, and a switch does not introduce itself on a second connection before the first one is
  closed, nor twice on one.
\<close>

definition allowed :: "net_event \<Rightarrow> controller \<Rightarrow> bool" where
  "allowed e c = (case e of
     Conn n Conn_started \<Rightarrow> app_data n c = None
   | Msg n (Features_reply fr) \<Rightarrow> app_data n c = None \<and> fr_dpid fr \<notin> snd ` set (ct_app c)
   | _ \<Rightarrow> True)"

inductive net_step :: "ctrl_network \<Rightarrow> switch_events \<Rightarrow> ctrl_network \<Rightarrow> bool" where
  net: "allowed e (fst s) \<Longrightarrow> net_apply e s = Inr (s', evs) \<Longrightarrow> net_step s evs s'"

definition connected_switches :: "ctrl_network \<Rightarrow> 64 word set" where
  "connected_switches s = {d. \<exists>n. app_data n (fst s) = Some d}"

definition net_ok :: "ctrl_network \<Rightarrow> bool" where
  "net_ok s = (distinct (map fst (ct_app (fst s))) \<and> (\<forall>n d. app_data n (fst s) = Some d \<longleftrightarrow> conn_of d (fst s) = Some n) \<and>
     connected_switches s \<subseteq> dom (map_of (sm_switches (snd s))))"

lemma net_okD:
  assumes "net_ok s"
  shows "distinct (map fst (ct_app (fst s)))" "app_data n (fst s) = Some d \<longleftrightarrow> conn_of d (fst s) = Some n"
    and "connected_switches s \<subseteq> dom (map_of (sm_switches (snd s)))"
  using assms unfolding net_ok_def by blast+

abbreviation quiet :: "ctrl_signal \<Rightarrow> bool" where
  "quiet x \<equiv> (case x of Switch_up_signal fr \<Rightarrow> False | Switch_down_signal d \<Rightarrow> False | _ \<Rightarrow> True)"

lemma port_desc_switches: "map_of (sm_switches s) d = Some sw \<Longrightarrow>
  dom (map_of (sm_switches (port_desc_arrived d ports sw s))) = dom (map_of (sm_switches s))"
proof (induction d ports sw s rule: port_desc_arrived.induct)
  case (2 d port ports sw s)
  then show ?case by (cases "map_of (sw_ports sw) (op_no port)") (auto simp: Let_def emit_switch_def set_switch_def split: if_splits)
qed simp

lemma deliver_quiet:
  assumes "quiet x" "deliver x s = Inr (s', evs)"
  shows "evs = [] \<and> dom (map_of (sm_switches s')) = dom (map_of (sm_switches s))"
proof -
  have at: "sm_at d s = Inr sw \<Longrightarrow> map_of (sm_switches s) d = Some sw" for d sw by (auto simp: sm_at_def split: option.splits)
  have ps: "dom (map_of (sm_switches s')) = dom (map_of (sm_switches s))"
    if "on_port_status d r p s = Inr s'" for d r p s'
    using that by (auto simp: on_port_status_def rbind_eq_Inr port_status_def Let_def emit_switch_def set_switch_def dest!: at split: option.splits if_splits)
  have pd: "dom (map_of (sm_switches s')) = dom (map_of (sm_switches s))"
    if "on_port_descriptions d m s = Inr s'" for d m s'
    using that at port_desc_switches by (fastforce simp: on_port_descriptions_def rbind_eq_Inr split: of_msg.splits multipart.splits)
  have sd: "dom (map_of (sm_switches s')) = dom (map_of (sm_switches s))"
    if "on_switch_descriptions d m s = Inr s'" for d m s'
  proof (cases "\<exists>xid desc. m = Multipart_reply xid (Switch_desc desc)")
    case True
    then show ?thesis using that by (auto simp: on_switch_descriptions_def rbind_eq_Inr set_switch_def dest!: at split: if_splits)
  next
    case False
    then show ?thesis using that
      by (cases m) (auto simp: on_switch_descriptions_def rbind_eq_Inr split: multipart.split_asm, (metis multipart.exhaust)+)
  qed
  show ?thesis using assms by (cases x) (auto simp: deliver_def rbind_eq_Inr simp del: dom_def split: if_splits, (metis ps pd sd domI domD)+)
qed

lemma deliver_all_quiet:
  "\<forall>x \<in> set xs. quiet x \<Longrightarrow> deliver_all xs s = Inr (s', evs) \<Longrightarrow> evs = [] \<and> dom (map_of (sm_switches s')) = dom (map_of (sm_switches s))"
proof (induction xs arbitrary: s s' evs)
  case (Cons x xs)
  then obtain s1 e1 e2 where "deliver x s = Inr (s1, e1)" "deliver_all xs s1 = Inr (s', e2)" "evs = e1 @ e2"
    by (auto simp: rbind_eq_Inr split_beta)
  then show ?case using Cons deliver_quiet by (metis append_Nil list.set_intros(1,2))
qed simp

text \<open>What happens on a connection.\<close>

lemma conn_of_put: "map_of (ct_switches c') = (map_of (ct_switches c))(d \<mapsto> b) \<Longrightarrow> conn_of e c' = (if e = d then sb_conn b else conn_of e c)"
  by (simp add: conn_of_def)

lemma ctrl_apply_cases:
  assumes "ctrl_apply e (c\<lparr>ct_signals := []\<rparr>) = Inr c'" "allowed e c"
  obtains (quiet) "ct_app c' = ct_app c \<or> (\<exists>n. app_data n c = None \<and> ct_app c' = remove_key n (ct_app c))"
      "ct_switches c' = ct_switches c" "\<forall>x \<in> set (ct_signals c'). quiet x"
  | (up) n fr where "app_data n c = None" "fr_dpid fr \<notin> snd ` set (ct_app c)" "ct_app c' = put n (fr_dpid fr) (ct_app c)"
      "map_of (ct_switches c') = (map_of (ct_switches c))(fr_dpid fr \<mapsto> \<lparr>sb_conn = Some n, sb_max = table_count (fr_dpid fr) c\<rparr>)"
      "ct_signals c' = [Switch_up_signal fr]"
  | (down) n d where "app_data n c = Some d" "ct_app c' = remove_key n (ct_app c)"
      "map_of (ct_switches c') = (map_of (ct_switches c))(d \<mapsto> \<lparr>sb_conn = None, sb_max = table_count d c\<rparr>)"
      "ct_signals c' = [Switch_down_signal d]"
proof (cases e)
  case (Conn n ev)
  have same: "app_data n (c\<lparr>ct_signals := []\<rparr>) = app_data n c" "table_count d (c\<lparr>ct_signals := []\<rparr>) = table_count d c" for n d
    by (simp_all add: app_data_def table_count_def split: option.split)
  note defs = ctrl_apply_def connection_callback_def emit_ctrl_def allowed_def table_count_def
  show thesis
  proof (cases "ev \<in> {Conn_closed, Conn_dead} \<and> app_data n c \<noteq> None")
    case True
    then obtain d where d: "app_data n c = Some d" by blast
    show thesis by (rule down [OF d]) (use assms Conn True same d in \<open>auto simp: defs\<close>)
  next
    case False
    have "ct_app c' = ct_app c \<or> app_data n c = None \<and> ct_app c' = remove_key n (ct_app c)"
      using assms Conn False same by (cases ev; cases "app_data n c") (auto simp: defs)
    then show thesis by (intro quiet) (use assms Conn False same in \<open>auto simp: defs split: conn_event.splits\<close>)
  qed
next
  case (Msg n m)
  have same: "app_data n (c\<lparr>ct_signals := []\<rparr>) = app_data n c" "table_count d (c\<lparr>ct_signals := []\<rparr>) = table_count d c" for n d
    by (simp_all add: app_data_def table_count_def split: option.split)
  show thesis
  proof (cases "ct_cbench c \<and> type_number m = 10")
    case True
    then have "c' = emit_ctrl (Bench_reply n (message_xid m)) (c\<lparr>ct_signals := []\<rparr>)"
      using assms(1) by (simp add: ctrl_apply_def Msg message_callback_def)
    then show thesis by (intro quiet) (simp_all add: emit_ctrl_def)
  next
    case False
    then have run: "rbind (apply_handler n (type_number m) (c\<lparr>ct_signals := []\<rparr>)) (handle_message n m) = Inr c'"
      using assms(1) by (simp add: ctrl_apply_def Msg message_callback_def split: if_splits)
    show thesis
    proof (cases "\<exists>fr. m = Features_reply fr")
      case True
      then obtain fr where m: "m = Features_reply fr" by blast
      have none: "app_data n c = None" "fr_dpid fr \<notin> snd ` set (ct_app c)" using assms(2) Msg m by (simp_all add: allowed_def)
      then have "6 \<notin> set (ct_handlers c)" using run m
        by (auto simp: apply_handler_def rbind_eq_Inr same type_number_def split: if_splits)
      then show thesis using up [OF none] run m
        by (auto simp: apply_handler_def handle_message_def create_switch_base_def emit_ctrl_def type_number_def same)
    next
      case False
      have "ct_app s2 = ct_app s1 \<and> ct_switches s2 = ct_switches s1 \<and> (\<exists>xs. ct_signals s2 = ct_signals s1 @ xs \<and> (\<forall>x \<in> set xs. quiet x))"
        if "apply_handler n t s1 = Inr s2" for t s1 s2
        using that by (auto simp: apply_handler_def emit_ctrl_def split: if_splits option.splits)
      moreover have "ct_app s2 = ct_app s1 \<and> ct_switches s2 = ct_switches s1 \<and> (\<exists>xs. ct_signals s2 = ct_signals s1 @ xs \<and> (\<forall>x \<in> set xs. quiet x))"
        if "handle_message n m s1 = Inr s2" for s1 s2
      proof -
        have "ct_app s2 = ct_app s1 \<and> ct_switches s2 = ct_switches s1 \<and> (\<exists>xs. ct_signals s2 = ct_signals s1 @ xs \<and> (\<forall>x \<in> set xs. quiet x))"
          if "dispatch_xid m d s1 = Inr s2" for d
          using that by (auto simp: dispatch_xid_def emit_ctrl_def Let_def split: of_union.splits if_splits)
        then show ?thesis using that False
          by (auto simp: handle_message_def emit_ctrl_def split: of_msg.splits option.splits)
      qed
      ultimately show thesis using run quiet by (fastforce simp: rbind_eq_Inr)
    qed
  qed
qed

lemma app_data_eq: "app_data n c' = (if P then x else map_of (ct_app c) n) \<Longrightarrow> app_data n c' = (if P then x else app_data n c)"
  by (simp add: app_data_def)

lemma net_step_ok:
  assumes ok: "net_ok s" and step: "net_step s evs s'"
  shows "net_ok s' \<and> tracks evs (connected_switches s) (connected_switches s')"
  using step
proof cases
  case (net e)
  obtain c sm where s: "s = (c, sm)" by (cases s)
  obtain c' sm' where s': "s' = (c', sm')" by (cases s')
  have run: "ctrl_apply e (c\<lparr>ct_signals := []\<rparr>) = Inr c'" "deliver_all (ct_signals c') sm = Inr (sm', evs)"
    using net(2) by (auto simp: net_apply_def s s' rbind_eq_Inr)
  note ok = net_okD [OF ok, unfolded s fst_conv snd_conv]
  from run(1) net(1) [unfolded s fst_conv] show ?thesis
  proof (cases rule: ctrl_apply_cases)
    case quiet
    have "app_data n c' = app_data n c" for n using quiet(1) by (auto simp: app_data_def)
    moreover have "conn_of d c' = conn_of d c" for d using quiet(2) by (simp add: conn_of_def)
    moreover have "distinct (map fst (ct_app c'))" using quiet(1) ok(1) by (auto simp: distinct_remove_key)
    ultimately show ?thesis using ok deliver_all_quiet [OF quiet(3) run(2)]
      by (simp add: net_ok_def s s' connected_switches_def)
  next
    case (up n fr)
    have a: "app_data k c' = (if k = n then Some (fr_dpid fr) else app_data k c)" for k using up(3) by (simp add: app_data_def)
    have new: "app_data k c \<noteq> Some (fr_dpid fr)" for k
      using up(2) by (auto simp: app_data_def image_iff dest!: map_of_SomeD)
    have "evs = [(Ev_add, fr_dpid fr)]" "dom (map_of (sm_switches sm')) = insert (fr_dpid fr) (dom (map_of (sm_switches sm)))"
      using run(2) up(5) by (auto simp: deliver_def sm_switch_up_def Let_def request_descriptions_def emit_switch_def set_switch_def split: option.splits)
    moreover have "connected_switches s' = insert (fr_dpid fr) (connected_switches s)"
    proof -
      have "(\<exists>k. app_data k c' = Some d) \<longleftrightarrow> d = fr_dpid fr \<or> (\<exists>k. app_data k c = Some d)" for d
        unfolding a using up(1) by (metis option.distinct(1) option.inject)
      then show ?thesis by (auto simp: connected_switches_def s s')
    qed
    moreover have "fr_dpid fr \<notin> connected_switches s" using new by (simp add: connected_switches_def s)
    moreover have "app_data k c' = Some d \<longleftrightarrow> conn_of d c' = Some k" for k d
      using ok(2) [of k d] ok(2) [of n d] new [of k] up(1) by (auto simp: a conn_of_put [OF up(4)])
    moreover have "distinct (map fst (ct_app c'))" using ok(1) by (simp add: up(3) distinct_put)
    ultimately show ?thesis using ok(3) by (auto simp: net_ok_def s s')
  next
    case (down n d)
    have a: "app_data k c' = (if k = n then None else app_data k c)" for k using down(2) by (simp add: app_data_def)
    have only: "app_data k c = Some d \<longleftrightarrow> k = n" for k using ok(2) [of k d] ok(2) [of n d] down(1) by auto
    have "(\<exists>k. app_data k c' = Some x) \<longleftrightarrow> x \<noteq> d \<and> (\<exists>k. app_data k c = Some x)" for x
      unfolding a using down(1) only by (metis option.distinct(1) option.inject)
    then have con: "connected_switches s' = connected_switches s - {d}" "d \<in> connected_switches s" using down(1) by (auto simp: connected_switches_def s s')
    then have "map_of (sm_switches sm) d \<noteq> None" using ok(3) by (auto simp: s)
    then have "evs = [(Ev_delete, d)]" "dom (map_of (sm_switches sm')) = dom (map_of (sm_switches sm))"
      using run(2) down(4) by (auto simp: deliver_def sm_switch_down_def set_down_def emit_switch_def set_switch_def split: if_splits)
    moreover have "app_data k c' = Some e \<longleftrightarrow> conn_of e c' = Some k" for k e
      using ok(2) [of k e] only [of k] down(1) by (auto simp: a conn_of_put [OF down(3)])
    moreover have "distinct (map fst (ct_app c'))" using ok(1) by (simp add: down(2) distinct_remove_key)
    ultimately show ?thesis using ok(3) con by (auto simp: net_ok_def s s')
  qed
qed

lemma net_start_eq: "net_start max_table cbench = (\<lparr>ct_app = [], ct_switches = [], ct_max_table = max_table, ct_started = True, ct_cbench = cbench, ct_handlers = [],
     ct_transactions = [True, True], ct_next_xid = min_xid + 2, ct_signals = [], ct_tables = []\<rparr>,
   \<lparr>sm_switches = [], sm_pdescr = min_xid, sm_swdescr = min_xid + 1, sm_signals = [], sm_requests = []\<rparr>)"
  by (simp add: net_start_def sm_init_def register_static_transaction_def ctrl_init_def ctrl_start_up_def)

lemma net_start_ok: "net_ok (net_start max_table cbench)" "connected_switches (net_start max_table cbench) = {}"
  by (auto simp: net_start_eq net_ok_def connected_switches_def app_data_def conn_of_def)

interpretation switch_events: event_source net_step "net_start max_table cbench" net_ok connected_switches for max_table cbench
  by unfold_locales (rule net_start_ok net_step_ok, assumption?)+

text \<open>
  C9: The web interface shows the connected switches. Switches connect, send messages and lose their connections, at most
  one connection for each at a time; whenever a client then asks for news of the switch manager, it shows exactly the
  switches that are connected, and these are the ones that \<open>switches()\<close> returns.
\<close>

theorem clients_see_connected_switches:
  assumes "watched net_step app hash_map (net_start max_table cbench) s l since shown" "length (el_events l) < 2 ^ 32" "and (fst app) hash_map \<noteq> 0"
  shows "(\<exists>since' result. timeout hash_map since l = Inr (since', result) \<and> see_all result shown = connected_switches s) \<and>
    set (sm_all (\<lambda>d. conn_of d (fst s) \<noteq> None) (snd s)) = connected_switches s"
proof -
  have "net_ok s" using switch_events.watched_ok [OF assms(1,2)] by blast
  note ok = net_okD [OF this]
  have "conn_of d (fst s) \<noteq> None \<longleftrightarrow> d \<in> connected_switches s" for d using ok(2) by (auto simp: connected_switches_def)
  moreover have "set (map fst (sm_switches (snd s))) = dom (map_of (sm_switches (snd s)))" by (simp add: dom_map_of_conv_image_fst)
  ultimately have "set (sm_all (\<lambda>d. conn_of d (fst s) \<noteq> None) (snd s)) = connected_switches s" using ok(3) by (auto simp: sm_all_def)
  then show ?thesis using switch_events.client_sees_objects [OF assms] by blast
qed

text \<open>One switch connects and a client asks.\<close>

lemma sample_connects:
  "\<exists>s. net_step (net_start 0 False) [(Ev_add, 7)] s \<and> connected_switches s = {7}"
proof -
  let ?e = "Msg 1 (Features_reply sample_features)"
  have "(case net_apply ?e (net_start 0 False) of Inl x \<Rightarrow> False | Inr (s, evs) \<Rightarrow> evs = [(Ev_add, 7)] \<and> ct_app (fst s) = [(1, 7)])"
    by code_simp
  then obtain s where s: "net_apply ?e (net_start 0 False) = Inr (s, [(Ev_add, 7)])" "ct_app (fst s) = [(1, 7)]"
    by (auto split: sum.splits prod.splits)
  have "allowed ?e (fst (net_start 0 False))" by (simp add: net_start_eq allowed_def app_data_def)
  then have "net_step (net_start 0 False) [(Ev_add, 7)] s" using s(1) by (rule net_step.net)
  moreover have "connected_switches s = {7}" using s(2) by (auto simp: connected_switches_def app_data_def)
  ultimately show ?thesis by blast
qed

lemma clients_see_connected_switches_witness:
  "\<exists>s l since' result. timeout 1 0 l = Inr (since', result) \<and> see_all result {} = connected_switches s \<and> connected_switches s = {7}"
proof -
  obtain s where s: "net_step (net_start 0 False) [(Ev_add, 7)] s" "connected_switches s = {7}" using sample_connects by blast
  obtain l res where l: "log_events (1, ''switch-manager'') [(Ev_add, 7 :: 64 word)] el_init = (l, res)" by fastforce
  then have len: "length (el_events l) < 2 ^ 32" by (auto simp: add_to_event_list_def el_init_def Let_def)
  have "watched net_step (1, ''switch-manager'') 1 (net_start 0 False) s l 0 {}"
    using watched.start s(1) l by (rule watched.works)
  from clients_see_connected_switches [OF this len] s(2) have "\<exists>since' result. timeout 1 0 l = Inr (since', result) \<and> see_all result {} = connected_switches s"
    by simp
  then show ?thesis using s(2) by blast
qed

text \<open>
  A switch that connects again before its old connection is closed: when the old connection is closed,
  the switch is reported as down, and its connection object no longer leads to the new connection.
\<close>

definition reconnect :: "net_event list" where
  "reconnect = [Conn 1 Conn_started, Msg 1 (Features_reply sample_features), Conn 2 Conn_started, Msg 2 (Features_reply sample_features),
     Conn 1 Conn_closed]"

fun net_run :: "net_event list \<Rightarrow> ctrl_network \<Rightarrow> ctrl_network res" where
  "net_run [] s = Inr s"
| "net_run (e # es) s = rbind (net_apply e s) (\<lambda>(s', evs). net_run es s')"

lemma stale_connection_takes_switch_down:
  "rbind (net_run reconnect (net_start 0 False)) (\<lambda>(c, sm). Inr (app_data 2 c, conn_of 7 c, sm_signals sm)) =
    Inr (Some 7, None, [Switch_discovered 7, Switch_up 7, Sw_up 7, Switch_up 7, Sw_down 7, Switch_down 7])"
  by code_simp

lemma early_message_crashes:
  "message_callback 1 (Other_message 10 0) (register_handler 10 (ctrl_init 0)) = Inl Nullptr_dereference"
  by code_simp

section \<open>No exceptions\<close>

inductive net_reachable :: "8 word \<Rightarrow> bool \<Rightarrow> ctrl_network \<Rightarrow> bool" for max_table cbench where
  start: "net_reachable max_table cbench (net_start max_table cbench)"
| step: "net_reachable max_table cbench s \<Longrightarrow> net_step s evs s' \<Longrightarrow> net_reachable max_table cbench s'"

lemma net_reachable_ok: "net_reachable max_table cbench s \<Longrightarrow> net_ok s"
  by (induction rule: net_reachable.induct) (use net_start_ok net_step_ok in blast)+

text \<open>
  Messages of known kinds, after the introduction if a handler is registered for them; a request for
  descriptions is answered with a description.
\<close>

definition proper :: "net_event \<Rightarrow> ctrl_network \<Rightarrow> bool" where
  "proper e s = (case e of
     Conn n ev \<Rightarrow> True
   | Msg n m \<Rightarrow> (type_number m \<in> set (ct_handlers (fst s)) \<longrightarrow> app_data n (fst s) \<noteq> None) \<and> of_msg_union m \<noteq> No_message \<and>
       (case m of Multipart_reply xid part \<Rightarrow> xid = sm_swdescr (snd s) \<longrightarrow> (\<exists>desc. part = Switch_desc desc) | _ \<Rightarrow> True))"

definition signal_ok :: "switch_manager \<Rightarrow> ctrl_signal \<Rightarrow> bool" where
  "signal_ok sm x = (case x of
     Port_status_signal d reason port \<Rightarrow> map_of (sm_switches sm) d \<noteq> None
   | Transaction_response xid d m \<Rightarrow> map_of (sm_switches sm) d \<noteq> None \<and>
       (case m of Multipart_reply xid' part \<Rightarrow> xid' = xid \<and> (xid = sm_swdescr sm \<longrightarrow> (\<exists>desc. part = Switch_desc desc)) | _ \<Rightarrow> True)
   | _ \<Rightarrow> True)"

lemma deliver_returns: "signal_ok sm x \<Longrightarrow> returns (deliver x sm)"
  by (auto simp: signal_ok_def deliver_def on_port_status_def on_port_descriptions_def on_switch_descriptions_def sm_at_def
      split: ctrl_signal.splits of_msg.splits multipart.splits)

lemma ctrl_apply_signals:
  assumes ok: "net_ok s" and proper: "proper e s"
  obtains c hs ys where "ctrl_apply e ((fst s)\<lparr>ct_signals := []\<rparr>) = Inr c" "ct_signals c = hs @ ys"
    "\<forall>h \<in> set hs. \<exists>t d. h = Handler_applied t d" "ys = [] \<or> (\<exists>y. ys = [y] \<and> signal_ok (snd s) y)"
proof (cases e)
  case (Conn n ev)
  let ?c = "connection_callback n ev ((fst s)\<lparr>ct_signals := []\<rparr>)"
  have "ct_signals ?c = [] \<or> (\<exists>d. ct_signals ?c = [Switch_down_signal d])"
    by (auto simp: connection_callback_def emit_ctrl_def split: conn_event.splits option.splits)
  then show thesis by (intro that [of ?c "[]"]) (auto simp: ctrl_apply_def Conn signal_ok_def)
next
  case (Msg n m)
  let ?c = "(fst s)\<lparr>ct_signals := []\<rparr>"
  have same: "app_data k ?c = app_data k (fst s)" for k by (simp add: app_data_def)
  have p: "type_number m \<in> set (ct_handlers (fst s)) \<Longrightarrow> app_data n (fst s) \<noteq> None" "of_msg_union m \<noteq> No_message"
    "case m of Multipart_reply xid part \<Rightarrow> xid = sm_swdescr (snd s) \<longrightarrow> (\<exists>desc. part = Switch_desc desc) | _ \<Rightarrow> True"
    using proper Msg by (simp_all add: proper_def)
  show thesis
  proof (cases "ct_cbench (fst s) \<and> type_number m = 10")
    case True
    then show thesis by (intro that [of "emit_ctrl (Bench_reply n (message_xid m)) ?c" "[]" "[Bench_reply n (message_xid m)]"])
      (auto simp: ctrl_apply_def Msg message_callback_def emit_ctrl_def signal_ok_def)
  next
    case False
    obtain c1 hs where c1: "apply_handler n (type_number m) ?c = Inr c1" "ct_signals c1 = hs" "ct_app c1 = ct_app (fst s)"
      "\<forall>h \<in> set hs. \<exists>t d. h = Handler_applied t d"
      using p(1) by (cases "type_number m \<in> set (ct_handlers (fst s))"; cases "app_data n (fst s)")
        (auto simp: apply_handler_def same emit_ctrl_def)
    have a: "app_data n c1 = app_data n (fst s)" using c1(3) by (simp add: app_data_def)
    have known: "map_of (sm_switches (snd s)) d \<noteq> None" if "app_data n (fst s) = Some d" for d
      using net_okD(3) [OF ok] that by (auto simp: connected_switches_def)
    have dis: "\<exists>c2 ys. dispatch_xid m d c1 = Inr c2 \<and> ct_signals c2 = hs @ ys \<and> (ys = [] \<or> (\<exists>y. ys = [y] \<and> signal_ok (snd s) y))"
      if "app_data n (fst s) = Some d" for d
      using p(2,3) c1(2) known [OF that]
      by (auto simp: dispatch_xid_def Let_def emit_ctrl_def signal_ok_def message_xid_def split: of_union.splits of_msg.splits)
    obtain c2 ys where "handle_message n m c1 = Inr c2" "ct_signals c2 = hs @ ys" "ys = [] \<or> (\<exists>y. ys = [y] \<and> signal_ok (snd s) y)"
    proof (cases m)
      case (Features_reply fr)
      then show thesis by (intro that [OF _ _ disjI2]) (auto simp: handle_message_def emit_ctrl_def create_switch_base_def c1(2) signal_ok_def)
    next
      case (Port_status reason port)
      then show thesis using that [of c1 "[]"] that [OF _ _ disjI2] known c1(2)
        by (cases "app_data n (fst s)") (auto simp: handle_message_def a emit_ctrl_def signal_ok_def)
    next
      case Flow_removed
      then show thesis using that [of c1 "[]"] that [OF _ _ disjI2] c1(2)
        by (cases "app_data n (fst s)") (auto simp: handle_message_def a emit_ctrl_def signal_ok_def)
    qed (use that [of c1 "[]"] that dis c1(2) in \<open>cases "app_data n (fst s)"; fastforce simp: handle_message_def a\<close>)+
    then show thesis using that [of c2 hs ys] c1 False by (simp add: ctrl_apply_def Msg message_callback_def)
  qed
qed



end
