(* ===== verification/Rest_Numbers.thy ===== *)
theory Rest_Numbers
  imports Prelude
begin

text \<open>
  Numbers in REST requests, \<^verbatim>\<open>src/RestStringProcessing.hh\<close>: \<open>toString_cast\<close> prints them, in
  decimals or as \<open>0x\<close> and at least four hexadecimal digits, and \<open>string_cast\<close> reads them with the
  stream operator for 64 bits and rejects what does not fit the type. A number of a type of \<open>w\<close> bits
  is a natural number below \<open>2 ^ w\<close>.
\<close>

section \<open>Printing\<close>

fun digits :: "nat \<Rightarrow> nat \<Rightarrow> nat list" where
  "digits b n = (if b < 2 \<or> n < b then [n] else digits b (n div b) @ [n mod b])"

declare digits.simps [simp del]

definition digit_char :: "nat \<Rightarrow> char" where
  "digit_char d = (char_of (if d < 10 then 48 + d else 55 + d) :: char)"

definition number_text :: "nat \<Rightarrow> nat \<Rightarrow> string" where
  "number_text b n = map digit_char (digits b n)"

text \<open>The versions for characters ignore the notation.\<close>

definition to_string_cast :: "nat \<Rightarrow> bool \<Rightarrow> nat \<Rightarrow> string" where
  "to_string_cast w to_hex n =
     (if to_hex \<and> w \<noteq> 8 then (let s = number_text 16 n in ''0x'' @ replicate (4 - length s) (CHR ''0'') @ s) else number_text 10 n)"

section \<open>Reading\<close>

definition is_space :: "char \<Rightarrow> bool" where
  "is_space c = (c = CHR '' '' \<or> (9 \<le> (of_char c :: nat) \<and> (of_char c :: nat) \<le> 13))"

definition digit_value :: "char \<Rightarrow> nat option" where
  "digit_value c = (let k = of_char c :: nat in
     if 48 \<le> k \<and> k \<le> 57 then Some (k - 48) else if 65 \<le> k \<and> k \<le> 70 then Some (k - 55)
     else if 97 \<le> k \<and> k \<le> 102 then Some (k - 87) else None)"

fun read_digits :: "nat \<Rightarrow> string \<Rightarrow> nat \<Rightarrow> nat" where
  "read_digits b [] v = v"
| "read_digits b (c # cs) v = (case digit_value c of
     None \<Rightarrow> v
   | Some d \<Rightarrow> if d < b then read_digits b cs (v * b + d) else v)"

text \<open>
  The stream operator: spaces are skipped, a sign is read, a number that is too large becomes the largest one,
  and one with a minus sign is subtracted from \<open>2 ^ 64\<close>. Text that is no number gives zero; but where nothing
  is left after the spaces the operator does not touch the variable, which \<open>string_cast\<close> has not initialised:
  \<open>junk\<close> is what it happens to hold.
\<close>

definition clamp64 :: "nat \<Rightarrow> nat" where
  "clamp64 v = min v (2 ^ 64 - 1)"

definition read_decimal :: "nat \<Rightarrow> string \<Rightarrow> nat" where
  "read_decimal junk s = (case dropWhile is_space s of
     [] \<Rightarrow> junk mod 2 ^ 64
   | c # cs \<Rightarrow>
       if c = CHR ''-'' then (let v = read_digits 10 cs 0 in if v < 2 ^ 64 then (2 ^ 64 - v) mod 2 ^ 64 else 2 ^ 64 - 1)
       else if c = CHR ''+'' then clamp64 (read_digits 10 cs 0)
       else clamp64 (read_digits 10 (c # cs) 0))"

definition string_cast :: "nat \<Rightarrow> nat \<Rightarrow> string \<Rightarrow> nat res" where
  "string_cast junk w s =
     (let v = (if take 2 s = ''0x'' then clamp64 (read_digits 16 (drop 2 s) 0) else read_decimal junk s) in
      if v < 2 ^ w then Inr v else Inl Overflow_error)"

section \<open>What is printed is read back\<close>

lemma digit_value_char: "d < 16 \<Longrightarrow> digit_value (digit_char d) = Some d"
  by (simp add: digit_value_def digit_char_def)

lemma digits_less: "2 \<le> b \<Longrightarrow> \<forall>d \<in> set (digits b n). d < b"
  by (induction b n rule: digits.induct) (subst digits.simps, auto)

lemma read_digits_append:
  "\<forall>d \<in> set ds. d < b \<Longrightarrow> b \<le> 16 \<Longrightarrow> read_digits b (map digit_char ds @ s) v = read_digits b s (foldl (\<lambda>v d. v * b + d) v ds)"
  by (induction ds arbitrary: v) (auto simp: digit_value_char)

lemma foldl_digits: "2 \<le> b \<Longrightarrow> foldl (\<lambda>v d. v * b + d) 0 (digits b n) = n"
proof (induction b n rule: digits.induct)
  case (1 b n)
  then show ?case
    by (subst digits.simps) (auto simp: div_mult_mod_eq)
qed

lemma read_numeral: "2 \<le> b \<Longrightarrow> b \<le> 16 \<Longrightarrow> read_digits b (number_text b n) 0 = n"
  using read_digits_append [OF digits_less, of b n "[]" 0] foldl_digits [of b n] by (simp add: number_text_def)

lemma read_zeros: "0 < b \<Longrightarrow> read_digits b (replicate k (CHR ''0'') @ s) 0 = read_digits b s 0"
  by (induction k) (simp_all add: digit_value_def)

lemma numeral_chars: "c \<in> set (number_text 10 n) \<Longrightarrow> \<exists>d < 10. c = digit_char d"
  using digits_less [of 10 n] by (auto simp: number_text_def)

lemma digit_not: "d < 10 \<Longrightarrow> digit_char d \<noteq> CHR ''x''" "d < 10 \<Longrightarrow> digit_char d \<noteq> CHR ''-''"
  "d < 10 \<Longrightarrow> digit_char d \<noteq> CHR ''+''" "d < 10 \<Longrightarrow> \<not> is_space (digit_char d)"
proof -
  have "\<forall>d < 10. digit_char d \<noteq> CHR ''x'' \<and> digit_char d \<noteq> CHR ''-'' \<and> digit_char d \<noteq> CHR ''+'' \<and> \<not> is_space (digit_char d)"
    by code_simp
  then show "d < 10 \<Longrightarrow> digit_char d \<noteq> CHR ''x''" "d < 10 \<Longrightarrow> digit_char d \<noteq> CHR ''-''"
    "d < 10 \<Longrightarrow> digit_char d \<noteq> CHR ''+''" "d < 10 \<Longrightarrow> \<not> is_space (digit_char d)" by blast+
qed

lemma numeral_Cons: "\<exists>c cs. number_text b n = c # cs"
proof -
  have "digits b n \<noteq> []" by (subst digits.simps) simp
  then show ?thesis by (cases "digits b n") (auto simp: number_text_def)
qed

text \<open>
  Numbers survive: a number of any type of up to 64 bits that the REST interface prints, in decimals or in
  hexadecimal digits, is read back as the same number.
\<close>

lemma number_roundtrip:
  assumes "n < 2 ^ w" "w \<le> 64"
  shows "string_cast junk w (to_string_cast w to_hex n) = Inr n"
proof -
  have "n < 2 ^ 64" using assms by (meson less_le_trans one_le_numeral power_increasing)
  then have c: "clamp64 n = n" by (simp add: clamp64_def)
  show ?thesis
  proof (cases "to_hex \<and> w \<noteq> 8")
    case True
    then show ?thesis using assms(1) c read_numeral [of 16 n] read_zeros [of 16 _ "number_text 16 n"]
      by (simp add: to_string_cast_def string_cast_def Let_def)
  next
    case False
    obtain x xs where s: "number_text 10 n = x # xs" using numeral_Cons by blast
    have ch: "\<exists>d < 10. y = digit_char d" if "y \<in> set (x # xs)" for y using numeral_chars [of y n] that s by simp
    have x: "x \<noteq> CHR ''-''" "x \<noteq> CHR ''+''" "\<not> is_space x" using ch [of x] digit_not by auto
    have "take 2 (x # xs) \<noteq> ''0x''"
    proof (cases xs)
      case (Cons y ys)
      then obtain d where "d < 10" "y = digit_char d" using ch [of y] by auto
      then show ?thesis using digit_not(1) [of d] Cons by (simp add: numeral_2_eq_2)
    qed simp
    moreover have "to_string_cast w to_hex n = x # xs" by (simp only: to_string_cast_def if_not_P [OF False] s)
    moreover have "read_decimal junk (x # xs) = n"
      using x c read_numeral [of 10 n] unfolding s by (simp add: read_decimal_def del: read_digits.simps)
    ultimately show ?thesis using assms(1) by (auto simp: string_cast_def Let_def simp del: take_Suc_Cons)
  qed
qed

lemma number_roundtrip_witness: "string_cast 0 16 ''0x0800'' = Inr 2048"
proof -
  have "to_string_cast 16 True 2048 = ''0x0800''" by code_simp
  then show ?thesis using number_roundtrip [of 2048 16 0 True] by simp
qed

text \<open>Text that is no number is read as zero; empty text, such as that of a number of JSON, can be read as anything.\<close>

lemma text_is_zero: "string_cast junk w ''eth0'' = Inr 0" "string_cast junk 64 ''-1'' = Inr (2 ^ 64 - 1)"
  by (simp_all add: string_cast_def read_decimal_def is_space_def digit_value_def clamp64_def)

lemma empty_is_anything: "n < 2 ^ 64 \<Longrightarrow> \<exists>junk. string_cast junk 64 [] = Inr n"
  by (rule exI [of _ n]) (simp add: string_cast_def read_decimal_def)

end
