(* ===== verification/Rest_Flow.thy ===== *)
theory Rest_Flow
  imports Rest_Numbers Controller
begin

text \<open>
  Flow entries by REST, \<^verbatim>\<open>src/RestFlowMod.cc\<close>: the body of a request becomes a message for a
  switch. JSON text is parsed by the library; a request is its object. The classes of libfluid are known
  by the calls of their setters: a field of a match by its name and value, an action by its type and the
  values that were set, and \<open>accepts name text\<close> says that the constructor of the field returns for
  this text. \<open>junk\<close> is what an uninitialised variable holds when an empty text is read as a number; all
  the readings of a request find the same there.
\<close>

section \<open>JSON\<close>

text \<open>Numbers and the other values have no text and no items.\<close>

datatype json = Json_string string | Json_object "(string \<times> json) list" | Json_array "json list" | Json_other

type_synonym json_object = "(string \<times> json) list"

definition string_value :: "json \<Rightarrow> string" where
  "string_value j = (case j of Json_string s \<Rightarrow> s | _ \<Rightarrow> [])"

definition object_items :: "json \<Rightarrow> json_object" where
  "object_items j = (case j of Json_object kvs \<Rightarrow> kvs | _ \<Rightarrow> [])"

definition array_items :: "json \<Rightarrow> json list" where
  "array_items j = (case j of Json_array js \<Rightarrow> js | _ \<Rightarrow> [])"

definition json_at :: "string \<Rightarrow> json_object \<Rightarrow> json res" where
  "json_at k kvs = (case map_of kvs k of None \<Rightarrow> Inl Out_of_range | Some j \<Rightarrow> Inr j)"

definition json_cast :: "nat \<Rightarrow> nat \<Rightarrow> json \<Rightarrow> nat res" where
  "json_cast junk w j = string_cast junk w (string_value j)"

definition choose_value :: "nat \<Rightarrow> json_object \<Rightarrow> string \<Rightarrow> nat \<Rightarrow> nat res" where
  "choose_value junk kvs k alternative = (case map_of kvs k of Some j \<Rightarrow> json_cast junk 64 j | None \<Rightarrow> Inr alternative)"

section \<open>Messages\<close>

datatype match_value = Num nat | Text string

type_synonym match_fields = "(string \<times> match_value) list"

datatype rest_action = Plain string "(string \<times> nat) list" | Set_field string match_value

datatype rest_command = Add | Delete | Delete_strict

record rest_flow_mod =
  rm_command :: rest_command
  rm_table :: nat
  rm_cookie :: nat
  rm_cookie_mask :: nat
  rm_idle :: nat
  rm_hard :: nat
  rm_priority :: nat
  rm_buffer :: nat
  rm_out_port :: "nat option"
  rm_out_group :: "nat option"
  rm_flags :: nat
  rm_match :: match_fields
  rm_actions :: "rest_action list option"

text \<open>The values are read with 64 bits; the setters take the lower bits.\<close>

definition process_info_add :: "nat \<Rightarrow> json_object \<Rightarrow> rest_flow_mod res" where
  "process_info_add junk req =
     rbind (rbind (json_at ''table_id'' req) (json_cast junk 8)) (\<lambda>table.
     rbind (choose_value junk req ''cookie'' 0) (\<lambda>cookie. rbind (choose_value junk req ''cookie_mask'' 0) (\<lambda>cookie_mask.
     rbind (choose_value junk req ''idle_timeout'' 10) (\<lambda>idle. rbind (choose_value junk req ''hard_timeout'' 10) (\<lambda>hard.
     rbind (choose_value junk req ''priority'' 0) (\<lambda>priority. rbind (choose_value junk req ''buffer_id'' 0xffffffff) (\<lambda>buffer.
     rbind (choose_value junk req ''flags'' 0) (\<lambda>flags.
       Inr \<lparr>rm_command = Add, rm_table = table, rm_cookie = cookie, rm_cookie_mask = cookie_mask, rm_idle = idle mod 2 ^ 16,
         rm_hard = hard mod 2 ^ 16, rm_priority = priority mod 2 ^ 16, rm_buffer = buffer mod 2 ^ 32, rm_out_port = None, rm_out_group = None,
         rm_flags = flags mod 2 ^ 16, rm_match = [], rm_actions = None\<rparr>))))))))"

definition process_info_delete :: "nat \<Rightarrow> rest_command \<Rightarrow> json_object \<Rightarrow> rest_flow_mod res" where
  "process_info_delete junk cmd req =
     rbind (choose_value junk req ''cookie'' 0) (\<lambda>cookie. rbind (choose_value junk req ''cookie_mask'' 0) (\<lambda>cookie_mask.
     rbind (choose_value junk req ''table_id'' 0) (\<lambda>table.
     rbind (choose_value junk req ''idle_timeout'' 0) (\<lambda>idle. rbind (choose_value junk req ''hard_timeout'' 0) (\<lambda>hard.
     rbind (choose_value junk req ''priority'' 0) (\<lambda>priority. rbind (choose_value junk req ''buffer_id'' 0xffffffff) (\<lambda>buffer.
     rbind (choose_value junk req ''out_port'' 0xffffffff) (\<lambda>out_port. rbind (choose_value junk req ''out_group'' 0xffffffff) (\<lambda>out_group.
     rbind (choose_value junk req ''flags'' 0) (\<lambda>flags.
       Inr \<lparr>rm_command = cmd, rm_table = table mod 2 ^ 8, rm_cookie = cookie, rm_cookie_mask = cookie_mask, rm_idle = idle mod 2 ^ 16,
         rm_hard = hard mod 2 ^ 16, rm_priority = priority mod 2 ^ 16, rm_buffer = buffer mod 2 ^ 32, rm_out_port = Some (out_port mod 2 ^ 32),
         rm_out_group = Some (out_group mod 2 ^ 32), rm_flags = flags mod 2 ^ 16, rm_match = [], rm_actions = None\<rparr>))))))))))"

section \<open>Matches\<close>

text \<open>\<open>HANDLE_UINT\<close> and \<open>HANDLE_STRING\<close> on the fields so far and the flag \<open>added\<close>.\<close>

definition handle_uint :: "nat \<Rightarrow> json_object \<Rightarrow> string \<times> nat \<Rightarrow> match_fields \<times> bool \<Rightarrow> (match_fields \<times> bool) res" where
  "handle_uint junk ms kw s = (case map_of ms (fst kw) of
     None \<Rightarrow> Inr s
   | Some j \<Rightarrow> rbind (json_cast junk (snd kw) j) (\<lambda>n. Inr (fst s @ [(fst kw, Num n)], True)))"

definition handle_text :: "(string \<Rightarrow> string \<Rightarrow> bool) \<Rightarrow> json_object \<Rightarrow> string \<Rightarrow> match_fields \<times> bool \<Rightarrow> match_fields \<times> bool" where
  "handle_text accepts ms k s = (case map_of ms k of
     None \<Rightarrow> s
   | Some j \<Rightarrow> if accepts k (string_value j) then (fst s @ [(k, Text (string_value j))], True) else s)"

definition eth_is :: "nat \<Rightarrow> string \<times> match_value" where
  "eth_is n = (''eth_type'', Num n)"

definition proto_is :: "nat \<Rightarrow> string \<times> match_value" where
  "proto_is n = (''ip_proto'', Num n)"

text \<open>The layers one after the other: the fields and the type of the frame, if it is known.\<close>

definition process_l4 :: "nat \<Rightarrow> (string \<times> nat) list \<Rightarrow> nat \<Rightarrow> json_object \<Rightarrow> match_fields \<times> nat option \<Rightarrow> (match_fields \<times> nat option) res" where
  "process_l4 junk ports proto ms s = rbind (rfold (handle_uint junk ms) ports (fst s, False)) (\<lambda>(fs, added).
     Inr (if added then (fs @ [eth_is 0x800, proto_is proto], Some 0x800) else (fs, snd s)))"

definition process_ip :: "nat \<Rightarrow> (string \<Rightarrow> string \<Rightarrow> bool) \<Rightarrow> json_object \<Rightarrow> match_fields \<times> nat option \<Rightarrow> (match_fields \<times> nat option) res" where
  "process_ip junk accepts ms s = rbind (handle_uint junk ms (''ip_proto'', 8) (fst s, False)) (\<lambda>s1.
     Inr (if snd s = None \<or> snd s = Some 0x800
       then (let (fs, added) = fold (handle_text accepts ms) [''ipv4_src'', ''ipv4_dst''] s1 in
         if added then (fs @ [eth_is 0x800], Some 0x800) else (fs, snd s))
       else (fst s1, snd s)))"

definition process_arp :: "nat \<Rightarrow> (string \<Rightarrow> string \<Rightarrow> bool) \<Rightarrow> json_object \<Rightarrow> match_fields \<times> nat option \<Rightarrow> match_fields res" where
  "process_arp junk accepts ms s =
     (if snd s \<noteq> None then Inr (fst s)
      else rbind (handle_uint junk ms (''arp_op'', 16) (fst s, False)) (\<lambda>s1.
        let (fs, added) = fold (handle_text accepts ms) [''arp_spa'', ''arp_tpa'', ''arp_sha'', ''arp_tha''] s1 in
        Inr (if added then fs @ [eth_is 0x806] else fs)))"

definition process_l2 :: "nat \<Rightarrow> (string \<Rightarrow> string \<Rightarrow> bool) \<Rightarrow> json_object \<Rightarrow> match_fields \<Rightarrow> match_fields res" where
  "process_l2 junk accepts ms fs =
     rbind (rfold (handle_uint junk ms) [(''vlan_vid'', 16), (''vlan_pcp'', 8), (''in_port'', 32), (''in_phy_port'', 32), (''metadata'', 64)] (fs, False)) (\<lambda>s1.
     rbind (handle_uint junk ms (''eth_type'', 16) (fold (handle_text accepts ms) [''eth_dst'', ''eth_src''] s1)) (\<lambda>s2. Inr (fst s2)))"

definition process_matches :: "nat \<Rightarrow> (string \<Rightarrow> string \<Rightarrow> bool) \<Rightarrow> json_object \<Rightarrow> match_fields res" where
  "process_matches junk accepts ms =
     rbind (process_l4 junk [(''tcp_src'', 16), (''tcp_dst'', 16)] 6 ms ([], None)) (\<lambda>s1.
     rbind (process_l4 junk [(''udp_src'', 16), (''udp_dst'', 16)] 17 ms s1) (\<lambda>s2.
     rbind (process_ip junk accepts ms s2) (\<lambda>s3.
     rbind (process_arp junk accepts ms s3) (process_l2 junk accepts ms))))"

section \<open>Actions\<close>

text \<open>The types of actions with the setters of each, and the widths of their values.\<close>

definition action_types :: "(string \<times> (string \<times> nat) list) list" where
  "action_types = [(''OUTPUT'', [(''port'', 32), (''max_len'', 16)]), (''COPY_TTL_OUT'', []), (''COPY_TTL_IN'', []),
     (''SET_MPLS_TTL'', [(''mpls_ttl'', 8)]), (''DEC_MPLS_TTL'', []), (''PUSH_VLAN'', [(''ethertype'', 16)]), (''POP_VLAN'', []),
     (''PUSH_MPLS'', [(''ethertype'', 16)]), (''POP_MPLS'', [(''ethertype'', 16)]), (''SET_QUEUE'', [(''queue_id'', 32)]),
     (''GROUP'', [(''group_id'', 32)]), (''SET_NW_TTL'', [(''nw_ttl'', 8)]), (''DEC_NW_TTL'', []), (''PUSH_PBB'', [(''ethertype'', 16)]),
     (''POP_PBB'', []), (''EXPERIMENTER'', [(''experimenter'', 32)])]"

definition numeric_fields :: "(string \<times> nat) list" where
  "numeric_fields = [(''metadata'', 64), (''eth_type'', 16), (''vlan_vid'', 16), (''ip_dscp'', 8), (''ip_ecn'', 8), (''ip_proto'', 8),
     (''tcp_src'', 16), (''tcp_dst'', 16), (''udp_src'', 16), (''udp_dst'', 16), (''arp_op'', 16)]"

definition text_fields :: "string list" where
  "text_fields = [''eth_src'', ''eth_dst'', ''ipv4_src'', ''ipv4_dst'', ''arp_spa'', ''arp_tpa'', ''arp_sha'', ''arp_tha'']"

text \<open>\<open>doSwitch\<close> throws a character array for an unknown field.\<close>

definition do_switch :: "nat \<Rightarrow> (string \<Rightarrow> string \<Rightarrow> bool) \<Rightarrow> string \<Rightarrow> string \<Rightarrow> match_value res" where
  "do_switch junk accepts field v = (case map_of numeric_fields field of
     Some w \<Rightarrow> rbind (string_cast junk w v) (\<lambda>n. Inr (Num n))
   | None \<Rightarrow> if field \<in> set text_fields then (if accepts field v then Inr (Text v) else Inl Invalid_argument) else Inl Runtime_error)"

text \<open>\<open>SET_ACT\<close> leaves a value alone that is missing or does not fit.\<close>

definition set_act :: "nat \<Rightarrow> json_object \<Rightarrow> string \<times> nat \<Rightarrow> (string \<times> nat) list" where
  "set_act junk kvs kw = (case rbind (json_at (fst kw) kvs) (json_cast junk (snd kw)) of Inl e \<Rightarrow> [] | Inr n \<Rightarrow> [(fst kw, n)])"

definition action_of :: "nat \<Rightarrow> (string \<Rightarrow> string \<Rightarrow> bool) \<Rightarrow> json_object \<Rightarrow> rest_action option res" where
  "action_of junk accepts kvs = rbind (json_at ''type'' kvs) (\<lambda>j. let ty = string_value j in
     if ty = ''SET_FIELD'' then rbind (json_at ''field'' kvs) (\<lambda>f. rbind (json_at ''value'' kvs) (\<lambda>v.
       rbind (do_switch junk accepts (string_value f) (string_value v)) (\<lambda>x. Inr (Some (Set_field (string_value f) x)))))
     else (case map_of action_types ty of
       None \<Rightarrow> Inr None
     | Some kws \<Rightarrow> Inr (Some (Plain ty (concat (map (set_act junk kvs) kws))))))"

text \<open>
  \<open>processActions\<close>: the text of the response so far is the list of the types that were ignored. The
  handler of an exception looks for the type again, and may throw itself.
\<close>

fun process_actions :: "nat \<Rightarrow> (string \<Rightarrow> string \<Rightarrow> bool) \<Rightarrow> json list \<Rightarrow> string list \<Rightarrow> string list \<times> rest_action list res" where
  "process_actions junk accepts [] resp = (resp, Inr [])"
| "process_actions junk accepts (j # js) resp = (case action_of junk accepts (object_items j) of
     Inr a \<Rightarrow> (case process_actions junk accepts js resp of (resp', r) \<Rightarrow>
       (resp', rbind r (\<lambda>acts. Inr (case a of None \<Rightarrow> acts | Some x \<Rightarrow> x # acts))))
   | Inl e \<Rightarrow> (case json_at ''type'' (object_items j) of
       Inl e' \<Rightarrow> (resp, Inl e')
     | Inr ty \<Rightarrow> process_actions junk accepts js (resp @ [string_value ty])))"

section \<open>Requests\<close>

datatype rest_reply = Unsupported_parameter | Cannot_parse | Incorrect_request | Wrong_table | No_such_switch | Some_error
  | Flow_added "string list" | Delete_sent "string list" | Tables_initialized "string list" | Empty_reply

text \<open>
  \<open>validateRequest\<close> throws one of its texts, or, on an overflow, a character array that the caller only
  takes for some error.
\<close>

definition request_error :: "error \<Rightarrow> rest_reply" where
  "request_error e = (if e = Overflow_error then Some_error else Incorrect_request)"

definition validate_request :: "nat \<Rightarrow> bool \<Rightarrow> nat \<Rightarrow> (nat \<Rightarrow> bool) \<Rightarrow> json_object \<Rightarrow> rest_reply option" where
  "validate_request junk full max_table known req =
     (case rbind (json_at ''dpid'' req) (json_cast junk 64) of
        Inl e \<Rightarrow> Some (request_error e)
      | Inr dpid \<Rightarrow>
          if \<not> full then (if known dpid then None else Some No_such_switch)
          else (case rbind (json_at ''table_id'' req) (json_cast junk 8) of
            Inl e \<Rightarrow> Some (request_error e)
          | Inr table \<Rightarrow>
              if max_table \<le> table then Some Wrong_table
              else if map_of req ''match'' = None \<or> map_of req ''actions'' = None then Some Incorrect_request
              else if known dpid then None else Some No_such_switch))"

definition send_flow_mod :: "nat \<Rightarrow> (nat \<Rightarrow> bool) \<Rightarrow> json_object \<Rightarrow> rest_flow_mod \<Rightarrow> (nat \<times> rest_flow_mod) res" where
  "send_flow_mod junk known req fm = rbind (rbind (json_at ''dpid'' req) (json_cast junk 64)) (\<lambda>dpid.
     if known dpid then Inr (dpid, fm) else Inl Runtime_error)"

text \<open>A handler returns its reply, the message it sent, if any, and what is left in the text of the response.\<close>

type_synonym rest_outcome = "rest_reply \<times> (nat \<times> rest_flow_mod) option \<times> string list"

definition finish_post :: "(string list \<Rightarrow> rest_reply) \<Rightarrow> string list \<Rightarrow> (nat \<times> rest_flow_mod) res \<Rightarrow> rest_outcome" where
  "finish_post reply resp r = (case r of Inl e \<Rightarrow> (Some_error, None, resp) | Inr m \<Rightarrow> (reply resp, Some m, []))"

definition post_add :: "nat \<Rightarrow> (string \<Rightarrow> string \<Rightarrow> bool) \<Rightarrow> nat \<Rightarrow> (nat \<Rightarrow> bool) \<Rightarrow> json_object \<Rightarrow> string list \<Rightarrow> rest_outcome" where
  "post_add junk accepts max_table known req resp =
     (case validate_request junk True max_table known req of
        Some reply \<Rightarrow> (reply, None, resp)
      | None \<Rightarrow>
          (case rbind (process_info_add junk req) (\<lambda>fm. rbind (json_at ''match'' req) (\<lambda>m.
              rbind (process_matches junk accepts (object_items m)) (\<lambda>fs. Inr (fm\<lparr>rm_match := fs\<rparr>)))) of
             Inl e \<Rightarrow> (Some_error, None, resp)
           | Inr fm \<Rightarrow>
               (case process_actions junk accepts (case map_of req ''actions'' of None \<Rightarrow> [] | Some j \<Rightarrow> array_items j) resp of (resp', r) \<Rightarrow>
                  finish_post Flow_added resp' (rbind r (\<lambda>acts. send_flow_mod junk known req (fm\<lparr>rm_actions := Some acts\<rparr>))))))"

definition post_delete :: "nat \<Rightarrow> (string \<Rightarrow> string \<Rightarrow> bool) \<Rightarrow> nat \<Rightarrow> (nat \<Rightarrow> bool) \<Rightarrow> rest_command \<Rightarrow> json_object \<Rightarrow> string list \<Rightarrow> rest_outcome" where
  "post_delete junk accepts max_table known cmd req resp =
     (case validate_request junk False max_table known req of
        Some reply \<Rightarrow> (reply, None, resp)
      | None \<Rightarrow>
          (case rbind (process_info_delete junk cmd req) (\<lambda>fm. case map_of req ''match'' of
              None \<Rightarrow> Inr fm
            | Some m \<Rightarrow> rbind (process_matches junk accepts (object_items m)) (\<lambda>fs. Inr (fm\<lparr>rm_match := fs\<rparr>))) of
             Inl e \<Rightarrow> (Some_error, None, resp)
           | Inr fm \<Rightarrow>
               (case map_of req ''actions'' of
                  None \<Rightarrow> finish_post Delete_sent resp (send_flow_mod junk known req fm)
                | Some j \<Rightarrow> (case process_actions junk accepts (array_items j) resp of (resp', r) \<Rightarrow>
                    finish_post Delete_sent resp' (rbind r (\<lambda>acts. send_flow_mod junk known req (fm\<lparr>rm_actions := Some acts\<rparr>)))))))"

definition handle_post :: "nat \<Rightarrow> (string \<Rightarrow> string \<Rightarrow> bool) \<Rightarrow> nat \<Rightarrow> (nat \<Rightarrow> bool) \<Rightarrow> string list \<Rightarrow> json_object option \<Rightarrow> string list \<Rightarrow> rest_outcome" where
  "handle_post junk accepts max_table known params body resp =
     (if hd params \<noteq> ''flowentry'' then (Unsupported_parameter, None, resp)
      else case body of
        None \<Rightarrow> (Cannot_parse, None, resp)
      | Some req \<Rightarrow>
          if length params = 1 then post_add junk accepts max_table known req resp
          else if params ! 1 = ''delete_strict'' then post_delete junk accepts max_table known Delete_strict req resp
          else if params ! 1 = ''delete'' then post_delete junk accepts max_table known Delete req resp
          else (Empty_reply, None, resp))"

text \<open>\<open>handleDELETE\<close> initializes the tables of a switch.\<close>

function rest_gotos :: "8 word \<Rightarrow> 8 word \<Rightarrow> table_msg list" where
  "rest_gotos i max_table = (if i < max_table then Goto_entry i (i + 1) # rest_gotos (i + 1) max_table else [])"
  by pat_completeness auto

termination
  by (relation "measure (\<lambda>(i, m). unat m - unat i)") (auto simp: unat_byte_Suc word_less_nat_alt)

declare rest_gotos.simps [simp del]

definition rest_clear :: "8 word \<Rightarrow> table_msg list" where
  "rest_clear max_table = [Clear_tables] @ rest_gotos 0 max_table @ [Miss_entry max_table 0]"

definition handle_delete :: "nat \<Rightarrow> 8 word \<Rightarrow> (nat \<Rightarrow> bool) \<Rightarrow> string list \<Rightarrow> string list \<Rightarrow> rest_reply \<times> (nat \<times> table_msg list) option \<times> string list" where
  "handle_delete junk max_table known params resp =
     (if params ! 0 \<noteq> ''flowentry'' \<or> params ! 1 \<noteq> ''clear'' then (Unsupported_parameter, None, resp)
      else case string_cast junk 64 (params ! 2) of
        Inl e \<Rightarrow> (Some_error, None, resp)
      | Inr dpid \<Rightarrow>
          if known dpid then (Tables_initialized resp, Some (dpid, rest_clear max_table), []) else (Some_error, None, resp))"

end
