(* ===== verification/Rest_Flow_Correct.thy ===== *)
theory Rest_Flow_Correct
  imports Rest_Flow
begin

text \<open>
  What the REST flow requests guarantee: which messages are sent, which fields a match gets beside the
  requested ones, and what clearing the tables of a switch leaves.
\<close>

section \<open>Requests and messages\<close>

lemma send_Inr: "send_flow_mod junk known req fm = Inr m \<Longrightarrow> known (fst m) \<and> snd m = fm"
  by (auto simp: send_flow_mod_def rbind_eq_Inr split: if_splits)

lemma finish_post_sent:
  assumes "finish_post reply resp r = (rep, sent, resp')"
  shows "(rep = Some_error \<and> sent = None \<and> (\<exists>e. r = Inl e)) \<or> (rep = reply resp \<and> resp' = [] \<and> (\<exists>m. r = Inr m \<and> sent = Some m))"
  using assms by (auto simp: finish_post_def split: sum.splits)

definition reports_success :: "rest_reply \<Rightarrow> bool" where
  "reports_success r = (case r of Flow_added w \<Rightarrow> True | Delete_sent w \<Rightarrow> True | Tables_initialized w \<Rightarrow> True | _ \<Rightarrow> False)"

lemma validate_success: "validate_request junk full max_table known req = Some r \<Longrightarrow> \<not> reports_success r"
  by (auto simp: validate_request_def request_error_def reports_success_def split: sum.splits if_splits)

lemma validate_table:
  "validate_request junk True max_table known req = None \<Longrightarrow> process_info_add junk req = Inr fm \<Longrightarrow> rm_table fm < max_table \<and> rm_command fm = Add"
  by (cases "json_at ''table_id'' req") (auto simp: validate_request_def process_info_add_def rbind_eq_Inr split: sum.splits if_splits)


text \<open>A request for a flow to switch 1, and the same request without a list of actions.\<close>

definition sample_request :: "json_object" where
  "sample_request = [(''dpid'', Json_string ''1''), (''table_id'', Json_string ''0''), (''match'', Json_object [(''tcp_src'', Json_string ''80'')]),
     (''actions'', Json_array [Json_object [(''type'', Json_string ''OUTPUT''), (''port'', Json_string ''0x0002'')]])]"

lemma read_sample:
  "json_cast 0 w (Json_string ''80'') = (if 80 < (2 :: nat) ^ w then Inr 80 else Inl Overflow_error)"
  "json_cast 0 w (Json_string ''1'') = (if 1 < (2 :: nat) ^ w then Inr 1 else Inl Overflow_error)"
  "json_cast 0 w (Json_string ''0'') = Inr 0"
  "json_cast 0 w (Json_string ''0x0002'') = (if 2 < (2 :: nat) ^ w then Inr 2 else Inl Overflow_error)"
  by (simp_all add: json_cast_def string_value_def string_cast_def read_decimal_def is_space_def digit_value_def clamp64_def)

lemma sample_matches:
  "process_matches 0 (\<lambda>_ _. True) [(''tcp_src'', Json_string ''80'')] = Inr [(''tcp_src'', Num 80), eth_is 0x800, proto_is 6]"
  by (simp add: process_matches_def process_l4_def process_ip_def process_arp_def process_l2_def handle_uint_def handle_text_def read_sample)


section \<open>Matches\<close>

lemma handle_uint_new:
  "handle_uint junk ms kw s = Inr s' \<Longrightarrow>
    \<exists>new. fst s' = fst s @ new \<and> (\<forall>x \<in> set new. fst x = fst kw) \<and> (snd s' \<longleftrightarrow> snd s \<or> new \<noteq> [])"
  by (auto simp: handle_uint_def rbind_eq_Inr split: option.splits)

lemma handle_uints_new:
  "rfold (handle_uint junk ms) kws s = Inr s' \<Longrightarrow>
    \<exists>new. fst s' = fst s @ new \<and> fst ` set new \<subseteq> fst ` set kws \<and> (snd s' \<longleftrightarrow> snd s \<or> new \<noteq> [])"
proof (induction kws arbitrary: s)
  case (Cons kw kws)
  then obtain s1 where s1: "handle_uint junk ms kw s = Inr s1" "rfold (handle_uint junk ms) kws s1 = Inr s'" by (auto simp: rbind_eq_Inr)
  obtain a where a: "fst s1 = fst s @ a" "\<forall>x \<in> set a. fst x = fst kw" "snd s1 \<longleftrightarrow> snd s \<or> a \<noteq> []" using handle_uint_new [OF s1(1)] by blast
  obtain b where b: "fst s' = fst s1 @ b" "fst ` set b \<subseteq> fst ` set kws" "snd s' \<longleftrightarrow> snd s1 \<or> b \<noteq> []" using Cons.IH [OF s1(2)] by blast
  show ?case using a b by (intro exI [of _ "a @ b"]) auto
qed simp

lemma handle_texts_new:
  "\<exists>new. fst (fold (handle_text accepts ms) ks s) = fst s @ new \<and> fst ` set new \<subseteq> set ks \<and>
    (snd (fold (handle_text accepts ms) ks s) \<longleftrightarrow> snd s \<or> new \<noteq> [])"
proof (induction ks arbitrary: s)
  case (Cons k ks)
  let ?s1 = "handle_text accepts ms k s"
  obtain a where a: "fst ?s1 = fst s @ a" "fst ` set a \<subseteq> {k}" "snd ?s1 \<longleftrightarrow> snd s \<or> a \<noteq> []"
  proof -
    have "\<exists>a. fst ?s1 = fst s @ a \<and> fst ` set a \<subseteq> {k} \<and> (snd ?s1 \<longleftrightarrow> snd s \<or> a \<noteq> [])"
      by (auto simp: handle_text_def split: option.splits)
    then show thesis using that by blast
  qed
  obtain b where b: "fst (fold (handle_text accepts ms) ks ?s1) = fst ?s1 @ b" "fst ` set b \<subseteq> set ks"
    "snd (fold (handle_text accepts ms) ks ?s1) \<longleftrightarrow> snd ?s1 \<or> b \<noteq> []" using Cons.IH [of ?s1] by blast
  show ?case using a b by (intro exI [of _ "a @ b"]) auto
qed simp

text \<open>The fields that OpenFlow asks for beside a field.\<close>

definition prerequisites :: "string \<Rightarrow> match_fields" where
  "prerequisites k =
     (if k \<in> {''tcp_src'', ''tcp_dst''} then [eth_is 0x800, proto_is 6]
      else if k \<in> {''udp_src'', ''udp_dst''} then [eth_is 0x800, proto_is 17]
      else if k \<in> {''ip_proto'', ''ipv4_src'', ''ipv4_dst''} then [eth_is 0x800]
      else if k \<in> {''arp_op'', ''arp_spa'', ''arp_tpa'', ''arp_sha'', ''arp_tha''} then [eth_is 0x806]
      else [])"

definition has_prerequisites :: "match_fields \<Rightarrow> bool" where
  "has_prerequisites fs = (\<forall>x \<in> set fs. set (prerequisites (fst x)) \<subseteq> set fs)"

lemma complete_append:
  "has_prerequisites fs \<Longrightarrow> \<forall>x \<in> set new. set (prerequisites (fst x)) \<subseteq> set fs \<union> set new \<Longrightarrow> has_prerequisites (fs @ new)"
  by (auto simp: has_prerequisites_def)

lemma l4_complete:
  assumes "process_l4 junk ports proto ms s = Inr s'" "has_prerequisites (fst s)" "\<forall>k \<in> fst ` set ports. prerequisites k = [eth_is 0x800, proto_is proto]"
  shows "has_prerequisites (fst s')"
proof -
  obtain s1 where s1: "rfold (handle_uint junk ms) ports (fst s, False) = Inr s1"
    "s' = (if snd s1 then (fst s1 @ [eth_is 0x800, proto_is proto], Some 0x800) else (fst s1, snd s))"
    using assms(1) by (auto simp: process_l4_def rbind_eq_Inr split: prod.splits)
  obtain new where new: "fst s1 = fst s @ new" "fst ` set new \<subseteq> fst ` set ports" "snd s1 \<longleftrightarrow> new \<noteq> []"
    using handle_uints_new [OF s1(1)] by auto
  have p: "set (prerequisites ''eth_type'') = {}" "set (prerequisites ''ip_proto'') = {eth_is 0x800}" by (simp_all add: prerequisites_def)
  show ?thesis
  proof (cases "new = []")
    case False
    have "prerequisites (fst x) = [eth_is 0x800, proto_is proto]" if "x \<in> set new" for x
      using that new(2) assms(3) by blast
    then have "has_prerequisites (fst s @ new @ [eth_is 0x800, proto_is proto])"
      by (intro complete_append [OF assms(2)]) (use p in \<open>auto simp: eth_is_def proto_is_def\<close>)
    then show ?thesis using s1(2) new False by simp
  qed (use s1(2) new assms(2) in simp)
qed

lemma ip_complete:
  assumes "process_ip junk accepts ms s = Inr s'" "has_prerequisites (fst s)" "snd s = None \<or> snd s = Some 0x800"
  shows "has_prerequisites (fst s')"
proof -
  obtain s1 where s1: "handle_uint junk ms (''ip_proto'', 8) (fst s, False) = Inr s1" using assms(1) by (auto simp: process_ip_def rbind_eq_Inr)
  let ?s2 = "fold (handle_text accepts ms) [''ipv4_src'', ''ipv4_dst''] s1"
  have s': "s' = (if snd ?s2 then (fst ?s2 @ [eth_is 0x800], Some 0x800) else (fst ?s2, snd s))"
    using assms(1,3) s1 by (auto simp: process_ip_def split_beta Let_def)
  obtain a where a: "fst s1 = fst s @ a" "\<forall>x \<in> set a. fst x = ''ip_proto''" "snd s1 \<longleftrightarrow> a \<noteq> []" using handle_uint_new [OF s1] by auto
  obtain b where b: "fst ?s2 = fst s1 @ b" "fst ` set b \<subseteq> {''ipv4_src'', ''ipv4_dst''}" "snd ?s2 \<longleftrightarrow> snd s1 \<or> b \<noteq> []"
    using handle_texts_new [of accepts ms "[''ipv4_src'', ''ipv4_dst'']" s1] by (metis list.set(1,2) list.simps(15))
  have p: "set (prerequisites (fst x)) \<subseteq> {eth_is 0x800}" if "x \<in> set (a @ b) \<or> x = eth_is 0x800" for x
    using that a(2) b(2) by (auto simp: prerequisites_def eth_is_def image_subset_iff)
  show ?thesis
  proof (cases "a @ b = []")
    case False
    have "has_prerequisites (fst s @ (a @ b) @ [eth_is 0x800])"
      by (rule complete_append [OF assms(2)]) (use p in \<open>fastforce\<close>)
    then show ?thesis using s' a b False by auto
  qed (use s' a b assms(2) in simp)
qed

lemma arp_complete:
  assumes "process_arp junk accepts ms s = Inr fs" "has_prerequisites (fst s)"
  shows "has_prerequisites fs"
proof (cases "snd s")
  case None
  obtain s1 where s1: "handle_uint junk ms (''arp_op'', 16) (fst s, False) = Inr s1" using assms(1) None by (auto simp: process_arp_def rbind_eq_Inr)
  let ?ks = "[''arp_spa'', ''arp_tpa'', ''arp_sha'', ''arp_tha'']"
  let ?s2 = "fold (handle_text accepts ms) ?ks s1"
  have fs: "fs = (if snd ?s2 then fst ?s2 @ [eth_is 0x806] else fst ?s2)"
    using assms(1) None s1 by (auto simp: process_arp_def split_beta Let_def)
  obtain a where a: "fst s1 = fst s @ a" "\<forall>x \<in> set a. fst x = ''arp_op''" "snd s1 \<longleftrightarrow> a \<noteq> []" using handle_uint_new [OF s1] by auto
  obtain b where b: "fst ?s2 = fst s1 @ b" "fst ` set b \<subseteq> set ?ks" "snd ?s2 \<longleftrightarrow> snd s1 \<or> b \<noteq> []"
    using handle_texts_new [of accepts ms ?ks s1] by blast
  have p: "set (prerequisites (fst x)) \<subseteq> {eth_is 0x806}" if "x \<in> set (a @ b) \<or> x = eth_is 0x806" for x
    using that a(2) b(2) by (auto simp: prerequisites_def eth_is_def image_subset_iff)
  show ?thesis
  proof (cases "a @ b = []")
    case False
    have "has_prerequisites (fst s @ (a @ b) @ [eth_is 0x806])"
      by (rule complete_append [OF assms(2)]) (use p in \<open>fastforce\<close>)
    then show ?thesis using fs a b False by auto
  qed (use fs a b assms(2) in simp)
qed (use assms in \<open>simp add: process_arp_def\<close>)

lemma l2_complete:
  assumes "process_l2 junk accepts ms fs = Inr fs'" "has_prerequisites fs"
  shows "has_prerequisites fs'"
proof -
  let ?kws = "[(''vlan_vid'', 16), (''vlan_pcp'', 8), (''in_port'', 32), (''in_phy_port'', 32), (''metadata'', 64)]" and ?ks = "[''eth_dst'', ''eth_src'']"
  obtain s1 s2 where s: "rfold (handle_uint junk ms) ?kws (fs, False) = Inr s1"
    "handle_uint junk ms (''eth_type'', 16) (fold (handle_text accepts ms) ?ks s1) = Inr s2" "fs' = fst s2"
    using assms(1) by (auto simp: process_l2_def rbind_eq_Inr)
  obtain a where a: "fst s1 = fs @ a" "fst ` set a \<subseteq> fst ` set ?kws" using handle_uints_new [OF s(1)] by auto
  obtain b where b: "fst (fold (handle_text accepts ms) ?ks s1) = fst s1 @ b" "fst ` set b \<subseteq> set ?ks"
    using handle_texts_new [of accepts ms ?ks s1] by blast
  obtain c where c: "fst s2 = fst (fold (handle_text accepts ms) ?ks s1) @ c" "\<forall>x \<in> set c. fst x = ''eth_type''"
    using handle_uint_new [OF s(2)] by auto
  have "prerequisites (fst x) = []" if "x \<in> set (a @ b @ c)" for x
    using that a(2) b(2) c(2) by (auto simp: prerequisites_def image_subset_iff)
  then have "has_prerequisites (fs @ a @ b @ c)" by (intro complete_append [OF assms(2)]) simp
  then show ?thesis using a b c s(3) by simp
qed



section \<open>Clearing a switch\<close>

lemma rest_gotos_effect: "fold table_msg_effect (rest_gotos i m) ts = fold table_msg_effect (install_gotos i m) ts"
proof (induction i m arbitrary: ts rule: rest_gotos.induct)
  case (1 i m)
  then show ?case
    by (cases "i < m") (simp_all add: rest_gotos.simps [of i] install_gotos.simps [of i] table_msg_effect_def)
qed


end
