(* ===== verification/Rest_Show.thy ===== *)
theory Rest_Show
  imports Rest_Flow_Correct
begin

text \<open>
  Flows shown by REST, \<^verbatim>\<open>src/RestStringProcessing.cc\<close>: matches, actions, instructions and
  statistics become JSON, with numbers as text. What is shown of a match or of an action can be posted.
\<close>

section \<open>Matches\<close>

text \<open>The fields \<open>processMatch\<close> looks for, with the width and the notation of a number, or as text.\<close>

definition shown_fields :: "(string \<times> (nat \<times> bool) option) list" where
  "shown_fields = [(''in_port'', Some (32, False)), (''in_phy_port'', Some (32, False)), (''eth_type'', Some (16, True)), (''ip_proto'', Some (8, True)),
     (''tcp_dst'', Some (16, False)), (''tcp_src'', Some (16, False)), (''udp_dst'', Some (16, False)), (''udp_src'', Some (16, False)),
     (''metadata'', Some (64, False)), (''ipv4_src'', None), (''ipv4_dst'', None), (''eth_src'', None), (''eth_dst'', None),
     (''arp_op'', Some (16, True)), (''arp_spa'', None), (''arp_tpa'', None), (''arp_sha'', None), (''arp_tha'', None),
     (''vlan_vid'', Some (16, False)), (''vlan_pcp'', Some (8, False))]"

type_synonym match_map = "string \<rightharpoonup> match_value"

definition emplace_if_exists :: "match_map \<Rightarrow> string \<times> (nat \<times> bool) option \<Rightarrow> json_object" where
  "emplace_if_exists m kf = (case (m (fst kf), snd kf) of
     (Some (Num n), Some (w, to_hex)) \<Rightarrow> [(fst kf, Json_string (to_string_cast w to_hex n))]
   | (Some (Text t), None) \<Rightarrow> [(fst kf, Json_string t)]
   | _ \<Rightarrow> [])"

definition process_match :: "match_map \<Rightarrow> json_object" where
  "process_match m = concat (map (emplace_if_exists m) shown_fields)"

section \<open>Actions and instructions\<close>

text \<open>Of an action for a port only the port is shown, and of an experimenter action nothing.\<close>

definition shown_params :: "string \<Rightarrow> (string \<times> nat \<times> bool) list" where
  "shown_params ty = (if ty = ''OUTPUT'' then [(''port'', 32, True)] else if ty = ''EXPERIMENTER'' then []
     else (case map_of action_types ty of None \<Rightarrow> [] | Some kws \<Rightarrow> map (\<lambda>(k, w). (k, w, False)) kws))"

definition shown_set_fields :: "(string \<times> string \<times> nat option) list" where
  "shown_set_fields = [(''in_port'', ''in_port'', Some 32), (''eth_src'', ''eth_src'', None), (''eth_dst'', ''eth_dst'', None), (''eth_type'', ''eth_type'', Some 16),
     (''vlan_vid'', ''vlan_vid'', Some 16), (''ipv4_src'', ''ip_src'', None), (''ipv4_dst'', ''ip_dst'', None), (''ip_proto'', ''ip_proto'', Some 8),
     (''arp_spa'', ''arp_spa'', None), (''arp_tpa'', ''arp_tpa'', None), (''arp_sha'', ''arp_sha'', None), (''arp_tha'', ''arp_tha'', None), (''arp_op'', ''arp_op'', Some 16)]"

definition process_set_field :: "string \<Rightarrow> match_value \<Rightarrow> json_object" where
  "process_set_field f v = (case (map_of shown_set_fields f, v) of
     (Some (name, Some w), Num n) \<Rightarrow> [(''field'', Json_string name), (''value'', Json_string (to_string_cast w False n))]
   | (Some (name, None), Text t) \<Rightarrow> [(''field'', Json_string name), (''value'', Json_string t)]
   | _ \<Rightarrow> [(''unhandled field'', Json_string ''error'')])"

definition show_param :: "(string \<times> nat) list \<Rightarrow> string \<times> nat \<times> bool \<Rightarrow> json_object" where
  "show_param ps p = (case p of (k, w, to_hex) \<Rightarrow> (case map_of ps k of None \<Rightarrow> [] | Some n \<Rightarrow> [(k, Json_string (to_string_cast w to_hex n))]))"

definition process_shown_action :: "rest_action \<Rightarrow> json_object" where
  "process_shown_action a = (case a of
     Set_field f v \<Rightarrow> put ''type'' (Json_string ''SET_FIELD'') (process_set_field f v)
   | Plain ty ps \<Rightarrow> (if map_of action_types ty = None then [(''type'', Json_string ''Unknown action type'')]
       else (''type'', Json_string ty) # concat (map (show_param ps) (shown_params ty))))"

datatype shown_instruction = Goto_table nat | Write_metadata nat nat | Write_actions "rest_action list" | Apply_actions "rest_action list"
  | Clear_actions | Meter nat | Experimenter | Other_instruction nat

definition process_instruction :: "shown_instruction \<Rightarrow> json_object \<Rightarrow> json_object" where
  "process_instruction i ans = (case i of
     Goto_table n \<Rightarrow> put ''goto_table'' (Json_string (to_string_cast 8 False n)) ans
   | Write_metadata n k \<Rightarrow> put ''metadata'' (Json_object [(''metadata'', Json_string (to_string_cast 64 False n)),
       (''metadata_mask'', Json_string (to_string_cast 64 False k))]) ans
   | Write_actions acts \<Rightarrow> put ''write_actions'' (Json_array (map (Json_object \<circ> process_shown_action) acts)) ans
   | Apply_actions acts \<Rightarrow> put ''apply_actions'' (Json_array (map (Json_object \<circ> process_shown_action) acts)) ans
   | Clear_actions \<Rightarrow> put ''clear_actions'' (Json_string ''clear_actions'') ans
   | Meter n \<Rightarrow> put ''meter'' (Json_string (to_string_cast 32 False n)) ans
   | Experimenter \<Rightarrow> put ''experimenter'' (Json_string ''experimenter'') ans
   | Other_instruction n \<Rightarrow> ans)"

definition process_instructions :: "shown_instruction list \<Rightarrow> json_object" where
  "process_instructions is = fold process_instruction is []"

section \<open>Statistics\<close>

text \<open>\<open>SHOW\<close> of the fields of each kind of statistics; all of them are shown in decimals or as text.\<close>

definition show_value :: "match_value \<Rightarrow> json" where
  "show_value v = (case v of Num n \<Rightarrow> Json_string (to_string_cast 64 False n) | Text t \<Rightarrow> Json_string t)"

definition show_stats :: "string list \<Rightarrow> (string \<Rightarrow> match_value) \<Rightarrow> json_object" where
  "show_stats names stat = map (\<lambda>k. (k, show_value (stat k))) names"

definition flow_stats_json :: "(string \<Rightarrow> match_value) \<Rightarrow> match_map \<Rightarrow> shown_instruction list \<Rightarrow> json_object" where
  "flow_stats_json stat m is =
     show_stats [''length'', ''table_id'', ''duration_sec'', ''duration_nsec'', ''priority'', ''idle_timeout'', ''hard_timeout'', ''flags'',
       ''cookie'', ''packet_count'', ''byte_count''] stat @
     [(''match:'', Json_object (process_match m)), (''actions:'', Json_object (process_instructions is))]"

definition port_stats_json :: "(string \<Rightarrow> match_value) \<Rightarrow> json_object" where
  "port_stats_json = show_stats [''port_no'', ''rx_packets'', ''tx_packets'', ''rx_bytes'', ''tx_bytes'', ''rx_dropped'', ''tx_dropped'', ''rx_errors'',
     ''tx_errors'', ''rx_frame_err'', ''rx_over_err'', ''rx_crc_err'', ''collisions'', ''duration_sec'', ''duration_nsec'']"

definition switch_desc_json :: "(string \<Rightarrow> match_value) \<Rightarrow> json_object" where
  "switch_desc_json = show_stats [''mfr_desc'', ''hw_desc'', ''sw_desc'', ''serial_num'', ''dp_desc'']"

definition aggregate_json :: "(string \<Rightarrow> match_value) \<Rightarrow> json_object" where
  "aggregate_json = show_stats [''packet_count'', ''byte_count'', ''flow_count'']"

definition table_stats_json :: "(string \<Rightarrow> match_value) \<Rightarrow> json_object" where
  "table_stats_json = show_stats [''active_count'', ''table_id'', ''lookup_count'', ''matched_count'']"

definition ports_json :: "(string \<Rightarrow> match_value) \<Rightarrow> json_object" where
  "ports_json = show_stats [''port_no'', ''hw_addr'', ''name'', ''config'', ''state'', ''curr'', ''advertised'', ''supported'', ''peer'', ''curr_speed'', ''max_speed'']"

definition queue_stats_json :: "(string \<Rightarrow> match_value) \<Rightarrow> json_object" where
  "queue_stats_json = show_stats [''port_no'', ''queue_id'', ''tx_bytes'', ''tx_packets'', ''tx_errors'', ''duration_sec'', ''duration_nsec'']"

section \<open>A match that is shown can be posted\<close>

text \<open>Fields the interface knows, with values in range, that have what OpenFlow asks for beside them.\<close>

definition shown_match :: "(string \<Rightarrow> string \<Rightarrow> bool) \<Rightarrow> match_map \<Rightarrow> bool" where
  "shown_match accepts m = (\<forall>k v. m k = Some v \<longrightarrow>
     (case (map_of shown_fields k, v) of
        (Some (Some (w, to_hex)), Num n) \<Rightarrow> n < 2 ^ w
      | (Some None, Text t) \<Rightarrow> accepts k t
      | _ \<Rightarrow> False) \<and> (\<forall>(k', v') \<in> set (prerequisites k). m k' = Some v'))"

lemma map_of_emplaced:
  "distinct (map fst L) \<Longrightarrow> map_of (concat (map (emplace_if_exists m) L)) k =
    (case map_of L k of None \<Rightarrow> None | Some f \<Rightarrow> map_option snd (case emplace_if_exists m (k, f) of [] \<Rightarrow> None | x # _ \<Rightarrow> Some x))"
proof (induction L)
  case (Cons x L)
  obtain k1 f1 where x: "x = (k1, f1)" by (cases x)
  have e: "emplace_if_exists m (a, f) = [] \<or> (\<exists>y. emplace_if_exists m (a, f) = [(a, y)])" for a f
  proof (cases "m a")
    case (Some v)
    then show ?thesis by (cases v; cases f) (auto simp: emplace_if_exists_def)
  qed (simp add: emplace_if_exists_def)
  have fst_e: "\<forall>y \<in> set (emplace_if_exists m (a, f)). fst y = a" and len: "length (emplace_if_exists m (a, f)) \<le> 1" for a f
    using e [of a f] by auto
  have none: "map_of L k1 = None" using Cons.prems x by (simp add: map_of_eq_None_iff)
  show ?case
  proof (cases "k = k1")
    case True
    then show ?thesis using Cons none x fst_e [of k1 f1] len [of k1 f1]
      by (cases "emplace_if_exists m (k1, f1)") (auto simp: map_add_def)
  next
    case False
    then have "map_of (emplace_if_exists m (k1, f1)) k = None" using fst_e [of k1 f1] by (force simp: map_of_eq_None_iff)
    then show ?thesis using Cons False x by (simp add: map_add_def split: option.splits)
  qed
qed simp

definition selected :: "match_map \<Rightarrow> string list \<Rightarrow> match_fields" where
  "selected m ks = concat (map (\<lambda>k. case m k of None \<Rightarrow> [] | Some v \<Rightarrow> [(k, v)]) ks)"

lemma set_selected: "(k, v) \<in> set (selected m ks) \<longleftrightarrow> k \<in> set ks \<and> m k = Some v"
  by (induction ks) (auto simp: selected_def split: option.splits)

lemma shown_distinct: "distinct (map fst shown_fields)"
  by code_simp

lemma process_match_at:
  "map_of (process_match m) k = (case map_of shown_fields k of None \<Rightarrow> None
     | Some f \<Rightarrow> map_option snd (case emplace_if_exists m (k, f) of [] \<Rightarrow> None | x # _ \<Rightarrow> Some x))"
  unfolding process_match_def by (rule map_of_emplaced [OF shown_distinct])

lemma uint_shown:
  assumes shown: "shown_match accepts m" and "map_of shown_fields k = Some (Some (w, to_hex))" "w \<le> 64"
  shows "handle_uint junk (process_match m) (k, w) s = Inr (fst s @ selected m [k], snd s \<or> selected m [k] \<noteq> [])"
proof (cases "m k")
  case (Some v)
  then obtain n where n: "v = Num n" "n < 2 ^ w"
    using shown assms(2) unfolding shown_match_def by (cases v) fastforce+
  then show ?thesis using Some assms number_roundtrip [OF n(2) assms(3), of junk to_hex]
    by (simp add: handle_uint_def process_match_at emplace_if_exists_def selected_def json_cast_def string_value_def)
qed (use assms in \<open>simp add: handle_uint_def process_match_at emplace_if_exists_def selected_def\<close>)

lemma text_shown:
  assumes shown: "shown_match accepts m" and "map_of shown_fields k = Some None"
  shows "handle_text accepts (process_match m) k s = (fst s @ selected m [k], snd s \<or> selected m [k] \<noteq> [])"
proof (cases "m k")
  case (Some v)
  then obtain t where t: "v = Text t" "accepts k t"
    using shown assms(2) unfolding shown_match_def by (cases v) fastforce+
  then show ?thesis using Some assms
    by (simp add: handle_text_def process_match_at emplace_if_exists_def selected_def string_value_def)
qed (use assms in \<open>simp add: handle_text_def process_match_at emplace_if_exists_def selected_def\<close>)

lemma uints_shown:
  assumes "shown_match accepts m" "\<forall>(k, w) \<in> set kws. (\<exists>to_hex. map_of shown_fields k = Some (Some (w, to_hex))) \<and> w \<le> 64"
  shows "rfold (handle_uint junk (process_match m)) kws s = Inr (fst s @ selected m (map fst kws), snd s \<or> selected m (map fst kws) \<noteq> [])"
  using assms(2)
proof (induction kws arbitrary: s)
  case (Cons kw kws)
  obtain k w where kw: "kw = (k, w)" by (cases kw)
  obtain to_hex where t: "map_of shown_fields k = Some (Some (w, to_hex))" "w \<le> 64" using Cons.prems kw by auto
  have "selected m (map fst (kw # kws)) = selected m [k] @ selected m (map fst kws)" by (simp add: selected_def kw)
  then show ?case using Cons uint_shown [OF assms(1) t] kw by simp
qed (simp add: selected_def)

lemma texts_shown:
  assumes "shown_match accepts m" "\<forall>k \<in> set ks. map_of shown_fields k = Some None"
  shows "fold (handle_text accepts (process_match m)) ks s = (fst s @ selected m ks, snd s \<or> selected m ks \<noteq> [])"
  using assms(2)
proof (induction ks arbitrary: s)
  case (Cons k ks)
  have "selected m (k # ks) = selected m [k] @ selected m ks" by (simp add: selected_def)
  then show ?case using Cons text_shown [OF assms(1), of k] by simp
qed (simp add: selected_def)

text \<open>What one layer adds belongs to the match.\<close>

definition part_of :: "match_fields \<times> nat option \<Rightarrow> match_map \<Rightarrow> bool" where
  "part_of s m = ((\<forall>(k, v) \<in> set (fst s). m k = Some v) \<and> (snd s = None \<or> snd s = Some 0x800 \<and> m ''eth_type'' = Some (Num 0x800)))"

lemma prerequisites_hold: "shown_match accepts m \<Longrightarrow> m k = Some v \<Longrightarrow> (k', v') \<in> set (prerequisites k) \<Longrightarrow> m k' = Some v'"
  unfolding shown_match_def by fast

lemma selected_Cons: "selected m ks \<noteq> [] \<Longrightarrow> \<exists>k \<in> set ks. m k \<noteq> None"
proof -
  assume "selected m ks \<noteq> []"
  then obtain x xs where "selected m ks = x # xs" by (cases "selected m ks") auto
  then have "(fst x, snd x) \<in> set (selected m ks)" by simp
  then show "\<exists>k \<in> set ks. m k \<noteq> None" unfolding set_selected by blast
qed

lemma l4_shown:
  assumes m: "shown_match accepts m" and s: "part_of s m"
    and kws: "\<forall>(k, w) \<in> set kws. (\<exists>to_hex. map_of shown_fields k = Some (Some (w, to_hex))) \<and> w \<le> 64"
    and pre: "\<forall>k \<in> fst ` set kws. prerequisites k = [eth_is 0x800, proto_is proto]"
  obtains s' where "process_l4 junk kws proto (process_match m) s = Inr s'" "part_of s' m" "set (selected m (map fst kws)) \<union> set (fst s) \<subseteq> set (fst s')"
proof -
  let ?n = "selected m (map fst kws)"
  let ?s = "if ?n \<noteq> [] then (fst s @ ?n @ [eth_is 0x800, proto_is proto], Some 0x800) else (fst s, snd s)"
  have run: "process_l4 junk kws proto (process_match m) s = Inr ?s"
    using uints_shown [OF m kws, of junk "(fst s, False)"] by (auto simp: process_l4_def)
  have "m ''eth_type'' = Some (Num 0x800) \<and> m ''ip_proto'' = Some (Num proto)" if "?n \<noteq> []"
  proof -
    from selected_Cons [OF that] obtain k v where k: "k \<in> fst ` set kws" "m k = Some v" by auto
    then have "prerequisites k = [eth_is 0x800, proto_is proto]" using pre by blast
    then show ?thesis using prerequisites_hold [OF m k(2)] by (auto simp: eth_is_def proto_is_def)
  qed
  then have "part_of ?s m" using s by (auto simp: part_of_def set_selected eth_is_def proto_is_def)
  then show thesis by (rule that [OF run]) auto
qed

lemma ip_shown:
  assumes m: "shown_match accepts m" and s: "part_of s m"
  obtains s' where "process_ip junk accepts (process_match m) s = Inr s'" "part_of s' m"
    "set (selected m [''ip_proto'', ''ipv4_src'', ''ipv4_dst'']) \<union> set (fst s) \<subseteq> set (fst s')"
proof -
  let ?a = "selected m [''ip_proto'']" and ?b = "selected m [''ipv4_src'', ''ipv4_dst'']"
  let ?s = "if ?a @ ?b \<noteq> [] then (fst s @ ?a @ ?b @ [eth_is 0x800], Some 0x800) else (fst s, snd s)"
  have "map_of shown_fields ''ip_proto'' = Some (Some (8, True))" "\<forall>k \<in> set [''ipv4_src'', ''ipv4_dst'']. map_of shown_fields k = Some None"
    by (simp_all add: shown_fields_def)
  note steps = uint_shown [OF m this(1), of junk "(fst s, False)"] texts_shown [OF m this(2)]
  have "snd s = None \<or> snd s = Some 0x800" using s by (auto simp: part_of_def)
  then have run: "process_ip junk accepts (process_match m) s = Inr ?s"
    using steps by (auto simp: process_ip_def split_beta Let_def simp del: fold_simps)
  have all: "selected m [''ip_proto'', ''ipv4_src'', ''ipv4_dst''] = ?a @ ?b" by (simp add: selected_def)
  have "m ''eth_type'' = Some (Num 0x800)" if "?a @ ?b \<noteq> []"
  proof -
    from that all have "selected m [''ip_proto'', ''ipv4_src'', ''ipv4_dst''] \<noteq> []" by simp
    from selected_Cons [OF this] obtain k v where k: "k \<in> {''ip_proto'', ''ipv4_src'', ''ipv4_dst''}" "m k = Some v" by auto
    have "(''eth_type'', Num 0x800) \<in> set (prerequisites k)" using k(1) by (auto simp: prerequisites_def eth_is_def)
    then show ?thesis by (rule prerequisites_hold [OF m k(2)])
  qed
  then have "part_of ?s m" using s by (auto simp: part_of_def set_selected eth_is_def)
  then show thesis by (rule that [OF run]) (auto simp: all)
qed

lemma arp_shown:
  assumes m: "shown_match accepts m" and s: "part_of s m"
  obtains fs where "process_arp junk accepts (process_match m) s = Inr fs" "part_of (fs, None) m"
    "set (selected m [''arp_op'', ''arp_spa'', ''arp_tpa'', ''arp_sha'', ''arp_tha'']) \<union> set (fst s) \<subseteq> set fs"
proof -
  let ?ks = "[''arp_spa'', ''arp_tpa'', ''arp_sha'', ''arp_tha'']"
  let ?a = "selected m [''arp_op'']" and ?b = "selected m ?ks"
  have all: "selected m (''arp_op'' # ?ks) = ?a @ ?b" by (simp add: selected_def)
  have eth: "m ''eth_type'' = Some (Num 0x806)" if "?a @ ?b \<noteq> []"
  proof -
    from that all have "selected m (''arp_op'' # ?ks) \<noteq> []" by simp
    from selected_Cons [OF this] obtain k v where k: "k \<in> set (''arp_op'' # ?ks)" "m k = Some v" by auto
    have "(''eth_type'', Num 0x806) \<in> set (prerequisites k)" using k(1) by (auto simp: prerequisites_def eth_is_def)
    then show ?thesis by (rule prerequisites_hold [OF m k(2)])
  qed
  show thesis
  proof (cases "snd s")
    case None
    let ?fs = "if ?a @ ?b \<noteq> [] then fst s @ ?a @ ?b @ [eth_is 0x806] else fst s"
    have "map_of shown_fields ''arp_op'' = Some (Some (16, True))" "\<forall>k \<in> set ?ks. map_of shown_fields k = Some None"
      by (simp_all add: shown_fields_def)
    note steps = uint_shown [OF m this(1), of junk "(fst s, False)"] texts_shown [OF m this(2)]
    have run: "process_arp junk accepts (process_match m) s = Inr ?fs"
      using steps None by (auto simp: process_arp_def split_beta Let_def simp del: fold_simps)
    have "part_of (?fs, None) m" using s eth by (auto simp: part_of_def set_selected eth_is_def)
    then show thesis by (rule that [OF run]) (auto simp: all)
  next
    case (Some e)
    then have "m ''eth_type'' = Some (Num 0x800)" using s by (auto simp: part_of_def)
    then have "?a @ ?b = []" using eth by fastforce
    moreover have "process_arp junk accepts (process_match m) s = Inr (fst s)" using Some by (simp add: process_arp_def)
    moreover have "part_of (fst s, None) m" using s by (simp add: part_of_def)
    ultimately show thesis using that all by simp
  qed
qed


definition sample_match :: match_map where
  "sample_match = [''eth_type'' \<mapsto> Num 0x800, ''ip_proto'' \<mapsto> Num 6, ''tcp_dst'' \<mapsto> Num 443, ''ipv4_src'' \<mapsto> Text ''10.0.0.1'']"


section \<open>An action that is shown can be posted\<close>

text \<open>
  Every parameter has a value in range; of an action for a port only the port is set, and a field is one that the
  requests know by the name it is shown with.
\<close>

definition shown_action :: "(string \<Rightarrow> string \<Rightarrow> bool) \<Rightarrow> rest_action \<Rightarrow> bool" where
  "shown_action accepts a = (case a of
     Plain ty ps \<Rightarrow> ty \<noteq> ''EXPERIMENTER'' \<and> map_of action_types ty \<noteq> None \<and>
       map fst ps = map fst (shown_params ty) \<and> (\<forall>((k, n), (k', w, h)) \<in> set (zip ps (shown_params ty)). n < 2 ^ w)
   | Set_field f v \<Rightarrow> map_of shown_set_fields f \<noteq> None \<and> f \<notin> {''in_port'', ''ipv4_src'', ''ipv4_dst''} \<and>
       (case (map_of numeric_fields f, v) of (Some w, Num n) \<Rightarrow> n < 2 ^ w | (None, Text t) \<Rightarrow> accepts f t | _ \<Rightarrow> False))"

text \<open>The parameters of the types of actions, one by one.\<close>

definition one_param :: "string \<Rightarrow> bool" where
  "one_param ty = (ty \<noteq> ''SET_FIELD'' \<and> (case map_of action_types ty of
     Some [] \<Rightarrow> shown_params ty = []
   | Some [(k, w)] \<Rightarrow> shown_params ty = [(k, w, False)] \<and> k \<noteq> ''type'' \<and> w \<le> 64
   | _ \<Rightarrow> False))"

lemma types_ok: "\<forall>ty \<in> fst ` set action_types. ty \<in> {''EXPERIMENTER'', ''OUTPUT''} \<or> one_param ty"
  by (simp add: action_types_def shown_params_def one_param_def)

lemma action_types_cases:
  assumes "map_of action_types ty \<noteq> None" "ty \<noteq> ''EXPERIMENTER''"
  obtains "map_of action_types ty = Some []" "shown_params ty = []" "ty \<noteq> ''SET_FIELD''"
  | k w where "map_of action_types ty = Some [(k, w)]" "shown_params ty = [(k, w, False)]" "ty \<noteq> ''SET_FIELD''" "k \<noteq> ''type''" "w \<le> 64"
  | "ty = ''OUTPUT''"
proof -
  from assms have "ty \<in> fst ` set action_types" by (simp add: map_of_eq_None_iff)
  from bspec [OF types_ok this] assms(2) consider "ty = ''OUTPUT''" | "one_param ty" by simp metis
  then show thesis
  proof cases
    case 2
    then obtain kws where kws: "map_of action_types ty = Some kws" "ty \<noteq> ''SET_FIELD''" by (auto simp: one_param_def split: option.splits)
    show thesis
    proof (cases "kws = []")
      case False
      then obtain k w xs where x: "kws = (k, w) # xs" by (cases kws) auto
      have "xs = []" using 2 kws x by (cases xs) (auto simp: one_param_def)
      then have "kws = [(k, w)]" using x by simp
      then show thesis using that(2) [of k w] 2 kws by (simp add: one_param_def)
    qed (use that(1) 2 kws in \<open>simp add: one_param_def\<close>)
  qed (rule that(3))
qed

lemma set_fields_ok:
  "\<forall>f \<in> fst ` set shown_set_fields. f \<in> {''in_port'', ''ipv4_src'', ''ipv4_dst''} \<or> (case map_of numeric_fields f of
     None \<Rightarrow> map_of shown_set_fields f = Some (f, None) \<and> f \<in> set text_fields
   | Some w \<Rightarrow> map_of shown_set_fields f = Some (f, Some w) \<and> w \<le> 64)"
  by (simp add: shown_set_fields_def numeric_fields_def text_fields_def)



text \<open>A rewritten IPv4 address is shown under a name that requests do not know, so the posted action is ignored.\<close>

lemma shown_ipv4_is_ignored:
  "process_actions 0 (\<lambda>_ _. True) [Json_object (process_shown_action (Set_field ''ipv4_src'' (Text ''10.0.0.1'')))] [] = ([''SET_FIELD''], Inr [])"
  by (simp add: process_shown_action_def process_set_field_def shown_set_fields_def action_of_def json_at_def string_value_def do_switch_def
      numeric_fields_def text_fields_def object_items_def)

end
