(* ===== verification/Rest_Multipart.thy ===== *)
theory Rest_Multipart
  imports Rest_Flow
begin

text \<open>
  Statistics by REST, \<^verbatim>\<open>src/RestMultipart.cc\<close>: the requests that are sent to a switch and the replies
  that are kept until the handler shows them. The wait for the reply belongs to the event loop of Qt.
\<close>

section \<open>Requests\<close>

record mp_flow_request =
  mf_table :: nat
  mf_out_port :: nat
  mf_out_group :: nat
  mf_cookie :: nat
  mf_cookie_mask :: nat
  mf_match :: match_fields

datatype mp_request = Flow_request mp_flow_request | Aggregate_request mp_flow_request | Port_request nat | Desc_request | Table_request
  | Port_desc_request | Queue_request nat nat

text \<open>The request of \<open>sendGetRequest\<close> for all flows.\<close>

definition all_flows :: mp_flow_request where
  "all_flows = \<lparr>mf_table = 255, mf_out_port = 0xffffffff, mf_out_group = 0xffffffff, mf_cookie = 0, mf_cookie_mask = 0, mf_match = []\<rparr>"

text \<open>\<open>lexical_cast\<close> of a part of a path, which has digits only or is \<open>all\<close>.\<close>

definition lexical_uint :: "nat \<Rightarrow> string \<Rightarrow> nat option" where
  "lexical_uint w s = (if s \<noteq> [] \<and> list_all (\<lambda>c. case digit_value c of None \<Rightarrow> False | Some d \<Rightarrow> d < 10) s \<and> read_digits 10 s 0 < 2 ^ w
     then Some (read_digits 10 s 0) else None)"

definition number_or_all :: "string \<Rightarrow> nat" where
  "number_or_all s = (case lexical_uint 32 s of None \<Rightarrow> 0xffffffff | Some n \<Rightarrow> n)"

datatype mp_reply = Waits_for nat mp_request | Switch_list "nat list" | Mp_incorrect | Mp_some_error | Mp_cannot_parse

definition send_get :: "(nat \<Rightarrow> bool) \<Rightarrow> string \<Rightarrow> mp_request \<Rightarrow> mp_reply" where
  "send_get known dpid req = (case lexical_uint 64 dpid of None \<Rightarrow> Mp_incorrect | Some d \<Rightarrow> if known d then Waits_for d req else Mp_incorrect)"

definition mp_get :: "(nat \<Rightarrow> bool) \<Rightarrow> nat list \<Rightarrow> string list \<Rightarrow> mp_reply" where
  "mp_get known switches params =
     (let kind = params ! 0 in
      if kind = ''flow'' then send_get known (params ! 1) (Flow_request all_flows)
      else if kind = ''port'' then send_get known (params ! 1) (Port_request (number_or_all (params ! 2)))
      else if kind = ''switch'' then (if params ! 1 = ''all'' then Switch_list switches else send_get known (params ! 1) Desc_request)
      else if kind = ''aggregate-flow'' then send_get known (params ! 1) (Aggregate_request all_flows)
      else if kind = ''table'' then send_get known (params ! 1) Table_request
      else if kind = ''port-desc'' then send_get known (params ! 1) Port_desc_request
      else if kind = ''queue'' then send_get known (params ! 1) (Queue_request (number_or_all (params ! 2)) (number_or_all (params ! 3)))
      else Mp_incorrect)"

text \<open>A POST request names what it asks for; the setters take the lower bits.\<close>

definition mp_info :: "nat \<Rightarrow> json_object \<Rightarrow> mp_flow_request res" where
  "mp_info junk req =
     rbind (choose_value junk req ''table_id'' 255) (\<lambda>table. rbind (choose_value junk req ''out_port'' 0xffffffff) (\<lambda>out_port.
     rbind (choose_value junk req ''out_group'' 0xffffffff) (\<lambda>out_group. rbind (choose_value junk req ''cookie'' 0) (\<lambda>cookie.
     rbind (choose_value junk req ''cookie_mask'' 0) (\<lambda>mask.
       Inr \<lparr>mf_table = table mod 2 ^ 8, mf_out_port = out_port mod 2 ^ 32, mf_out_group = out_group mod 2 ^ 32, mf_cookie = cookie,
         mf_cookie_mask = mask, mf_match = []\<rparr>)))))"

text \<open>The fields are taken as they are: no type of a frame is added, and an exception of a constructor ends the request.\<close>

definition mp_text :: "(string \<Rightarrow> string \<Rightarrow> bool) \<Rightarrow> json_object \<Rightarrow> string \<Rightarrow> match_fields \<Rightarrow> match_fields res" where
  "mp_text accepts ms k fs = (case map_of ms k of
     None \<Rightarrow> Inr fs
   | Some j \<Rightarrow> if accepts k (string_value j) then Inr (fs @ [(k, Text (string_value j))]) else Inl Invalid_argument)"

definition mp_matches :: "nat \<Rightarrow> (string \<Rightarrow> string \<Rightarrow> bool) \<Rightarrow> json_object \<Rightarrow> match_fields res" where
  "mp_matches junk accepts ms =
     rbind (rfold (handle_uint junk ms) [(''tcp_src'', 16), (''tcp_dst'', 16), (''udp_src'', 16), (''udp_dst'', 16), (''in_port'', 32),
       (''in_phy_port'', 32), (''metadata'', 64), (''eth_type'', 16), (''ip_proto'', 8)] ([], False)) (\<lambda>s.
     rfold (mp_text accepts ms) [''eth_src'', ''eth_dst'', ''ipv4_src'', ''ipv4_dst''] (fst s))"

definition mp_flow :: "nat \<Rightarrow> (string \<Rightarrow> string \<Rightarrow> bool) \<Rightarrow> json_object \<Rightarrow> mp_flow_request res" where
  "mp_flow junk accepts req = rbind (mp_info junk req) (\<lambda>r. case map_of req ''match'' of
     None \<Rightarrow> Inr r
   | Some m \<Rightarrow> rbind (mp_matches junk accepts (object_items m)) (\<lambda>fs. Inr (r\<lparr>mf_match := fs\<rparr>)))"

definition mp_post :: "nat \<Rightarrow> (string \<Rightarrow> string \<Rightarrow> bool) \<Rightarrow> (nat \<Rightarrow> bool) \<Rightarrow> string list \<Rightarrow> json_object option \<Rightarrow> mp_reply" where
  "mp_post junk accepts known params body = (case body of
     None \<Rightarrow> Mp_cannot_parse
   | Some req \<Rightarrow>
       (let send = (\<lambda>con. case lexical_uint 64 (params ! 1) of
              None \<Rightarrow> Mp_some_error
            | Some d \<Rightarrow> if \<not> known d then Mp_some_error
                else (case mp_flow junk accepts req of Inl e \<Rightarrow> Mp_some_error | Inr r \<Rightarrow> Waits_for d (con r))) in
        if params ! 0 = ''flow'' then send Flow_request
        else if params ! 0 = ''aggregate-flow'' then send Aggregate_request
        else Mp_incorrect))"

section \<open>Replies\<close>

text \<open>The last reply of each kind is kept, by the number of its part; other kinds are only logged and nobody is told.\<close>

definition mp_response :: "16 word \<Rightarrow> 'r \<Rightarrow> (16 word \<times> 'r) list \<Rightarrow> (16 word \<times> 'r) list \<times> bool" where
  "mp_response kind reply kept = (if kind \<in> {1, 4, 0, 2, 3, 13, 5} then (put kind reply kept, True) else (kept, False))"

section \<open>A request without a body\<close>

text \<open>
  Asking for flows by GET is asking by POST for nothing in particular: the request sent to a known switch is the same as
  that of an empty object, for flows and for aggregates.
\<close>

lemma get_is_empty_post:
  assumes "known d" "lexical_uint 64 dpid = Some d" "kind = ''flow'' \<or> kind = ''aggregate-flow''"
  shows "mp_post junk accepts known [kind, dpid] (Some []) = mp_get known switches [kind, dpid]"
  using assms
  by (auto simp: mp_post_def mp_get_def send_get_def mp_flow_def mp_info_def choose_value_def all_flows_def Let_def)

lemma get_is_empty_post_witness:
  "mp_post 0 (\<lambda>_ _. True) (\<lambda>d. d = 1) [''flow'', ''1''] (Some []) = Waits_for 1 (Flow_request all_flows)"
proof -
  have "lexical_uint 64 ''1'' = Some 1" by (simp add: lexical_uint_def digit_value_def)
  then show ?thesis
    using get_is_empty_post [of "\<lambda>d. d = 1" 1 "''1''" "''flow''" 0 "\<lambda>_ _. True" "[]"] by (simp add: mp_get_def send_get_def)
qed

end
