(* ===== verification/Hosts.thy ===== *)
theory Hosts
  imports Switch_Manager
begin

text \<open>
  The host manager, \<^verbatim>\<open>src/HostManager.cc\<close>: the hosts by their hardware address, where they are
  attached, and the addresses of the ports of switches. A host object is known by the number of its
  creation. The handler that would find hosts in packets is commented out in the source.
\<close>

section \<open>State and operations\<close>

record host =
  ho_object :: nat
  ho_mac :: string
  ho_ip :: "32 word"
  ho_switch :: "64 word"
  ho_port :: "32 word"

record host_manager =
  hm_hosts :: "(string \<times> host) list"
  hm_fresh :: nat
  hm_switch_macs :: "string list"
  hm_discovered :: "nat list"

definition hm_init :: host_manager where
  "hm_init = \<lparr>hm_hosts = [], hm_fresh = 0, hm_switch_macs = [], hm_discovered = []\<rparr>"

type_synonym host_events = "(ev_type \<times> nat) list"

text \<open>\<open>addHost\<close> creates and attaches a host, reports it and emits a signal.\<close>

definition add_host :: "64 word \<Rightarrow> 32 word \<Rightarrow> string \<Rightarrow> 32 word \<Rightarrow> host_manager \<Rightarrow> host_manager \<times> host_events" where
  "add_host sw ip mac port s = (let h = \<lparr>ho_object = hm_fresh s, ho_mac = mac, ho_ip = ip, ho_switch = sw, ho_port = port\<rparr> in
     (s\<lparr>hm_hosts := put mac h (hm_hosts s), hm_fresh := hm_fresh s + 1, hm_discovered := hm_discovered s @ [hm_fresh s]\<rparr>,
      [(Ev_add, hm_fresh s)]))"

definition find_mac :: "string \<Rightarrow> host_manager \<Rightarrow> bool" where
  "find_mac mac s = (map_of (hm_hosts s) mac \<noteq> None)"

definition is_switch :: "string \<Rightarrow> host_manager \<Rightarrow> bool" where
  "is_switch mac s = (mac \<in> set (hm_switch_macs s))"

definition get_host :: "string \<Rightarrow> host_manager \<Rightarrow> host option" where
  "get_host mac s = map_of (hm_hosts s) mac"

definition get_host_ip :: "32 word \<Rightarrow> host_manager \<Rightarrow> host option" where
  "get_host_ip ip s = find (\<lambda>h. ho_ip h = ip) (map snd (hm_hosts s))"

text \<open>\<open>delHostForSwitch\<close>.\<close>

definition del_hosts :: "64 word \<Rightarrow> host_manager \<Rightarrow> host_manager \<times> host_events" where
  "del_hosts d s = (s\<lparr>hm_hosts := filter (\<lambda>x. ho_switch (snd x) \<noteq> d) (hm_hosts s)\<rparr>,
     map (\<lambda>x. (Ev_delete, ho_object (snd x))) (filter (\<lambda>x. ho_switch (snd x) = d) (hm_hosts s)))"

text \<open>\<open>onSwitchDown\<close> with the addresses of the ports the switch has, and \<open>newPort\<close>.\<close>

definition hm_switch_down :: "64 word \<Rightarrow> string list \<Rightarrow> host_manager \<Rightarrow> host_manager \<times> host_events" where
  "hm_switch_down d port_macs s = (case del_hosts d s of (s', evs) \<Rightarrow>
     (s'\<lparr>hm_switch_macs := fold remove1 port_macs (hm_switch_macs s')\<rparr>, evs))"

definition hm_new_port :: "string \<Rightarrow> host_manager \<Rightarrow> host_manager" where
  "hm_new_port mac s = s\<lparr>hm_switch_macs := hm_switch_macs s @ [mac]\<rparr>"

text \<open>
  The switch manager clears the ports of a switch before it tells anyone that the switch is down: the
  addresses of its ports stay.
\<close>

lemma port_addresses_stay:
  assumes "map_of (sm_switches sm) d = Some sw"
  shows "\<exists>sw'. map_of (sm_switches (fst (sm_switch_down d sm))) d = Some sw' \<and>
    hm_switch_macs (fst (hm_switch_down d (map mac_of (ports_of_switch sw')) s)) = hm_switch_macs s"
  using assms
  by (auto simp: sm_switch_down_def set_down_def emit_switch_def set_switch_def ports_of_switch_def hm_switch_down_def del_hosts_def)

section \<open>The host manager as a source of events\<close>

text \<open>A host is added when its address is not known.\<close>

inductive host_step :: "host_manager \<Rightarrow> host_events \<Rightarrow> host_manager \<Rightarrow> bool" where
  add: "\<not> find_mac mac s \<Longrightarrow> add_host sw ip mac port s = (s', evs) \<Longrightarrow> host_step s evs s'"
| down: "hm_switch_down d macs s = (s', evs) \<Longrightarrow> host_step s evs s'"
| port: "host_step s [] (hm_new_port mac s)"

definition host_objects :: "host_manager \<Rightarrow> nat set" where
  "host_objects s = ho_object ` snd ` set (hm_hosts s)"

definition hosts_ok :: "host_manager \<Rightarrow> bool" where
  "hosts_ok s = (distinct (map fst (hm_hosts s)) \<and> distinct (map (ho_object \<circ> snd) (hm_hosts s)) \<and>
     (\<forall>x \<in> set (hm_hosts s). fst x = ho_mac (snd x) \<and> ho_object (snd x) < hm_fresh s))"

lemma put_fresh: "map_of xs k = None \<Longrightarrow> put k v xs = xs @ [(k, v)]"
  by (induction xs) (auto split: if_splits)

lemma host_step_ok:
  assumes ok: "hosts_ok s" and step: "host_step s evs s'"
  shows "hosts_ok s' \<and> tracks evs (host_objects s) (host_objects s')"
  using step
proof cases
  case (add mac sw ip port)
  have "put mac h (hm_hosts s) = hm_hosts s @ [(mac, h)]" for h using add(1) by (intro put_fresh) (simp add: find_mac_def)
  then have "hm_hosts s' = hm_hosts s @ [(mac, \<lparr>ho_object = hm_fresh s, ho_mac = mac, ho_ip = ip, ho_switch = sw, ho_port = port\<rparr>)]"
    "hm_fresh s' = hm_fresh s + 1" "evs = [(Ev_add, hm_fresh s)]"
    using add(2) by (auto simp: add_host_def Let_def)
  moreover have "mac \<notin> fst ` set (hm_hosts s)" using add(1) by (simp add: find_mac_def map_of_eq_None_iff)
  moreover have "hm_fresh s \<notin> host_objects s" using ok by (auto simp: hosts_ok_def host_objects_def)
  ultimately show ?thesis using ok by (auto simp: hosts_ok_def host_objects_def image_image)
next
  case (down d macs)
  let ?gone = "filter (\<lambda>x. ho_switch (snd x) = d) (hm_hosts s)" and ?left = "filter (\<lambda>x. ho_switch (snd x) \<noteq> d) (hm_hosts s)"
  have s': "hm_hosts s' = ?left" "hm_fresh s' = hm_fresh s" "evs = map (Pair Ev_delete) (map (ho_object \<circ> snd) ?gone)"
    using down by (auto simp: hm_switch_down_def del_hosts_def)
  have d: "distinct (map (ho_object \<circ> snd) (hm_hosts s))" using ok by (simp add: hosts_ok_def)
  then have "distinct (map (ho_object \<circ> snd) ?gone)" by (simp add: distinct_map_filter)
  moreover have "set (map (ho_object \<circ> snd) ?gone) \<subseteq> host_objects s" by (auto simp: host_objects_def)
  ultimately have "tracks evs (host_objects s) (host_objects s - set (map (ho_object \<circ> snd) ?gone))"
    unfolding s'(3) by (rule tracks_deletes)
  moreover have "host_objects s - set (map (ho_object \<circ> snd) ?gone) = host_objects s'"
  proof -
    have "ho_object (snd x) = ho_object (snd y) \<longleftrightarrow> x = y" if "x \<in> set (hm_hosts s)" "y \<in> set (hm_hosts s)" for x y
      using that d by (auto simp: distinct_map inj_on_def)
    then show ?thesis by (auto simp: host_objects_def s'(1) image_image)
  qed
  moreover have "hosts_ok s'" using ok by (auto simp: hosts_ok_def s'(1,2) distinct_map_filter)
  ultimately show ?thesis by simp
next
  case (port mac)
  then show ?thesis using ok by (simp add: hm_new_port_def hosts_ok_def host_objects_def)
qed

lemma host_start_ok: "hosts_ok hm_init" "host_objects hm_init = {}"
  by (simp_all add: hm_init_def hosts_ok_def host_objects_def)

interpretation host_events: event_source host_step hm_init hosts_ok host_objects
  by unfold_locales (rule host_start_ok host_step_ok, assumption?)+

text \<open>Clients see the hosts, and no host is attached to a switch that went down.\<close>

lemma clients_see_hosts:
  assumes "watched host_step app hash_map hm_init s l since shown" "length (el_events l) < 2 ^ 32" "and (fst app) hash_map \<noteq> 0"
  shows "(\<exists>since' result. timeout hash_map since l = Inr (since', result) \<and> see_all result shown = host_objects s) \<and>
    (\<forall>(mac, h) \<in> set (hm_hosts (fst (hm_switch_down d macs s))). ho_switch h \<noteq> d)"
  using host_events.client_sees_objects [OF assms] by (auto simp: hm_switch_down_def del_hosts_def)

end
