(* ===== verification/Spec2Isabelle.thy ===== *)
theory Spec2Isabelle
  imports Multi_Field_Set Retic_App Ip_Addresses Packet_View Spanning_Tree_Correct Learning_Switch Link_Mirror Loader Maple_Bounds Maple_System
    Rest_Listener Flow_Manager Connections Rest_Show Rest_Multipart Hosts
begin

text \<open>
  Verification of the runos OpenFlow controller. All file names below are relative to
  \<^verbatim>\<open>src/\<close> of the repository.

  \<^bold>\<open>The program.\<close> The controller keeps connections to OpenFlow switches and fills their flow
  tables. Applications say what is to happen to packets in one of two ways. With Retic they compose
  policies (filters, rewrites, sequential and parallel composition, timeouts, handlers of packets); the
  policies are compiled to a forwarding decision diagram, the diagram is translated to prioritised rules,
  and a packet that needs a handler is sent to the controller, where the handler runs on a traced packet
  and its trace becomes a new part of the diagram. With Maple they register handlers that make decisions;
  the traces of the handlers are kept in one tree for the whole network, from which rules follow. Under both
  lie the OpenFlow matches (fields with masks), the parser of frames and the addresses. Beside them run the
  controller proper with the switch manager, the discovery of links, the topology, the spanning tree, the
  learning switch, the flow manager, and a REST interface with a log of events for web clients.

  \<^bold>\<open>Conventions\<close> (theory \<^verbatim>\<open>Prelude\<close>). A function that may throw goes to \<open>'a res\<close>, with an
  exception of the datatype \<open>error\<close> on the left; a run that may not end, or that depends on fuel, is an
  option with \<open>None\<close> for not returning. Machine integers are words where they wrap around
  (priorities, ports, timeouts, identifiers), and naturals where the code can only count up or where the bound
  is part of the statement. Objects the code shares by pointer have numbers; a signal or a message is an
  element of a list in the order of emission.

  \<^bold>\<open>Matches.\<close> \<^verbatim>\<open>Bits\<close>: the dynamic bitset of \<^verbatim>\<open>types/bits.hh\<close>.
  \<^verbatim>\<open>Oxm_Type\<close>, \<^verbatim>\<open>Oxm_Field\<close>: the types of \<^verbatim>\<open>oxm/type.hh\<close>, \<^verbatim>\<open>oxm/openflow_basic.hh\<close>,
  and the values, masks and fields of \<^verbatim>\<open>oxm/field.hh\<close>. \<^verbatim>\<open>Field_Set\<close>, \<^verbatim>\<open>Multi_Field_Set\<close>: the
  sets of \<^verbatim>\<open>oxm/field_set.hh\<close>. Shown: round trips of buffers, the algebra of fields, the invariants
  (one field per type; antichains of fields) and what each set matches.

  \<^bold>\<open>Packets.\<close> \<^verbatim>\<open>Packet\<close>: the interface \<^verbatim>\<open>api/Packet.hh\<close>, a locale \<open>packet_ops\<close> of
  tests and rewrites that is interpreted on field sets. \<^verbatim>\<open>Addresses\<close>, \<^verbatim>\<open>Ip_Addresses\<close>:
  \<^verbatim>\<open>types/ethaddr.cc\<close>, \<^verbatim>\<open>types/ipv4addr.cc\<close>, \<^verbatim>\<open>types/ipv6addr.cc\<close>. \<^verbatim>\<open>Packet_Parser\<close>,
  \<^verbatim>\<open>Packet_Layout\<close>, \<^verbatim>\<open>Packet_View\<close>: \<^verbatim>\<open>PacketParser.cc\<close> over the bytes of a frame, where
  it binds each field, and that a parsed frame is a packet (it satisfies the laws of the locale
  \<open>packet_view\<close> for the fields of whole bytes).

  \<^bold>\<open>Retic.\<close> \<^verbatim>\<open>Policies\<close>: \<^verbatim>\<open>retic/policies.hh\<close> with a meaning \<open>sem\<close> of policies as
  multisets of outcomes. \<^verbatim>\<open>Fdd\<close>, \<^verbatim>\<open>Fdd_Correct\<close>: the compiler \<^verbatim>\<open>retic/fdd_compiler.cc\<close>
  refines that meaning (locale \<open>fdd_ops\<close>). \<^verbatim>\<open>Fdd_Translator\<close>, \<^verbatim>\<open>Retic_Pipeline\<close>: rules with
  16-bit priorities, and that the table does what the policy means. \<^verbatim>\<open>Tracer\<close>, \<^verbatim>\<open>Trace_Merge\<close>,
  \<^verbatim>\<open>Trace_Tree\<close>, \<^verbatim>\<open>Traverse\<close>: the traced packet, the merge of traces, the trees below the
  leaves and the traversal that runs the handlers of a packet. \<^verbatim>\<open>Of13_Backend\<close>, \<^verbatim>\<open>Retic_App\<close>: the
  driver objects that own flow entries and groups, the backend and the application of \<^verbatim>\<open>Retic.cc\<close>, with
  an invariant over all reachable states. \<^verbatim>\<open>Sample_Packets\<close> holds the packets of the examples.

  \<^bold>\<open>Maple.\<close> \<^verbatim>\<open>Maple_Tree\<close>, \<^verbatim>\<open>Maple_Rules\<close>, \<^verbatim>\<open>Maple_Install\<close>, \<^verbatim>\<open>Maple_Lookup\<close>,
  \<^verbatim>\<open>Maple_Bounds\<close>: the tree of \<^verbatim>\<open>maple/TraceTree.cc\<close>, its compiler, the installation trace by
  trace, that both serve what is looked up, and how many tests fit in 16 bits. \<^verbatim>\<open>Decision\<close>:
  \<^verbatim>\<open>Decision.cc\<close>. \<^verbatim>\<open>Maple_Handlers\<close>, \<^verbatim>\<open>Maple_Runtime\<close>, \<^verbatim>\<open>Maple_Flows\<close>,
  \<^verbatim>\<open>Maple_System\<close>: the pipeline of handlers, the state machine of flows of \<^verbatim>\<open>Maple.cc\<close>, and the
  controller together with the tables of the switches as one transition system.

  \<^bold>\<open>Network applications.\<close> \<^verbatim>\<open>Topology\<close>, \<^verbatim>\<open>Spanning_Tree\<close>,
  \<^verbatim>\<open>Spanning_Tree_Correct\<close>, \<^verbatim>\<open>Learning_Switch\<close>, \<^verbatim>\<open>Link_Discovery\<close>, \<^verbatim>\<open>Link_Mirror\<close>,
  \<^verbatim>\<open>Loader\<close> model the files of their names (\<^verbatim>\<open>STP.cc\<close> for the spanning tree);
  \<^verbatim>\<open>Forwarding_Packets\<close> is what policies do to a packet at a port. Link discovery and the topology meet
  in \<^verbatim>\<open>Link_Mirror\<close>: the topology lists the links that are known.

  \<^bold>\<open>The controller and its clients.\<close> \<^verbatim>\<open>Of_Messages\<close>: \<^verbatim>\<open>OFMsgUnion.cc\<close>. \<^verbatim>\<open>Controller\<close>:
  \<^verbatim>\<open>Controller.cc\<close>, \<^verbatim>\<open>OFTransaction.cc\<close> and \<^verbatim>\<open>SwitchConnection.cc\<close>. \<^verbatim>\<open>Switch_Manager\<close>:
  \<^verbatim>\<open>Switch.cc\<close>. \<^verbatim>\<open>Connections\<close>: both of them as a step relation over whatever happens on the
  connections. \<^verbatim>\<open>Event_Log\<close>, \<^verbatim>\<open>Event_Clients\<close>: \<^verbatim>\<open>Event.cc\<close> and a client that asks from
  time to time. \<^verbatim>\<open>Event_Source\<close>: the locale \<open>event_source\<close>, the contract of an application with
  the log (what it adds is new, what it deletes is there); it is interpreted on the switches
  (\<^verbatim>\<open>Connections\<close>), the rules (\<^verbatim>\<open>Flow_Manager\<close>, \<^verbatim>\<open>FlowManager.cc\<close>) and the hosts
  (\<^verbatim>\<open>Hosts\<close>, \<^verbatim>\<open>HostManager.cc\<close>), so that web clients show exactly what is there.
  \<^verbatim>\<open>Rest_Listener\<close>: \<^verbatim>\<open>RestListener.cc\<close>. \<^verbatim>\<open>Rest_Numbers\<close>, \<^verbatim>\<open>Rest_Flow\<close>,
  \<^verbatim>\<open>Rest_Flow_Correct\<close>, \<^verbatim>\<open>Rest_Show\<close>, \<^verbatim>\<open>Rest_Multipart\<close>:
  \<^verbatim>\<open>RestStringProcessing.cc\<close>, \<^verbatim>\<open>RestFlowMod.cc\<close>, \<^verbatim>\<open>RestMultipart.cc\<close>; a request sends what
  its reply says, matches that are sent are complete, and what is shown can be posted again.

  \<^bold>\<open>Bounds and fuel.\<close> A Retic rule splits its range of priorities in half: a diagram of
  \<open>k\<close> levels needs a range of \<open>2 ^ (k + 2) - 2\<close>, so 14 levels fit in the default one. A Maple
  trace halves its range with every test: 14 tests fit in 1 to 65535, and there is a trace of 15 that does not. The
  compiler and the traversal recurse with fuel and the theorems show that there is fuel with which
  they return; the loader has one more than the number of applications. The results on the event log hold
  for fewer than \<open>2 ^ 32\<close> events, those on the flow manager below \<open>2 ^ 64\<close> rules.

  \<^bold>\<open>Parameters and what is assumed of them.\<close> The shortest path and spanning trees of the Boost
  graph library are arguments (locale \<open>shortest_path_tree\<close>, interpreted on a breadth-first search); a
  flow entry replaces one with the same match and priority, as OpenFlow says; the bodies of custom Maple decisions
  and the handlers of inspected packets are functions; the matches of libfluid are compared by equality; the
  text that a libfluid constructor accepts is the predicate \<open>accepts\<close>; uninitialised memory is the
  argument \<open>junk\<close>. The main result on connections assumes one connection for each switch at a time; a
  lemma beside it shows what happens otherwise.

  \<^bold>\<open>Not modelled.\<close> Sockets, HTTP, JSON text, Qt threads and locks, logging and printing. In
  Maple the second attempt after priorities run out (a reassignment in floating point), the packets
  sent out again and the split of the rules by switch; virtual loads, which no application makes. The
  adapter to libfluid matches, the JSON views of switches and rules, the command line, the web interface,
  and the start of the program with its configuration are glue around libraries. The JSON library is third-party code and the
  OpenFlow headers are published declarations. The handler of ARP requests is commented out of the
  build.
\<close>

end
